(* ===== verification/Prelude.thy ===== *)
theory Prelude
  imports Main "HOL-Library.Word" "HOL-Library.Sublist"
begin

text \<open>
  Shared vocabulary of the development: the C++ data types the sources use (bytes,
  \<^verbatim>\<open>std::string\<close>, \<^verbatim>\<open>std::vector\<close>), the failures a C++ operation can end in, the
  search functions of the standard library, and the collections of facts the component
  theories extend.

  A \<^verbatim>\<open>std::string\<close> or \<^verbatim>\<open>std::vector<char>\<close> is a list of bytes. A \<^verbatim>\<open>size_t\<close> that counts
  elements of a container is a \<^typ>\<open>nat\<close>; where a conversion or an overflow matters the value
  is a machine word. Undefined behaviour, a failed \<^verbatim>\<open>assert\<close> and a thrown exception are the left
  injection of a sum.
\<close>

section \<open>Types\<close>

type_synonym bytes = "char list"
type_synonym uint8 = "8 word"
type_synonym uint32 = "32 word"
type_synonym uint64 = "64 word"

datatype cpp_error =
    OutOfBounds            \<comment> \<open>access outside an object: undefined behaviour\<close>
  | NullDeref              \<comment> \<open>dereference of \<^verbatim>\<open>nullptr\<close> or of an end iterator: undefined behaviour\<close>
  | AssertFail             \<comment> \<open>a failed \<^verbatim>\<open>assert\<close>: the process aborts\<close>
  | DivByZero              \<comment> \<open>integer division by zero: undefined behaviour\<close>
  | OutOfRange             \<comment> \<open>\<^verbatim>\<open>std::out_of_range\<close>\<close>
  | InvalidArgument string \<comment> \<open>\<^verbatim>\<open>std::invalid_argument\<close>\<close>

text \<open>Facts shared by the component proofs: invariants kept by operations, equations of
  abstraction functions, and fields an operation leaves alone.\<close>

named_theorems inv_pres
named_theorems abs_simps
named_theorems frame_simps

section \<open>Containers\<close>

text \<open>\<^verbatim>\<open>std::copy\<close> of a range into a vector at an index, and \<^verbatim>\<open>vector::resize\<close>.\<close>

definition overwrite :: "'a list \<Rightarrow> nat \<Rightarrow> 'a list \<Rightarrow> 'a list" where
  "overwrite xs i ys = take i xs @ ys @ drop (i + length ys) xs"

definition resize :: "'a \<Rightarrow> nat \<Rightarrow> 'a list \<Rightarrow> 'a list" where
  "resize z n xs = take n xs @ replicate (n - length xs) z"

lemma length_overwrite [simp]:
  "i + length ys \<le> length xs \<Longrightarrow> length (overwrite xs i ys) = length xs"
  by (simp add: overwrite_def)

lemma length_resize [simp]: "length (resize z n xs) = n"
  by (simp add: resize_def)

lemma take_resize: "i \<le> length xs \<Longrightarrow> i \<le> n \<Longrightarrow> take i (resize z n xs) = take i xs"
  by (simp add: resize_def min_def)

lemma slice_resize:
  "i \<le> length xs \<Longrightarrow> i \<le> n \<Longrightarrow> take (i - k) (drop k (resize z n xs)) = take (i - k) (drop k xs)"
  by (metis drop_take take_resize)

lemma slice_overwrite_append:
  assumes "k \<le> i" "i \<le> length xs"
  shows "take (i + length ys - k) (drop k (overwrite xs i ys)) = take (i - k) (drop k xs) @ ys"
proof -
  have "drop k (overwrite xs i ys) = drop k (take i xs) @ ys @ drop (i + length ys) xs"
    using assms by (simp add: overwrite_def)
  moreover have "length (drop k (take i xs)) = i - k" using assms by simp
  ultimately show ?thesis using assms by (simp add: drop_take)
qed

lemma slice_overwrite_at:
  "i \<le> length xs \<Longrightarrow> take (length ys) (drop i (overwrite xs i ys)) = ys"
  by (simp add: overwrite_def)

text \<open>A finite table can be enumerated.\<close>

lemma finite_enumeration:
  assumes "finite (dom m)" shows "\<exists>kvs. distinct (map fst kvs) \<and> map_of kvs = m"
proof -
  from finite_distinct_list [OF assms] obtain xs where "set xs = dom m" "distinct xs" by blast
  then have "distinct (map fst (map (\<lambda>k. (k, the (m k))) xs)) \<and> map_of (map (\<lambda>k. (k, the (m k))) xs) = m"
    by (simp add: map_of_map_keys comp_def)
  then show ?thesis by blast
qed

section \<open>Searching\<close>

text \<open>\<^verbatim>\<open>std::search\<close>: the position of the first occurrence of a needle.\<close>

fun search :: "'a list \<Rightarrow> 'a list \<Rightarrow> nat option" where
  "search n [] = (if n = [] then Some 0 else None)"
| "search n (x # xs) = (if prefix n (x # xs) then Some 0 else map_option Suc (search n xs))"

text \<open>\<^verbatim>\<open>std::string::find\<close> from a position; \<^verbatim>\<open>npos\<close> is \<^const>\<open>None\<close>.\<close>

definition find_from :: "'a list \<Rightarrow> 'a list \<Rightarrow> nat \<Rightarrow> nat option" where
  "find_from n s pos = (if pos > length s then None else map_option (\<lambda>i. pos + i) (search n (drop pos s)))"

text \<open>\<^verbatim>\<open>std::string::substr\<close>, which throws when the start is past the end.\<close>

definition substr :: "'a list \<Rightarrow> nat \<Rightarrow> nat \<Rightarrow> cpp_error + 'a list" where
  "substr s pos len = (if pos > length s then Inl OutOfRange else Inr (take len (drop pos s)))"

text \<open>\<^verbatim>\<open>find_first_not_of\<close> and \<^verbatim>\<open>find_last_not_of\<close> over a set of characters given as a predicate.\<close>

definition find_first_not_of :: "('a \<Rightarrow> bool) \<Rightarrow> 'a list \<Rightarrow> nat option" where
  "find_first_not_of P s =
     (let k = length (takeWhile P s) in if k < length s then Some k else None)"

definition find_last_not_of :: "('a \<Rightarrow> bool) \<Rightarrow> 'a list \<Rightarrow> nat option" where
  "find_last_not_of P s =
     (let k = length (takeWhile P (rev s)) in if k < length s then Some (length s - 1 - k) else None)"

lemma search_Nil [simp]: "search [] s = Some 0"
  by (cases s) auto

lemma search_SomeD:
  "search n s = Some i \<Longrightarrow>
     i \<le> length s \<and> prefix n (drop i s) \<and> (\<forall>j<i. \<not> prefix n (drop j s))"
proof (induction s arbitrary: i)
  case Nil
  then show ?case by (auto split: if_splits)
next
  case (Cons x xs)
  show ?case
  proof (cases "prefix n (x # xs)")
    case True
    with Cons.prems show ?thesis by simp
  next
    case False
    with Cons.prems obtain k where k: "search n xs = Some k" "i = Suc k" by auto
    have "\<not> prefix n (drop j (x # xs))" if "j < i" for j
      using that k False Cons.IH [OF k(1)] by (cases j) auto
    with k Cons.IH [OF k(1)] show ?thesis by simp
  qed
qed

lemma search_NoneD: "search n s = None \<Longrightarrow> \<not> prefix n (drop j s)"
proof (induction s arbitrary: j)
  case Nil
  then show ?case by (auto split: if_splits)
next
  case (Cons x xs)
  then show ?case by (cases j) (auto split: if_splits)
qed

lemma search_SomeI:
  assumes "prefix n (drop i s)" and "\<forall>j<i. \<not> prefix n (drop j s)" and "i \<le> length s"
  shows "search n s = Some i"
proof (cases "search n s")
  case None
  with assms(1) show ?thesis by (auto dest: search_NoneD)
next
  case (Some k)
  with search_SomeD [OF Some] assms have "\<not> k < i" "\<not> i < k" by auto
  with Some show ?thesis by simp
qed

lemma search_length: "search n s = Some i \<Longrightarrow> i + length n \<le> length s"
  by (drule search_SomeD) (auto dest!: prefix_length_le)

lemma search_char:
  "search [c] s = (if c \<in> set s then Some (length (takeWhile (\<lambda>x. x \<noteq> c) s)) else None)"
  by (induction s) auto

lemma search_char_append:
  "c \<notin> set xs \<Longrightarrow> search [c] (xs @ c # ys) = Some (length xs)"
  by (induction xs) auto

lemma find_from_0 [simp]: "find_from n s 0 = search n s"
  by (cases "search n s") (simp_all add: find_from_def)

lemma find_from_SomeD:
  assumes "find_from n s pos = Some i"
  shows "pos \<le> i" "i + length n \<le> length s" "prefix n (drop i s)"
    and "\<And>j. pos \<le> j \<Longrightarrow> j < i \<Longrightarrow> \<not> prefix n (drop j s)"
proof -
  from assms obtain k where k: "search n (drop pos s) = Some k" "i = pos + k" "pos \<le> length s"
    by (auto simp: find_from_def split: if_splits)
  show "pos \<le> i" using k by simp
  show "i + length n \<le> length s" using search_length [OF k(1)] k by simp
  show "prefix n (drop i s)" using search_SomeD [OF k(1)] k by (simp add: add.commute)
  show "\<not> prefix n (drop j s)" if "pos \<le> j" "j < i" for j
  proof -
    from that k have "j - pos < k" by simp
    with search_SomeD [OF k(1)] have "\<not> prefix n (drop (j - pos) (drop pos s))" by blast
    with that show ?thesis by simp
  qed
qed

lemma substr_Inr: "pos \<le> length s \<Longrightarrow> substr s pos len = Inr (take len (drop pos s))"
  by (simp add: substr_def)

section \<open>Operations that may fail\<close>

text \<open>Sequencing of operations that end in a value or in a failure.\<close>

definition ebind :: "cpp_error + 'a \<Rightarrow> ('a \<Rightarrow> cpp_error + 'b) \<Rightarrow> cpp_error + 'b" where
  "ebind r f = (case r of Inl e \<Rightarrow> Inl e | Inr x \<Rightarrow> f x)"

fun efold :: "('a \<Rightarrow> 's \<Rightarrow> cpp_error + 's) \<Rightarrow> 'a list \<Rightarrow> 's \<Rightarrow> cpp_error + 's" where
  "efold f [] s = Inr s"
| "efold f (x # xs) s = ebind (f x s) (efold f xs)"

lemma ebind_simps [simp]: "ebind (Inl e) f = Inl e" "ebind (Inr x) f = f x"
  by (simp_all add: ebind_def)

lemma ebind_Inr: "ebind r f = Inr y \<longleftrightarrow> (\<exists>x. r = Inr x \<and> f x = Inr y)"
  by (cases r) auto

lemma efold_append: "efold f (xs @ ys) s = ebind (efold f xs s) (efold f ys)"
  by (induction xs arbitrary: s) (auto simp: ebind_def split: sum.splits)

lemma efold_inv:
  assumes "efold f xs s = Inr s'" and "P s"
    and "\<And>x s s'. x \<in> set xs \<Longrightarrow> P s \<Longrightarrow> f x s = Inr s' \<Longrightarrow> P s'"
  shows "P s'"
  using assms by (induction xs arbitrary: s) (auto simp: ebind_Inr)

lemma efold_total:
  assumes "P s" and "\<And>x s. x \<in> set xs \<Longrightarrow> P s \<Longrightarrow> \<exists>s'. f x s = Inr s' \<and> P s'"
  shows "\<exists>s'. efold f xs s = Inr s' \<and> P s'"
  using assms by (induction xs arbitrary: s) (auto simp: ebind_Inr, metis ebind_simps(2))

section \<open>First-in first-out services\<close>

text \<open>What several components promise their clients: what they take on is served once each and in the order of taking
  on, whatever steps follow. A provider gives its reachable states, its steps, and the histories of what it has accepted
  and served, with what still waits.\<close>

locale fifo_service =
  fixes ok :: "'s \<Rightarrow> bool" and moves :: "'s \<Rightarrow> 's \<Rightarrow> bool"
    and accepted :: "'s \<Rightarrow> 'a list" and served :: "'s \<Rightarrow> 'a list" and waiting :: "'s \<Rightarrow> 'a list"
  assumes conserved: "ok s \<Longrightarrow> accepted s = served s @ waiting s"
    and ok_moves: "ok s \<Longrightarrow> moves s s' \<Longrightarrow> ok s'"
    and accepted_grows: "ok s \<Longrightarrow> moves s s' \<Longrightarrow> prefix (accepted s) (accepted s')"
    and served_grows: "ok s \<Longrightarrow> moves s s' \<Longrightarrow> prefix (served s) (served s')"
begin

lemma later:
  "moves\<^sup>*\<^sup>* s s' \<Longrightarrow> ok s \<Longrightarrow> ok s' \<and> prefix (accepted s) (accepted s') \<and> prefix (served s) (served s')"
proof (induction rule: rtranclp_induct)
  case (step t u)
  then show ?case
    using ok_moves [of t u] accepted_grows [of t u] served_grows [of t u] by (metis prefix_order.trans)
qed simp

text \<open>Nothing accepted later is served before what has been accepted by now.\<close>

lemma no_overtaking:
  assumes "moves\<^sup>*\<^sup>* s s'" "ok s"
  shows "prefix (served s') (accepted s) \<or> prefix (accepted s) (served s')"
proof -
  have "prefix (accepted s) (accepted s')" "prefix (served s') (accepted s')"
    using later [OF assms] conserved [of s'] by auto
  then show ?thesis by (meson prefix_same_cases)
qed

text \<open>An element is served at the position at which it was accepted.\<close>

lemma served_at_its_turn:
  assumes "moves\<^sup>*\<^sup>* s s'" "ok s" "i < length (accepted s)" "i < length (served s')"
  shows "served s' ! i = accepted s ! i"
proof -
  have "accepted s' = served s' @ waiting s'" "prefix (accepted s) (accepted s')"
    using later [OF assms(1,2)] conserved by auto
  then show ?thesis using assms(3,4) by (metis nth_append prefix_def)
qed

lemma all_served: "ok s \<Longrightarrow> waiting s = [] \<Longrightarrow> served s = accepted s"
  by (simp add: conserved)

end

section \<open>Machine integers\<close>

lemma sint_word_of_int_32:
  "- (2 ^ 31) \<le> v \<Longrightarrow> v < 2 ^ 31 \<Longrightarrow> sint (word_of_int v :: 32 word) = v"
  by (subst sint_sbintrunc') (simp add: signed_take_bit_int_eq_self)

lemma unat_of_nat_small: "n < 2 ^ LENGTH('a) \<Longrightarrow> unat (of_nat n :: 'a::len word) = n"
  by (simp add: unat_of_nat take_bit_nat_eq_self)

lemma unat_minus_of_nat:
  fixes w :: "'a::len word"
  assumes "n \<le> unat w"
  shows "unat (w - of_nat n) = unat w - n"
proof -
  have "unat w < 2 ^ LENGTH('a)" by simp
  with assms have "n < 2 ^ LENGTH('a)" by (rule le_less_trans)
  then have n: "unat (of_nat n :: 'a word) = n" by (rule unat_of_nat_small)
  with assms have "of_nat n \<le> w" by (simp add: word_le_nat_alt)
  with n show ?thesis by (simp add: unat_sub)
qed

end
