(* ===== verification/CppStrings.thy ===== *)
theory CppStrings
  imports Prelude
begin

text \<open>
  The string routines the HTTP code shares: \<^verbatim>\<open>DelSpaceHelper\<close> of src/base/util.cpp, and the
  functions of the C and C++ library it calls (\<^verbatim>\<open>atoi\<close>, \<^verbatim>\<open>std::to_string\<close>, \<^verbatim>\<open>std::tolower\<close>,
  \<^verbatim>\<open>std::getline\<close>). The lemmas give the trimmed form of a string, and that decimal rendering and
  \<^verbatim>\<open>atoi\<close> are inverse below the 32-bit bound.
\<close>

section \<open>Library routines\<close>

definition is_digit :: "char \<Rightarrow> bool" where
  "is_digit c \<longleftrightarrow> 48 \<le> (of_char c :: nat) \<and> (of_char c :: nat) \<le> 57"

definition is_space :: "char \<Rightarrow> bool" where
  "is_space c \<longleftrightarrow> (of_char c :: nat) = 32 \<or> (9 \<le> (of_char c :: nat) \<and> (of_char c :: nat) \<le> 13)"

definition is_upper :: "char \<Rightarrow> bool" where
  "is_upper c \<longleftrightarrow> 65 \<le> (of_char c :: nat) \<and> (of_char c :: nat) \<le> 90"

definition to_lower :: "char \<Rightarrow> char" where
  "to_lower c = (if is_upper c then char_of ((of_char c :: nat) + 32) else c)"

text \<open>\<^verbatim>\<open>std::to_string\<close> of a non-negative value.\<close>

fun to_dec :: "nat \<Rightarrow> bytes" where
  "to_dec n = (if n < 10 then [char_of (48 + n)] else to_dec (n div 10) @ [char_of (48 + n mod 10)])"

declare to_dec.simps [simp del]

text \<open>The same of an \<^verbatim>\<open>int32_t\<close>.\<close>

definition to_dec_int :: "int \<Rightarrow> bytes" where
  "to_dec_int i = (if i < 0 then CHR ''-'' # to_dec (nat (- i)) else to_dec (nat i))"

text \<open>\<^verbatim>\<open>atoi\<close>: white space, one optional sign, decimal digits up to the first other character. The C
  library computes a 64-bit value that saturates and converts it to a 32-bit \<^verbatim>\<open>int\<close>.\<close>

fun digits_value :: "nat \<Rightarrow> bytes \<Rightarrow> nat" where
  "digits_value acc [] = acc"
| "digits_value acc (c # cs) =
     (if is_digit c then digits_value (10 * acc + (of_char c - 48)) cs else acc)"

definition strtol :: "bytes \<Rightarrow> int" where
  "strtol s = (case dropWhile is_space s of
      [] \<Rightarrow> 0
    | c # cs \<Rightarrow>
        if c = CHR ''-'' then - int (digits_value 0 cs)
        else if c = CHR ''+'' then int (digits_value 0 cs)
        else int (digits_value 0 (c # cs)))"

definition atoi :: "bytes \<Rightarrow> int" where
  "atoi s = sint (word_of_int (max (- (2 ^ 63)) (min (2 ^ 63 - 1) (strtol s))) :: 32 word)"

text \<open>\<^verbatim>\<open>std::getline\<close> run to the end of a string stream: the pieces between line feeds, without a last
  empty one.\<close>

fun getlines_aux :: "bytes \<Rightarrow> bytes \<Rightarrow> bytes list" where
  "getlines_aux acc [] = (if acc = [] then [] else [rev acc])"
| "getlines_aux acc (c # cs) =
     (if c = CHR 0x0A then rev acc # getlines_aux [] cs else getlines_aux (c # acc) cs)"

definition getlines :: "bytes \<Rightarrow> bytes list" where
  "getlines s = getlines_aux [] s"

section \<open>DelSpaceHelper\<close>

definition is_sp :: "char \<Rightarrow> bool" where "is_sp c \<longleftrightarrow> c = CHR '' ''"

definition DelSpaceHelper :: "bytes \<Rightarrow> bytes" where
  "DelSpaceHelper str =
     (if str = [] then str
      else let pos = (case find_first_not_of is_sp str of None \<Rightarrow> 0 | Some p \<Rightarrow> p);
               pos2 = (case find_last_not_of is_sp str of None \<Rightarrow> 0 | Some p \<Rightarrow> p)
           in take (pos2 - pos + 1) (drop pos str))"

section \<open>Facts\<close>

lemma takeWhile_all_hd: "s \<noteq> [] \<Longrightarrow> \<not> P (hd s) \<Longrightarrow> takeWhile P s = []"
  by (cases s) auto

text \<open>The trimmed form: outer spaces go, the inside stays.\<close>

lemma DelSpaceHelper_pad:
  assumes "s \<noteq> []" "hd s \<noteq> CHR '' ''" "last s \<noteq> CHR '' ''"
  shows "DelSpaceHelper (replicate a (CHR '' '') @ s @ replicate b (CHR '' '')) = s"
proof -
  let ?t = "replicate a (CHR '' '') @ s @ replicate b (CHR '' '')"
  have hd: "takeWhile is_sp (s @ t) = []" for t
    using assms by (cases s) (auto simp: is_sp_def)
  have l: "takeWhile is_sp (rev s @ t) = []" for t
    using assms by (cases s rule: rev_cases) (auto simp: is_sp_def)
  have p: "takeWhile is_sp ?t = replicate a (CHR '' '')"
    using hd by (subst takeWhile_append2) (auto simp: is_sp_def)
  have "rev ?t = replicate b (CHR '' '') @ rev s @ replicate a (CHR '' '')" by simp
  then have q: "takeWhile is_sp (rev ?t) = replicate b (CHR '' '')"
    using l by (simp only:) (subst takeWhile_append2, auto simp: is_sp_def)
  have n: "0 < length s" using assms(1) by simp
  have "find_first_not_of is_sp ?t = Some a"
    using p n by (simp add: find_first_not_of_def Let_def)
  moreover have "find_last_not_of is_sp ?t = Some (a + length s - 1)"
    using q n by (auto simp: find_last_not_of_def Let_def)
  moreover have "a + length s - 1 - a + 1 = length s" using n by simp
  ultimately show ?thesis using n by (simp add: DelSpaceHelper_def)
qed

lemma DelSpaceHelper_trimmed:
  "hd s \<noteq> CHR '' '' \<Longrightarrow> last s \<noteq> CHR '' '' \<Longrightarrow> s \<noteq> [] \<Longrightarrow> DelSpaceHelper s = s"
  using DelSpaceHelper_pad [of s 0 0] by simp

lemma DelSpaceHelper_Nil [simp]: "DelSpaceHelper [] = []"
  by (simp add: DelSpaceHelper_def)

lemma DelSpaceHelper_lead:
  "hd s \<noteq> CHR '' '' \<Longrightarrow> last s \<noteq> CHR '' '' \<Longrightarrow> s \<noteq> [] \<Longrightarrow> DelSpaceHelper (CHR '' '' # s) = s"
  using DelSpaceHelper_pad [of s 1 0] by simp

lemma find_first_not_of_all: "\<forall>x\<in>set s. P x \<Longrightarrow> find_first_not_of P s = None"
  by (simp add: find_first_not_of_def takeWhile_eq_all_conv [THEN iffD2])

lemma find_last_not_of_all: "\<forall>x\<in>set s. P x \<Longrightarrow> find_last_not_of P s = None"
  by (simp add: find_last_not_of_def takeWhile_eq_all_conv [THEN iffD2])

lemma DelSpaceHelper_blank: "DelSpaceHelper (replicate (Suc n) (CHR '' '')) = '' ''"
proof -
  have "\<forall>x\<in>set (replicate (Suc n) (CHR '' '')). is_sp x" by (simp add: is_sp_def)
  from find_first_not_of_all [OF this] find_last_not_of_all [OF this] show ?thesis
    by (simp add: DelSpaceHelper_def)
qed

text \<open>Decimal numbers.\<close>

lemma of_char_digit: "d < 10 \<Longrightarrow> (of_char (char_of (48 + d) :: char) :: nat) = 48 + d"
  by simp

lemma is_digit_char_of [simp]: "d < 10 \<Longrightarrow> is_digit (char_of (48 + d :: nat))"
  by (simp add: is_digit_def)

lemma to_dec_digits: "\<forall>c\<in>set (to_dec n). is_digit c"
proof (induction n rule: to_dec.induct)
  case (1 n)
  show ?case
  proof (cases "n < 10")
    case True
    then show ?thesis by (subst to_dec.simps) simp
  next
    case False
    with 1 show ?thesis by (subst to_dec.simps) auto
  qed
qed

lemma to_dec_nonempty [simp]: "to_dec n \<noteq> []"
  by (subst to_dec.simps) simp

lemma digits_value_append:
  "\<forall>c\<in>set xs. is_digit c \<Longrightarrow> digits_value a (xs @ ys) = digits_value (digits_value a xs) ys"
  by (induction xs arbitrary: a) auto

lemma digits_value_to_dec: "digits_value 0 (to_dec n) = n"
proof (induction n rule: to_dec.induct)
  case (1 n)
  show ?case
  proof (cases "n < 10")
    case True
    then show ?thesis by (subst to_dec.simps) simp
  next
    case False
    have "digits_value 0 (to_dec n) = digits_value (digits_value 0 (to_dec (n div 10))) [char_of (48 + n mod 10)]"
      using False to_dec_digits [of "n div 10"] by (subst to_dec.simps) (simp add: digits_value_append)
    also have "\<dots> = 10 * (n div 10) + n mod 10"
      using 1 [OF False] by simp
    finally show ?thesis by simp
  qed
qed

lemma is_digit_not_special:
  "is_digit c \<Longrightarrow> \<not> is_space c \<and> c \<noteq> CHR ''-'' \<and> c \<noteq> CHR ''+'' \<and> c \<noteq> CHR '' '' \<and> c \<noteq> CHR '':''
     \<and> c \<noteq> CHR 0x0D \<and> c \<noteq> CHR 0x0A"
  by (auto simp: is_digit_def is_space_def)

lemma strtol_to_dec: "strtol (to_dec n) = int n"
proof -
  obtain c cs where c: "to_dec n = c # cs" using to_dec_nonempty by (meson neq_Nil_conv)
  with to_dec_digits [of n] have "is_digit c" by simp
  with c is_digit_not_special [of c] digits_value_to_dec [of n] show ?thesis by (simp add: strtol_def)
qed

lemma atoi_to_dec: "n < 2 ^ 31 \<Longrightarrow> atoi (to_dec n) = int n"
proof -
  assume n: "n < 2 ^ 31"
  then have "sint (word_of_int (int n) :: 32 word) = int n"
    by (intro sint_word_of_int_32) simp_all
  with n show ?thesis by (simp add: atoi_def strtol_to_dec)
qed

lemma getlines_aux_append:
  "CHR 0x0A \<notin> set l \<Longrightarrow> getlines_aux acc (l @ CHR 0x0A # s) = (rev acc @ l) # getlines_aux [] s"
  by (induction l arbitrary: acc) auto

lemma getlines_Cons: "CHR 0x0A \<notin> set l \<Longrightarrow> getlines (l @ CHR 0x0A # s) = l # getlines s"
  by (simp add: getlines_def getlines_aux_append)

lemma getlines_last: "CHR 0x0A \<notin> set l \<Longrightarrow> l \<noteq> [] \<Longrightarrow> getlines l = [l]"
proof -
  have "CHR 0x0A \<notin> set l \<Longrightarrow> getlines_aux acc l = (if rev acc @ l = [] then [] else [rev acc @ l])" for acc
    by (induction l arbitrary: acc) auto
  then show "CHR 0x0A \<notin> set l \<Longrightarrow> l \<noteq> [] \<Longrightarrow> getlines l = [l]" by (simp add: getlines_def)
qed

lemma getlines_Nil [simp]: "getlines [] = []"
  by (simp add: getlines_def)

end
