(* ===== verification/HttpTypes.thy ===== *)
theory HttpTypes
  imports CppStrings
begin

text \<open>
  The HTTP value types: \<^verbatim>\<open>Version\<close>, \<^verbatim>\<open>ContentType\<close>, \<^verbatim>\<open>StateCode\<close> and \<^verbatim>\<open>Body\<close>
  (include/net/http/http_util.h, src/net/http/http_util.cpp), \<^verbatim>\<open>HttpRequest\<close>
  (http_request.h, http_request.cpp) and \<^verbatim>\<open>HttpResponse\<close> (http_response.h, http_response.cpp).
  The integer a \<^verbatim>\<open>Version\<close>, \<^verbatim>\<open>ContentType\<close> or \<^verbatim>\<open>Method\<close> carries is only ever one of its
  enumerators, so these are datatypes; a status code is any integer. Header tables and parameter
  tables are maps; the order in which an \<^verbatim>\<open>unordered_map\<close> is iterated is a parameter.
  The locale \<open>http_message\<close> is what the parsers rely on, and both messages implement it.
\<close>

section \<open>Enumerations\<close>

datatype http_version = kUnknowVersion | kHttp10 | kHttp11 | kRtsp10

fun Version_toString :: "http_version \<Rightarrow> bytes" where
  "Version_toString kHttp10 = ''HTTP/1.0''"
| "Version_toString kHttp11 = ''HTTP/1.1''"
| "Version_toString kRtsp10 = ''RTSP/1.0''"
| "Version_toString kUnknowVersion = ''''"

definition Version_FromString :: "bytes \<Rightarrow> http_version" where
  "Version_FromString s =
     (if s = ''HTTP/1.0'' then kHttp10
      else if s = ''HTTP/1.1'' then kHttp11
      else if s = ''RTSP/1.0'' then kRtsp10
      else kUnknowVersion)"

datatype content_type =
  kUnknowType | kJsonType | kXmlType | kPlainType | kImageJpgType | kMultiForm | kOctetStream
| kHtml | kCss | kJavaScript

fun ContentType_toString :: "content_type \<Rightarrow> bytes" where
  "ContentType_toString kJsonType = ''application/json''"
| "ContentType_toString kXmlType = ''application/xml''"
| "ContentType_toString kPlainType = ''text/plain''"
| "ContentType_toString kImageJpgType = ''image/jpeg''"
| "ContentType_toString kMultiForm = ''multipart/form-data''"
| "ContentType_toString kOctetStream = ''application/octet-stream''"
| "ContentType_toString kHtml = ''text/html''"
| "ContentType_toString kCss = ''text/css''"
| "ContentType_toString kJavaScript = ''text/javascript''"
| "ContentType_toString kUnknowType = ''application/json''"

definition ContentType_FromString :: "bytes \<Rightarrow> content_type" where
  "ContentType_FromString s =
     (let tmp = List.map to_lower s in
      if search ''json'' tmp \<noteq> None then kJsonType
      else if search ''xml'' tmp \<noteq> None then kXmlType
      else if search ''plain'' tmp \<noteq> None then kPlainType
      else if search ''jpeg'' tmp \<noteq> None then kImageJpgType
      else if search ''multipart'' tmp \<noteq> None then kMultiForm
      else if search ''stream'' tmp \<noteq> None then kOctetStream
      else kUnknowType)"

datatype http_method = kInvaild | kGet | kPost | kHead | kPut | kDelete

fun Method_toString :: "http_method \<Rightarrow> bytes" where
  "Method_toString kGet = ''GET''"
| "Method_toString kPost = ''POST''"
| "Method_toString kHead = ''HEAD''"
| "Method_toString kPut = ''PUT''"
| "Method_toString kDelete = ''DELETE''"
| "Method_toString kInvaild = ''Invaild''"

definition Method_FromString :: "bytes \<Rightarrow> http_method" where
  "Method_FromString s =
     (if s = ''GET'' then kGet
      else if s = ''POST'' then kPost
      else if s = ''HEAD'' then kHead
      else if s = ''PUT'' then kPut
      else if s = ''DELETE'' then kDelete
      else kInvaild)"

section \<open>Status codes\<close>

text \<open>The static table \<^verbatim>\<open>s_m_codeMessageMap\<close>. \<^verbatim>\<open>message()\<close> reads it with \<^verbatim>\<open>operator[]\<close>, which
  inserts an empty message for a code that is not there, so the table is part of the state.\<close>

type_synonym code_table = "int \<rightharpoonup> bytes"

definition initial_codes :: code_table where
  "initial_codes = map_of
    [(0, ''''),
     (200, ''OK''),
     (204, ''No Content''),
     (301, ''Moved Permanently''),
     (302, ''Move temporarily''),
     (400, ''Bad Request''),
     (403, ''Forbidden''),
     (404, ''Not Found''),
     (405, ''Method Not Allowed''),
     (454, ''Session Not Found''),
     (455, ''Method Not Valid''),
     (500, ''Internal Server Error''),
     (503, ''Service Unavailable'')]"

definition StateCode_toString :: "int \<Rightarrow> bytes" where
  "StateCode_toString code = (if 100 \<le> code \<and> code < 600 then to_dec (nat code) else '''')"

definition StateCode_FromString :: "code_table \<Rightarrow> bytes \<Rightarrow> int" where
  "StateCode_FromString codes str =
     (let code = atoi str in case codes code of None \<Rightarrow> 0 | Some _ \<Rightarrow> code)"

definition StateCode_message :: "int \<Rightarrow> code_table \<Rightarrow> bytes \<times> code_table" where
  "StateCode_message code codes =
     (case codes code of Some m \<Rightarrow> (m, codes) | None \<Rightarrow> ('''', codes(code \<mapsto> '''')))"

section \<open>Bodies\<close>

record http_body =
  contentType :: content_type
  body_data :: bytes

definition new_body :: http_body where
  "new_body = \<lparr>contentType = kPlainType, body_data = []\<rparr>"

definition setContentType :: "content_type \<Rightarrow> http_body \<Rightarrow> http_body" where
  "setContentType t b = b\<lparr>contentType := t\<rparr>"

definition appendData :: "bytes \<Rightarrow> http_body \<Rightarrow> http_body" where
  "appendData d b = b\<lparr>body_data := body_data b @ d\<rparr>"

definition body_reset :: "http_body \<Rightarrow> http_body" where
  "body_reset b = b\<lparr>body_data := []\<rparr>"

definition body_toString :: "http_body \<Rightarrow> bytes" where
  "body_toString b = body_data b"

section \<open>Requests\<close>

type_synonym header_map = "bytes \<rightharpoonup> bytes"

text \<open>A lookup of \<^verbatim>\<open>getHeader\<close> and its kin: a missing key reads as the empty string.\<close>

definition lookup_or_empty :: "header_map \<Rightarrow> bytes \<Rightarrow> bytes" where
  "lookup_or_empty m k = (case m k of None \<Rightarrow> '''' | Some v \<Rightarrow> v)"

record http_request =
  req_method :: http_method
  req_path :: bytes
  req_query_params :: header_map
  req_route_params :: header_map
  req_version :: http_version
  req_headers :: header_map
  req_body :: http_body
  req_receive_time :: int

definition new_request :: http_request where
  "new_request = \<lparr>req_method = kInvaild, req_path = [], req_query_params = Map.empty,
     req_route_params = Map.empty, req_version = kUnknowVersion, req_headers = Map.empty,
     req_body = new_body, req_receive_time = 0\<rparr>"

definition getQureyParam :: "http_request \<Rightarrow> bytes \<Rightarrow> bytes" where
  "getQureyParam r k = lookup_or_empty (req_query_params r) k"

definition addQureyParam :: "bytes \<Rightarrow> bytes \<Rightarrow> http_request \<Rightarrow> http_request" where
  "addQureyParam k v r = r\<lparr>req_query_params := (req_query_params r)(k \<mapsto> v)\<rparr>"

definition getRouteParam :: "http_request \<Rightarrow> bytes \<Rightarrow> bytes" where
  "getRouteParam r k = lookup_or_empty (req_route_params r) k"

definition addRouteParam :: "bytes \<Rightarrow> bytes \<Rightarrow> http_request \<Rightarrow> http_request" where
  "addRouteParam k v r = r\<lparr>req_route_params := (req_route_params r)(k \<mapsto> v)\<rparr>"

definition req_addHeader :: "bytes \<Rightarrow> bytes \<Rightarrow> http_request \<Rightarrow> http_request" where
  "req_addHeader k v r = r\<lparr>req_headers := (req_headers r)(k \<mapsto> v)\<rparr>"

text \<open>\<^verbatim>\<open>addHeader(start, colon, end)\<close>, given the text before and behind the colon. The \<^verbatim>\<open>assert\<close> that
  the span is not empty holds because it contains the colon.\<close>

definition req_addHeaderSpan :: "bytes \<Rightarrow> bytes \<Rightarrow> http_request \<Rightarrow> bool \<times> http_request" where
  "req_addHeaderSpan before behind r =
     (let head = DelSpaceHelper before in
      if length head \<le> 0 then (False, r)
      else let val = DelSpaceHelper behind in
        if length val \<le> 0 then (False, r)
        else (True, r\<lparr>req_headers := (req_headers r)(head \<mapsto> val)\<rparr>))"

definition req_getHeader :: "http_request \<Rightarrow> bytes \<Rightarrow> bytes" where
  "req_getHeader r k = lookup_or_empty (req_headers r) k"

text \<open>Serialisation. \<open>iter\<close> enumerates the header table as its iterator does.\<close>

type_synonym header_iter = "header_map \<Rightarrow> (bytes \<times> bytes) list"

definition iter_ok :: "header_iter \<Rightarrow> header_map \<Rightarrow> bool" where
  "iter_ok iter m \<longleftrightarrow> distinct (map fst (iter m)) \<and> map_of (iter m) = m"

abbreviation CRLF :: bytes where "CRLF \<equiv> [CHR 0x0D, CHR 0x0A]"

definition header_line :: "bytes \<times> bytes \<Rightarrow> bytes" where
  "header_line kv = fst kv @ '':'' @ '' '' @ snd kv @ CRLF"

definition req_toString :: "header_iter \<Rightarrow> http_request \<Rightarrow> bytes \<times> http_request" where
  "req_toString iter r =
     (let line = Method_toString (req_method r) @ '' '' @ req_path r @ '' ''
                 @ Version_toString (req_version r) @ CRLF;
          h1 = (if length (body_data (req_body r)) \<noteq> 0
                then (req_headers r)(''Content-Length'' \<mapsto> to_dec (length (body_data (req_body r))))
                else req_headers r);
          h2 = (if contentType (req_body r) \<noteq> kUnknowType
                then h1(''Content-Type'' \<mapsto> ContentType_toString (contentType (req_body r)))
                else h1)
      in (line @ concat (map header_line (iter h2)) @ CRLF @ body_toString (req_body r),
          r\<lparr>req_headers := h2\<rparr>))"

section \<open>Responses\<close>

record http_response =
  resp_state_code :: int
  resp_version :: http_version
  resp_headers :: header_map
  resp_connection_closed :: bool
  resp_body :: http_body
  resp_receive_time :: int

definition new_response :: http_response where
  "new_response = \<lparr>resp_state_code = 0, resp_version = kUnknowVersion, resp_headers = Map.empty,
     resp_connection_closed = False, resp_body = new_body, resp_receive_time = 0\<rparr>"

definition resp_addHeader :: "bytes \<Rightarrow> bytes \<Rightarrow> http_response \<Rightarrow> http_response" where
  "resp_addHeader k v r = r\<lparr>resp_headers := (resp_headers r)(k \<mapsto> v)\<rparr>"

definition resp_addHeaderSpan :: "bytes \<Rightarrow> bytes \<Rightarrow> http_response \<Rightarrow> bool \<times> http_response" where
  "resp_addHeaderSpan before behind r =
     (let head = DelSpaceHelper before in
      if length head \<le> 0 then (False, r)
      else let val = DelSpaceHelper behind in
        if length val \<le> 0 then (False, r)
        else (True, r\<lparr>resp_headers := (resp_headers r)(head \<mapsto> val)\<rparr>))"

definition resp_getHeader :: "http_response \<Rightarrow> bytes \<Rightarrow> bytes" where
  "resp_getHeader r k = lookup_or_empty (resp_headers r) k"

definition resp_toString ::
  "header_iter \<Rightarrow> code_table \<Rightarrow> http_response \<Rightarrow> bytes \<times> http_response \<times> code_table" where
  "resp_toString iter codes r =
     (let (msg, codes') = StateCode_message (resp_state_code r) codes;
          line = Version_toString (resp_version r) @ '' '' @ StateCode_toString (resp_state_code r)
                 @ '' '' @ msg @ CRLF;
          h1 = (if resp_version r = kHttp11 \<and> \<not> resp_connection_closed r
                then (resp_headers r)(''Connection'' \<mapsto> ''keep-alive'', ''Keep-Alive'' \<mapsto> ''timeout=5, max=100'')
                else (resp_headers r)(''Connection'' \<mapsto> ''close''));
          t = contentType (resp_body r);
          h2 = (if t \<noteq> kUnknowType
                then h1(''Content-Type'' \<mapsto> ContentType_toString t @ ''; '' @ ''charset=utf-8''
                  @ (if t = kMultiForm then ''; '' @ ''boundary=----WebKitFormBoundaryNQJ0YrO2NeaUfM7n'' else ''''))
                else h1);
          h3 = (if length (body_data (resp_body r)) \<noteq> 0
                then h2(''Content-Length'' \<mapsto> to_dec (length (body_data (resp_body r))))
                else h2)
      in (line @ concat (map header_line (iter h3)) @ CRLF @ body_toString (resp_body r),
          r\<lparr>resp_headers := h3\<rparr>, codes'))"

section \<open>The contract of a message\<close>

text \<open>What a parser needs of the message it fills: headers that are stored trimmed and read back,
  a body that grows, and operations that do not disturb one another.\<close>

locale http_message =
  fixes get :: "'m \<Rightarrow> bytes \<Rightarrow> bytes"
    and add :: "bytes \<Rightarrow> bytes \<Rightarrow> 'm \<Rightarrow> bool \<times> 'm"
    and body :: "'m \<Rightarrow> bytes"
    and app :: "bytes \<Rightarrow> 'm \<Rightarrow> 'm"
    and set_type :: "content_type \<Rightarrow> 'm \<Rightarrow> 'm"
  assumes add_stored: "DelSpaceHelper k \<noteq> [] \<Longrightarrow> DelSpaceHelper v \<noteq> [] \<Longrightarrow>
      fst (add k v m) \<and> get (snd (add k v m)) = (get m)(DelSpaceHelper k := DelSpaceHelper v)"
    and add_refused: "DelSpaceHelper k = [] \<or> DelSpaceHelper v = [] \<Longrightarrow> add k v m = (False, m)"
    and body_add: "body (snd (add k v m)) = body m"
    and body_app: "body (app d m) = body m @ d"
    and get_app: "get (app d m) = get m"
    and body_set_type: "body (set_type t m) = body m"
    and get_set_type: "get (set_type t m) = get m"
begin

lemmas message_simps = body_add body_app get_app body_set_type get_set_type

lemma body_add_all: "body (fold (\<lambda>(k, v) m. snd (add k v m)) kvs m) = body m"
  by (induction kvs arbitrary: m) (auto simp: message_simps)

text \<open>Feeding trimmed header lines with distinct names leaves the table they spell out.\<close>

lemma get_add_all:
  assumes "\<forall>(k, v)\<in>set kvs. DelSpaceHelper k = k \<and> k \<noteq> [] \<and> DelSpaceHelper v \<noteq> []"
    and "distinct (map fst kvs)"
  shows "get (fold (\<lambda>(k, v) m. snd (add k v m)) kvs m) x =
    (case map_of kvs x of None \<Rightarrow> get m x | Some v \<Rightarrow> DelSpaceHelper v)"
  using assms
proof (induction kvs arbitrary: m)
  case Nil
  then show ?case by simp
next
  case (Cons kv kvs)
  obtain k v where kv: "kv = (k, v)" by (cases kv)
  have "get (snd (add k v m)) = (get m)(k := DelSpaceHelper v)"
    using Cons.prems kv add_stored [of k v m] by auto
  moreover have "map_of kvs k = None" using Cons.prems(2) kv by (simp add: map_of_eq_None_iff)
  ultimately show ?case using Cons kv by (auto split: option.splits)
qed

end

definition req_append_body :: "bytes \<Rightarrow> http_request \<Rightarrow> http_request" where
  "req_append_body d r = r\<lparr>req_body := appendData d (req_body r)\<rparr>"

definition resp_append_body :: "bytes \<Rightarrow> http_response \<Rightarrow> http_response" where
  "resp_append_body d r = r\<lparr>resp_body := appendData d (resp_body r)\<rparr>"

definition req_set_type :: "content_type \<Rightarrow> http_request \<Rightarrow> http_request" where
  "req_set_type t r = r\<lparr>req_body := setContentType t (req_body r)\<rparr>"

definition resp_set_type :: "content_type \<Rightarrow> http_response \<Rightarrow> http_response" where
  "resp_set_type t r = r\<lparr>resp_body := setContentType t (resp_body r)\<rparr>"

lemmas message_defs =
  req_addHeaderSpan_def resp_addHeaderSpan_def req_getHeader_def resp_getHeader_def
  req_append_body_def resp_append_body_def req_set_type_def resp_set_type_def
  appendData_def setContentType_def lookup_or_empty_def

interpretation reqm: http_message req_getHeader req_addHeaderSpan "\<lambda>r. body_data (req_body r)"
    req_append_body req_set_type
  by unfold_locales (auto simp: message_defs Let_def fun_eq_iff split: if_splits)

interpretation respm: http_message resp_getHeader resp_addHeaderSpan "\<lambda>r. body_data (resp_body r)"
    resp_append_body resp_set_type
  by unfold_locales (auto simp: message_defs Let_def fun_eq_iff split: if_splits)

section \<open>Facts\<close>

lemma Version_roundtrip: "Version_FromString (Version_toString v) = v"
  by (cases v) (simp_all add: Version_FromString_def)

lemma Method_roundtrip: "Method_FromString (Method_toString m) = m"
  by (cases m) (simp_all add: Method_FromString_def)

text \<open>Rendering a response with an unlisted status code changes the static code table, and
  with it what \<^verbatim>\<open>StateCode::FromString\<close> answers afterwards for the text of that code: unknown (0)
  before, the code itself after.\<close>

theorem rendering_registers_code:
  assumes "codes code = None" and "0 < code" and "code < 2 ^ 31" and "resp_state_code r = code"
  shows "StateCode_FromString codes (to_dec (nat code)) = 0
    \<and> StateCode_FromString (snd (snd (resp_toString iter codes r))) (to_dec (nat code)) = code"
proof -
  have "atoi (to_dec (nat code)) = code"
    using atoi_to_dec [of "nat code"] assms by simp
  with assms show ?thesis
    by (simp add: StateCode_FromString_def resp_toString_def StateCode_message_def Let_def)
qed

theorem rendering_registers_code_witness:
  "StateCode_FromString initial_codes (to_dec 206) = 0
    \<and> StateCode_FromString (snd (snd (resp_toString (\<lambda>_. []) initial_codes (new_response\<lparr>resp_state_code := 206\<rparr>))))
        (to_dec 206) = 206"
  using rendering_registers_code [of initial_codes 206 "new_response\<lparr>resp_state_code := 206\<rparr>" "\<lambda>_. []"]
  by (simp add: initial_codes_def)

text \<open>The Content-Type header of a rendered response is that of its body object: whatever a
  servlet stored with \<^verbatim>\<open>addHeader("Content-Type", v)\<close> is overwritten unless the body's type is
  unknown, and the body length is announced exactly when there is a body.\<close>

theorem rendered_headers_follow_body:
  assumes "contentType (resp_body r) \<noteq> kUnknowType" and "contentType (resp_body r) \<noteq> kMultiForm"
    and "resp_toString iter codes (resp_addHeader ''Content-Type'' v r) = (out, r', codes')"
  shows "resp_headers r' ''Content-Type'' = Some (ContentType_toString (contentType (resp_body r)) @ ''; charset=utf-8'')
    \<and> (body_data (resp_body r) \<noteq> [] \<longrightarrow>
        resp_headers r' ''Content-Length'' = Some (to_dec (length (body_data (resp_body r)))))
    \<and> resp_headers r' ''Connection'' =
        Some (if resp_version r = kHttp11 \<and> \<not> resp_connection_closed r then ''keep-alive'' else ''close'')"
  using assms by (auto simp: resp_toString_def resp_addHeader_def Let_def split: prod.splits)

theorem rendered_headers_follow_body_witness:
  "\<exists>out r' codes'. resp_toString (\<lambda>_. []) initial_codes (resp_addHeader ''Content-Type'' ''text/html'' new_response) = (out, r', codes')
    \<and> resp_headers r' ''Content-Type'' = Some ''text/plain; charset=utf-8''"
proof -
  obtain out r' codes' where run: "resp_toString (\<lambda>_. []) initial_codes
      (resp_addHeader ''Content-Type'' ''text/html'' new_response) = (out, r', codes')"
    using prod_cases3 by blast
  from rendered_headers_follow_body [OF _ _ run] run show ?thesis
    by (simp add: new_response_def new_body_def)
qed

end
