(* ===== verification/ByteBuffer.thy ===== *)
theory ByteBuffer
  imports Prelude
begin

text \<open>
  \<^verbatim>\<open>Buffer\<close> (include/net/buffer.h, src/net/buffer.cpp): one vector of bytes with a read and a
  write index. The definitions follow the class member by member; \<open>contents\<close> is what a reader
  of the buffer can still see, and the lemmas show that every operation acts on it as the
  corresponding operation of a byte queue does. The locale \<open>byte_queue\<close> states that contract for
  the clients (parsers, connections).
\<close>

section \<open>The class\<close>

record byte_buffer =
  vec :: bytes
  readIndex :: nat
  writeIndex :: nat

definition kCheapPrepend :: nat where "kCheapPrepend = 8"
definition kInitSize :: nat where "kInitSize = 1024"

definition mk_buffer :: "nat \<Rightarrow> byte_buffer" where
  "mk_buffer initSize =
     \<lparr>vec = replicate (kCheapPrepend + initSize) (CHR 0x00),
      readIndex = kCheapPrepend, writeIndex = kCheapPrepend\<rparr>"

definition readableBytes :: "byte_buffer \<Rightarrow> nat" where
  "readableBytes b = writeIndex b - readIndex b"

definition writableBytes :: "byte_buffer \<Rightarrow> nat" where
  "writableBytes b = length (vec b) - writeIndex b"

definition prependBytes :: "byte_buffer \<Rightarrow> nat" where
  "prependBytes b = readIndex b"

text \<open>The memory a pointer returned by \<^verbatim>\<open>peek()\<close> or \<^verbatim>\<open>beginWrite()\<close> may be used to access.\<close>

definition peek :: "byte_buffer \<Rightarrow> bytes" where
  "peek b = drop (readIndex b) (vec b)"

definition beginWrite :: "byte_buffer \<Rightarrow> bytes" where
  "beginWrite b = drop (writeIndex b) (vec b)"

definition resetAll :: "byte_buffer \<Rightarrow> byte_buffer" where
  "resetAll b = b\<lparr>readIndex := kCheapPrepend, writeIndex := kCheapPrepend\<rparr>"

definition reset :: "nat \<Rightarrow> byte_buffer \<Rightarrow> byte_buffer" where
  "reset len b = (if len < readableBytes b then b\<lparr>readIndex := readIndex b + len\<rparr> else resetAll b)"

text \<open>\<^verbatim>\<open>resetAsString(len)\<close> constructs the string from \<open>len\<close> bytes behind \<^verbatim>\<open>peek()\<close> without
  comparing \<open>len\<close> with \<^verbatim>\<open>readableBytes()\<close>; past the end of the vector the read is undefined.\<close>

definition resetAsString :: "nat \<Rightarrow> byte_buffer \<Rightarrow> cpp_error + (bytes \<times> byte_buffer)" where
  "resetAsString len b =
     (if len \<le> length (peek b) then Inr (take len (peek b), reset len b) else Inl OutOfBounds)"

definition resetAllAsString :: "byte_buffer \<Rightarrow> cpp_error + (bytes \<times> byte_buffer)" where
  "resetAllAsString b = resetAsString (readableBytes b) b"

definition resetAsData :: "nat \<Rightarrow> byte_buffer \<Rightarrow> bytes \<times> byte_buffer" where
  "resetAsData len b =
     (take (min len (readableBytes b)) (peek b), reset (min len (readableBytes b)) b)"

definition resetAllAsData :: "byte_buffer \<Rightarrow> bytes \<times> byte_buffer" where
  "resetAllAsData b = resetAsData (readableBytes b) b"

definition resetAsDataUint8 :: "nat \<Rightarrow> byte_buffer \<Rightarrow> uint8 list \<times> byte_buffer" where
  "resetAsDataUint8 len b =
     (map of_char (take (min len (readableBytes b)) (peek b)), reset (min len (readableBytes b)) b)"

definition resetAllAsDataUint8 :: "byte_buffer \<Rightarrow> uint8 list \<times> byte_buffer" where
  "resetAllAsDataUint8 b = resetAsDataUint8 (readableBytes b) b"

definition lookAsData :: "nat \<Rightarrow> byte_buffer \<Rightarrow> bytes" where
  "lookAsData len b = take (min (readableBytes b) len) (peek b)"

definition lookAllAsData :: "byte_buffer \<Rightarrow> bytes" where
  "lookAllAsData b = lookAsData (readableBytes b) b"

definition lookAsDataUint8 :: "nat \<Rightarrow> byte_buffer \<Rightarrow> uint8 list" where
  "lookAsDataUint8 len b = map of_char (take (min (readableBytes b) len) (peek b))"

definition lookAllAsDataUint8 :: "byte_buffer \<Rightarrow> uint8 list" where
  "lookAllAsDataUint8 b = lookAsDataUint8 (readableBytes b) b"

definition lookAsString :: "nat \<Rightarrow> byte_buffer \<Rightarrow> bytes" where
  "lookAsString len b = take (min len (readableBytes b)) (peek b)"

definition lookAllAsString :: "byte_buffer \<Rightarrow> bytes" where
  "lookAllAsString b = lookAsString (readableBytes b) b"

text \<open>\<^verbatim>\<open>makeSpace\<close> either grows the vector or moves the readable bytes to its front.\<close>

definition makeSpace :: "nat \<Rightarrow> byte_buffer \<Rightarrow> byte_buffer" where
  "makeSpace len b =
     (if writableBytes b + prependBytes b < len + kCheapPrepend
      then b\<lparr>vec := resize (CHR 0x00) (writeIndex b + len) (vec b)\<rparr>
      else let readable_len = readableBytes b in
        b\<lparr>vec := overwrite (vec b) kCheapPrepend (take (writeIndex b - readIndex b) (drop (readIndex b) (vec b))),
          readIndex := kCheapPrepend, writeIndex := kCheapPrepend + readable_len\<rparr>)"

definition ensureWritableBytes :: "nat \<Rightarrow> byte_buffer \<Rightarrow> byte_buffer" where
  "ensureWritableBytes len b = (if len > writableBytes b then makeSpace len b else b)"

definition buf_append :: "bytes \<Rightarrow> byte_buffer \<Rightarrow> byte_buffer" where
  "buf_append data b =
     (let b' = ensureWritableBytes (length data) b
      in b'\<lparr>vec := overwrite (vec b') (writeIndex b') data,
            writeIndex := writeIndex b' + length data\<rparr>)"

text \<open>
  The kernel's answer to \<^verbatim>\<open>readv\<close> and \<^verbatim>\<open>write\<close>: an errno, or the bytes placed into the
  segments (at most the capacity offered), or the count accepted (at most the bytes offered).
\<close>

datatype read_result = ReadErr int | ReadOk bytes
datatype write_result = WriteErr int | WriteOk nat

definition EAGAIN :: int where "EAGAIN = 11"
definition EWOULDBLOCK :: int where "EWOULDBLOCK = 11"

definition extraBufSize :: nat where "extraBufSize = 64 * 1024"

definition readv_capacity :: "byte_buffer \<Rightarrow> nat" where
  "readv_capacity b =
     (if writableBytes b < extraBufSize then writableBytes b + extraBufSize else writableBytes b)"

definition readFd :: "(nat \<Rightarrow> read_result) \<Rightarrow> byte_buffer \<Rightarrow> int \<times> int option \<times> byte_buffer" where
  "readFd readv b =
     (case readv (readv_capacity b) of
        ReadErr errno \<Rightarrow> (-1, Some errno, b)
      | ReadOk data \<Rightarrow>
          (let n = length data; writeable_len = writableBytes b in
           (int n, None,
            if n \<le> writeable_len
            then b\<lparr>vec := overwrite (vec b) (writeIndex b) data, writeIndex := writeIndex b + n\<rparr>
            else buf_append (drop writeable_len data)
                   (b\<lparr>vec := overwrite (vec b) (writeIndex b) (take writeable_len data),
                      writeIndex := length (vec b)\<rparr>))))"

definition writeFd :: "(bytes \<Rightarrow> write_result) \<Rightarrow> byte_buffer \<Rightarrow> int \<times> int option" where
  "writeFd write b =
     (case write (take (readableBytes b) (peek b)) of
        WriteErr errno \<Rightarrow> (-1, Some errno)
      | WriteOk n \<Rightarrow> (int n, None))"

section \<open>Invariant and abstraction\<close>

definition buf_inv :: "byte_buffer \<Rightarrow> bool" where
  "buf_inv b \<longleftrightarrow> kCheapPrepend \<le> readIndex b \<and> readIndex b \<le> writeIndex b \<and> writeIndex b \<le> length (vec b)"

definition contents :: "byte_buffer \<Rightarrow> bytes" where
  "contents b = take (writeIndex b - readIndex b) (drop (readIndex b) (vec b))"

lemma mk_buffer_inv [inv_pres, simp]: "buf_inv (mk_buffer n)"
  by (simp add: buf_inv_def mk_buffer_def)

lemma contents_mk_buffer [abs_simps, simp]: "contents (mk_buffer n) = []"
  by (simp add: contents_def mk_buffer_def)

lemma length_contents: "buf_inv b \<Longrightarrow> length (contents b) = readableBytes b"
  by (auto simp: buf_inv_def contents_def readableBytes_def)

lemma take_peek: "n \<le> readableBytes b \<Longrightarrow> take n (peek b) = take n (contents b)"
  by (simp add: contents_def peek_def readableBytes_def min_def)

lemma reset_inv [inv_pres]: "buf_inv b \<Longrightarrow> buf_inv (reset n b)"
  by (auto simp: buf_inv_def reset_def resetAll_def readableBytes_def)

lemma contents_reset [abs_simps]: "buf_inv b \<Longrightarrow> contents (reset n b) = drop n (contents b)"
  by (auto simp: buf_inv_def reset_def resetAll_def readableBytes_def contents_def drop_take
      add.commute diff_diff_add)

lemma makeSpace_inv [inv_pres]: "buf_inv b \<Longrightarrow> buf_inv (makeSpace n b)"
  by (auto simp: buf_inv_def makeSpace_def Let_def readableBytes_def)

lemma contents_makeSpace [abs_simps]: "buf_inv b \<Longrightarrow> contents (makeSpace n b) = contents b"
proof (cases "writableBytes b + prependBytes b < n + kCheapPrepend")
  case True
  moreover assume "buf_inv b"
  ultimately show ?thesis
    by (simp add: makeSpace_def contents_def buf_inv_def slice_resize)
next
  case False
  assume inv: "buf_inv b"
  let ?c = "take (writeIndex b - readIndex b) (drop (readIndex b) (vec b))"
  have "length ?c = writeIndex b - readIndex b" using inv by (auto simp: buf_inv_def)
  with slice_overwrite_at [of kCheapPrepend "vec b" ?c] inv False show ?thesis
    by (simp add: makeSpace_def contents_def readableBytes_def buf_inv_def)
qed

lemma makeSpace_room: "buf_inv b \<Longrightarrow> n \<le> writableBytes (makeSpace n b)"
  by (auto simp: makeSpace_def Let_def buf_inv_def writableBytes_def prependBytes_def readableBytes_def)

lemma ensureWritableBytes_inv [inv_pres]: "buf_inv b \<Longrightarrow> buf_inv (ensureWritableBytes n b)"
  by (simp add: ensureWritableBytes_def makeSpace_inv)

lemma contents_ensureWritableBytes [abs_simps]:
  "buf_inv b \<Longrightarrow> contents (ensureWritableBytes n b) = contents b"
  by (simp add: ensureWritableBytes_def contents_makeSpace)

lemma ensureWritableBytes_room: "buf_inv b \<Longrightarrow> n \<le> writableBytes (ensureWritableBytes n b)"
  by (simp add: ensureWritableBytes_def makeSpace_room)

text \<open>Writing into the room behind the write index, which both \<^verbatim>\<open>append\<close> and \<^verbatim>\<open>readFd\<close> do.\<close>

lemma write_room:
  assumes "buf_inv b" "length xs \<le> writableBytes b"
  shows "buf_inv (b\<lparr>vec := overwrite (vec b) (writeIndex b) xs, writeIndex := writeIndex b + length xs\<rparr>)"
    and "contents (b\<lparr>vec := overwrite (vec b) (writeIndex b) xs, writeIndex := writeIndex b + length xs\<rparr>)
      = contents b @ xs"
  using assms slice_overwrite_append [of "readIndex b" "writeIndex b" "vec b" xs]
  by (auto simp: buf_inv_def contents_def writableBytes_def)

lemma buf_append_inv [inv_pres]: "buf_inv b \<Longrightarrow> buf_inv (buf_append xs b)"
  using write_room [OF ensureWritableBytes_inv ensureWritableBytes_room]
  by (simp add: buf_append_def Let_def)

lemma contents_buf_append [abs_simps]:
  "buf_inv b \<Longrightarrow> contents (buf_append xs b) = contents b @ xs"
  using write_room [OF ensureWritableBytes_inv ensureWritableBytes_room]
  by (simp add: buf_append_def Let_def contents_ensureWritableBytes)

text \<open>Reading from a descriptor appends exactly what the kernel delivered, also when it spills into
  the 64K stack array, and reports the count; an error leaves the buffer alone.\<close>

lemma readFd_inv [inv_pres]:
  assumes "buf_inv b"
  shows "buf_inv (snd (snd (readFd readv b)))"
proof (cases "readv (readv_capacity b)")
  case (ReadErr e)
  with assms show ?thesis by (simp add: readFd_def)
next
  case (ReadOk data)
  note w = write_room [OF assms, of "take (writableBytes b) data"]
  have "writeIndex b + writableBytes b = length (vec b)"
    using assms by (auto simp: writableBytes_def buf_inv_def)
  with w ReadOk assms show ?thesis
    by (auto simp: readFd_def Let_def min_def intro!: buf_append_inv)
qed

lemma contents_readFd [abs_simps]:
  assumes "buf_inv b" and "readv (readv_capacity b) = ReadOk data"
  shows "contents (snd (snd (readFd readv b))) = contents b @ data"
proof (cases "length data \<le> writableBytes b")
  case True
  with assms write_room [OF assms(1), of data] show ?thesis by (simp add: readFd_def Let_def)
next
  case False
  note w = write_room [OF assms(1), of "take (writableBytes b) data"]
  have "writeIndex b + writableBytes b = length (vec b)"
    using assms(1) by (auto simp: writableBytes_def buf_inv_def)
  with w False assms show ?thesis
    by (simp add: readFd_def Let_def contents_buf_append min_def)
qed

lemma writeFd_offers_contents:
  "writeFd write b = (case write (contents b) of WriteErr e \<Rightarrow> (-1, Some e) | WriteOk n \<Rightarrow> (int n, None))"
  by (simp add: writeFd_def contents_def peek_def readableBytes_def)

lemma lookAsString_contents: "lookAsString len b = take len (contents b)"
  by (simp add: lookAsString_def contents_def peek_def readableBytes_def)

lemma lookAsData_contents: "lookAsData len b = take len (contents b)"
  by (simp add: lookAsData_def contents_def peek_def readableBytes_def min.commute)

lemma resetAsData_contents:
  assumes "buf_inv b"
  shows "fst (resetAsData len b) = take len (contents b)"
    and "contents (snd (resetAsData len b)) = drop len (contents b)"
  using assms length_contents [OF assms]
  by (simp_all add: resetAsData_def contents_reset take_peek min_def)

lemma resetAsString_contents:
  assumes "buf_inv b" and "len \<le> readableBytes b"
  shows "\<exists>b'. resetAsString len b = Inr (take len (contents b), b') \<and> contents b' = drop len (contents b)"
proof -
  have "len \<le> length (peek b)" using assms by (auto simp: buf_inv_def peek_def readableBytes_def)
  with assms show ?thesis by (simp add: resetAsString_def contents_reset take_peek)
qed

section \<open>The contract of the buffer\<close>

text \<open>
  What the connections and the parsers rely on: a queue of bytes that is pushed at one end and
  drained at the other. \<open>stream_step\<close> runs one client operation and records the bytes drained.
\<close>

datatype 'a stream_op = Push "'a list" | Drain nat

fun pushed :: "'a stream_op list \<Rightarrow> 'a list" where
  "pushed [] = []"
| "pushed (Push xs # ops) = xs @ pushed ops"
| "pushed (Drain n # ops) = pushed ops"

fun stream_step ::
  "('a list \<Rightarrow> 'b \<Rightarrow> 'b) \<Rightarrow> (nat \<Rightarrow> 'b \<Rightarrow> 'b) \<Rightarrow> ('b \<Rightarrow> 'a list) \<Rightarrow> 'a stream_op \<Rightarrow> 'a list \<times> 'b \<Rightarrow> 'a list \<times> 'b"
where
  "stream_step push drain cont (Push xs) (out, b) = (out, push xs b)"
| "stream_step push drain cont (Drain n) (out, b) = (out @ take n (cont b), drain n b)"

locale byte_queue =
  fixes inv :: "'b \<Rightarrow> bool"
    and cont :: "'b \<Rightarrow> 'a list"
    and push :: "'a list \<Rightarrow> 'b \<Rightarrow> 'b"
    and drain :: "nat \<Rightarrow> 'b \<Rightarrow> 'b"
  assumes inv_push: "inv b \<Longrightarrow> inv (push xs b)"
    and cont_push: "inv b \<Longrightarrow> cont (push xs b) = cont b @ xs"
    and inv_drain: "inv b \<Longrightarrow> inv (drain n b)"
    and cont_drain: "inv b \<Longrightarrow> cont (drain n b) = drop n (cont b)"
begin

lemmas laws = inv_push cont_push inv_drain cont_drain

lemma drain_all: "inv b \<Longrightarrow> length (cont b) \<le> n \<Longrightarrow> cont (drain n b) = []"
  by (simp add: cont_drain)

lemma stream_step_conserves:
  assumes "inv b" and "stream_step push drain cont op (out, b) = (out', b')"
  shows "inv b' \<and> out' @ cont b' = out @ cont b @ pushed [op]"
  using assms by (cases op) (auto simp: laws)

lemma pushed_Cons: "pushed (op # ops) = pushed [op] @ pushed ops"
  by (cases op) auto

lemma stream_conserves:
  "inv b \<Longrightarrow> fold (stream_step push drain cont) ops (out, b) = (out', b') \<Longrightarrow>
     inv b' \<and> out' @ cont b' = out @ cont b @ pushed ops"
proof (induction ops arbitrary: out b)
  case Nil
  then show ?case by simp
next
  case (Cons op ops)
  obtain out1 b1 where one: "stream_step push drain cont op (out, b) = (out1, b1)"
    by (cases "stream_step push drain cont op (out, b)")
  note step = stream_step_conserves [OF Cons.prems(1) one]
  with Cons.IH [of b1 out1] Cons.prems(2) one have "inv b'"
    and "out' @ cont b' = out1 @ cont b1 @ pushed ops" by auto
  moreover have "out1 @ cont b1 @ pushed ops = out @ cont b @ pushed (op # ops)"
    using step pushed_Cons [of op ops] by (metis append.assoc)
  ultimately show ?case by simp
qed

end

interpretation bq: byte_queue buf_inv contents buf_append reset
  by unfold_locales (auto simp: inv_pres abs_simps)

section \<open>Properties\<close>



text \<open>\<^verbatim>\<open>readFd\<close> appends to the readable bytes exactly what \<^verbatim>\<open>readv\<close> delivered, whether it
  fits behind the write index or spills into the stack array, returns the number of bytes and keeps
  the index invariant.\<close>

theorem readFd_appends_delivered:
  assumes "buf_inv b" and "readv (readv_capacity b) = ReadOk data"
  shows "\<exists>b'. readFd readv b = (int (length data), None, b') \<and> buf_inv b' \<and> contents b' = contents b @ data"
proof -
  have "fst (readFd readv b) = int (length data)" "fst (snd (readFd readv b)) = None"
    using assms(2) by (simp_all add: readFd_def Let_def)
  with readFd_inv [OF assms(1)] contents_readFd [of b readv data] assms show ?thesis
    by (metis prod.collapse)
qed

theorem readFd_appends_delivered_witness:
  "\<exists>b'. readFd (\<lambda>_. ReadOk ''hello'') (mk_buffer 2) = (5, None, b') \<and> buf_inv b' \<and> contents b' = ''hello''"
  using readFd_appends_delivered [of "mk_buffer 2" "\<lambda>_. ReadOk ''hello''" "''hello''"] by simp

text \<open>\<^verbatim>\<open>resetAsString\<close> has no bound check: asked for more than is readable but not more than the
  vector holds, it returns bytes behind the write index that were never appended, where
  \<^verbatim>\<open>lookAsString\<close> and \<^verbatim>\<open>resetAsData\<close> stop at the readable bytes.\<close>

theorem resetAsString_overreads:
  assumes "buf_inv b" and "readableBytes b < len" and "len \<le> length (vec b) - readIndex b"
  shows "\<exists>s b'. resetAsString len b = Inr (contents b @ s, b') \<and> length s = len - readableBytes b \<and> contents b' = []
    \<and> lookAsString len b = contents b \<and> fst (resetAsData len b) = contents b"
proof -
  have len: "length (contents b) = readableBytes b" by (rule length_contents [OF assms(1)])
  obtain k where k: "len = readableBytes b + k" using assms(2) less_imp_add_positive by blast
  then have "take len (peek b) = contents b @ take (len - readableBytes b) (drop (readableBytes b) (peek b))"
    by (simp add: take_add contents_def peek_def readableBytes_def)
  moreover have "length (take (len - readableBytes b) (drop (readableBytes b) (peek b))) = len - readableBytes b"
    using assms by (auto simp: peek_def)
  moreover have "contents (reset len b) = []"
    using assms len by (simp add: contents_reset)
  ultimately show ?thesis
    using assms len by (auto simp: resetAsString_def peek_def lookAsString_contents resetAsData_contents)
qed

theorem resetAsString_overreads_witness:
  "\<exists>s b'. resetAsString 4 (buf_append ''ab'' (mk_buffer 6)) = Inr (''ab'' @ s, b') \<and> length s = 2 \<and> contents b' = []"
proof -
  let ?b = "buf_append ''ab'' (mk_buffer 6)"
  have c: "contents ?b = ''ab''" "buf_inv ?b" by (simp_all add: abs_simps inv_pres)
  have r: "readableBytes ?b = 2" using length_contents [OF c(2)] c(1) by simp
  have v: "length (vec ?b) - readIndex ?b = 6"
    by (simp add: buf_append_def ensureWritableBytes_def mk_buffer_def writableBytes_def Let_def kCheapPrepend_def)
  show ?thesis using resetAsString_overreads [OF c(2), of 4] c r v by auto
qed

end
