(* ===== verification/HttpCtx.thy ===== *)
theory HttpCtx
  imports HttpTypes ByteBuffer
begin

text \<open>
  The data of \<^verbatim>\<open>HttpContext\<close> (include/net/http/http_context.h) and of the parser base class
  (http_parser.h): the state of the message parser, the request and the response being filled,
  and which of the two is filled.
\<close>

datatype parse_state = kExpectRequestLine | kExpectHeaders | kExpectBody | kGotAll

datatype parser_type = UnkownType | ReqType | RespType

record http_context =
  ctx_state :: parse_state
  ctx_request :: http_request
  ctx_response :: http_response

definition new_context :: http_context where
  "new_context = \<lparr>ctx_state = kExpectRequestLine, ctx_request = new_request, ctx_response = new_response\<rparr>"

definition gotAll :: "http_context \<Rightarrow> bool" where
  "gotAll c \<longleftrightarrow> ctx_state c = kGotAll"

definition ctx_routeParam :: "http_context \<Rightarrow> bytes \<Rightarrow> bytes" where
  "ctx_routeParam c key = getRouteParam (ctx_request c) key"

text \<open>Operations on the message the parser's type selects; the other types select none.\<close>

definition ctx_getHeader :: "parser_type \<Rightarrow> http_context \<Rightarrow> bytes \<Rightarrow> bytes" where
  "ctx_getHeader t c k =
     (case t of ReqType \<Rightarrow> req_getHeader (ctx_request c) k
              | RespType \<Rightarrow> resp_getHeader (ctx_response c) k
              | UnkownType \<Rightarrow> '''')"

definition ctx_addHeaderSpan :: "parser_type \<Rightarrow> bytes \<Rightarrow> bytes \<Rightarrow> http_context \<Rightarrow> http_context" where
  "ctx_addHeaderSpan t k v c =
     (case t of ReqType \<Rightarrow> c\<lparr>ctx_request := snd (req_addHeaderSpan k v (ctx_request c))\<rparr>
              | RespType \<Rightarrow> c\<lparr>ctx_response := snd (resp_addHeaderSpan k v (ctx_response c))\<rparr>
              | UnkownType \<Rightarrow> c)"

definition ctx_append_body :: "parser_type \<Rightarrow> bytes \<Rightarrow> http_context \<Rightarrow> http_context" where
  "ctx_append_body t d c =
     (case t of ReqType \<Rightarrow> c\<lparr>ctx_request := req_append_body d (ctx_request c)\<rparr>
              | RespType \<Rightarrow> c\<lparr>ctx_response := resp_append_body d (ctx_response c)\<rparr>
              | UnkownType \<Rightarrow> c)"

definition ctx_set_type :: "parser_type \<Rightarrow> content_type \<Rightarrow> http_context \<Rightarrow> http_context" where
  "ctx_set_type t ct c =
     (case t of ReqType \<Rightarrow> c\<lparr>ctx_request := req_set_type ct (ctx_request c)\<rparr>
              | RespType \<Rightarrow> c\<lparr>ctx_response := resp_set_type ct (ctx_response c)\<rparr>
              | UnkownType \<Rightarrow> c)"

lemmas ctx_defs = ctx_getHeader_def ctx_addHeaderSpan_def ctx_append_body_def ctx_set_type_def

lemma ctx_state_ops [frame_simps, simp]:
  "ctx_state (ctx_addHeaderSpan t k v c) = ctx_state c"
  "ctx_state (ctx_append_body t d c) = ctx_state c"
  "ctx_state (ctx_set_type t ct c) = ctx_state c"
  by (simp_all add: ctx_defs split: parser_type.splits)

end
