(* ===== verification/CustomParser.thy ===== *)
theory CustomParser
  imports HttpCtx
begin

text \<open>
  \<^verbatim>\<open>CustomHttpParser\<close> (src/net/http/http_custom_parser.cpp): the hand-written parser, a state machine
  over the readable bytes of a buffer. One iteration of its \<^verbatim>\<open>while\<close> loop is \<open>custom_step\<close>; the loop
  itself may run forever, so \<open>custom_loop\<close> takes fuel and the lemmas say when a number of iterations
  linear in the input is enough, and when no number is.
\<close>

section \<open>The parser\<close>

record custom_parser =
  cp_type :: parser_type
  cp_expected_body_len :: uint64
  cp_read_len :: uint64
  cp_ctx :: http_context

definition new_custom_parser :: "parser_type \<Rightarrow> custom_parser" where
  "new_custom_parser t =
     \<lparr>cp_type = t, cp_expected_body_len = 0, cp_read_len = 0, cp_ctx = new_context\<rparr>"

definition findCRLF :: "bytes \<Rightarrow> nat option" where
  "findCRLF s = search CRLF s"

definition find_char :: "char \<Rightarrow> bytes \<Rightarrow> nat" where
  "find_char c s = length (takeWhile (\<lambda>x. x \<noteq> c) s)"

definition processRequestLine ::
  "code_table \<Rightarrow> parser_type \<Rightarrow> bytes \<Rightarrow> http_context \<Rightarrow> bool \<times> http_context" where
  "processRequestLine codes t line c =
     (let space_pos = find_char (CHR '' '') line in
      if space_pos = length line then (False, c)
      else
        let first = DelSpaceHelper (take space_pos line);
            bad = (case t of ReqType \<Rightarrow> Method_FromString first = kInvaild
                           | RespType \<Rightarrow> Version_FromString first = kUnknowVersion
                           | UnkownType \<Rightarrow> False)
        in if bad then (False, c)
        else
          let c1 = (case t of
                ReqType \<Rightarrow> c\<lparr>ctx_request := (ctx_request c)\<lparr>req_method := Method_FromString first\<rparr>\<rparr>
              | RespType \<Rightarrow> c\<lparr>ctx_response := (ctx_response c)\<lparr>resp_version := Version_FromString first\<rparr>\<rparr>
              | UnkownType \<Rightarrow> c);
              rest = drop (space_pos + 1) line;
              space_pos2 = find_char (CHR '' '') rest;
              tmp_str = DelSpaceHelper (take space_pos2 rest)
          in case t of
               ReqType \<Rightarrow>
                 if space_pos2 = length rest then (False, c1)
                 else (True, c1\<lparr>ctx_request := (ctx_request c1)
                   \<lparr>req_path := tmp_str,
                    req_version := Version_FromString (DelSpaceHelper (drop (space_pos2 + 1) rest))\<rparr>\<rparr>)
             | RespType \<Rightarrow>
                 (True, c1\<lparr>ctx_response := (ctx_response c1)
                   \<lparr>resp_state_code := StateCode_FromString codes tmp_str\<rparr>\<rparr>)
             | UnkownType \<Rightarrow> (True, c1))"

text \<open>The outcome of one iteration: go round again, or leave the loop with the value of \<^verbatim>\<open>ok\<close>.\<close>

datatype 's loop_result = Continue 's | Stop bool 's

definition step_line ::
  "code_table \<Rightarrow> custom_parser \<times> byte_buffer \<Rightarrow> (custom_parser \<times> byte_buffer) loop_result" where
  "step_line codes s = (case s of (p, buf) \<Rightarrow>
     (case findCRLF (contents buf) of
        None \<Rightarrow> Stop True (p, buf)
      | Some crlf_pos \<Rightarrow>
          (case processRequestLine codes (cp_type p) (take crlf_pos (peek buf)) (cp_ctx p) of
             (ok, c) \<Rightarrow>
               if \<not> ok then Stop False (p\<lparr>cp_ctx := c\<rparr>, buf)
               else Continue (p\<lparr>cp_ctx := c\<lparr>ctx_state := kExpectHeaders\<rparr>\<rparr>, reset (crlf_pos + 2) buf))))"

text \<open>The blank line: the body length is \<^verbatim>\<open>atoi\<close> of the Content-Length header, stored in a
  \<^verbatim>\<open>size_t\<close>.\<close>

definition end_of_headers ::
  "custom_parser \<Rightarrow> byte_buffer \<Rightarrow> (custom_parser \<times> byte_buffer) loop_result" where
  "end_of_headers p buf =
     (let t = cp_type p; c = cp_ctx p;
          content_len_str = ctx_getHeader t c ''Content-Length'';
          len = word_of_int (atoi content_len_str) :: uint64;
          p1 = p\<lparr>cp_read_len := len, cp_expected_body_len := len\<rparr>
      in if len \<le> 0 \<or> content_len_str = []
         then Stop True (p1\<lparr>cp_ctx := c\<lparr>ctx_state := kGotAll\<rparr>\<rparr>, buf)
         else Continue (p1\<lparr>cp_ctx := (ctx_set_type t (ContentType_FromString (ctx_getHeader t c ''Content-Type'')) c)
                \<lparr>ctx_state := kExpectBody\<rparr>\<rparr>, buf))"

definition step_headers ::
  "custom_parser \<times> byte_buffer \<Rightarrow> (custom_parser \<times> byte_buffer) loop_result" where
  "step_headers s = (case s of (p, buf) \<Rightarrow>
     (case findCRLF (contents buf) of
        None \<Rightarrow> Stop True (p, buf)
      | Some crlf_pos \<Rightarrow>
          (let line = take crlf_pos (peek buf); colon = find_char (CHR '':'') line in
           if colon = crlf_pos then
             (if take 2 (peek buf) = CRLF then end_of_headers p (reset 2 buf)
              else Stop False (p, buf))
           else Continue
             (p\<lparr>cp_ctx := ctx_addHeaderSpan (cp_type p) (take colon line) (drop (colon + 1) line) (cp_ctx p)\<rparr>,
              reset (crlf_pos + 2) buf))))"

definition step_body ::
  "custom_parser \<times> byte_buffer \<Rightarrow> (custom_parser \<times> byte_buffer) loop_result" where
  "step_body s = (case s of (p, buf) \<Rightarrow>
     (let min_len = min (unat (cp_read_len p)) (readableBytes buf);
          p1 = p\<lparr>cp_read_len := cp_read_len p - of_nat min_len,
                 cp_ctx := ctx_append_body (cp_type p) (take min_len (peek buf)) (cp_ctx p)\<rparr>;
          buf1 = reset min_len buf
      in if cp_read_len p1 \<le> 0
         then Stop True (p1\<lparr>cp_expected_body_len := 0, cp_read_len := 0,
                            cp_ctx := (cp_ctx p1)\<lparr>ctx_state := kGotAll\<rparr>\<rparr>, buf1)
         else Continue (p1, buf1)))"

definition custom_step ::
  "code_table \<Rightarrow> custom_parser \<times> byte_buffer \<Rightarrow> (custom_parser \<times> byte_buffer) loop_result" where
  "custom_step codes s =
     (case ctx_state (cp_ctx (fst s)) of
        kExpectRequestLine \<Rightarrow> step_line codes s
      | kExpectHeaders \<Rightarrow> step_headers s
      | kExpectBody \<Rightarrow> step_body s
      | kGotAll \<Rightarrow> Continue s)"

fun custom_loop ::
  "code_table \<Rightarrow> nat \<Rightarrow> custom_parser \<times> byte_buffer \<Rightarrow> (bool \<times> custom_parser \<times> byte_buffer) option" where
  "custom_loop codes 0 s = None"
| "custom_loop codes (Suc fuel) s =
     (case custom_step codes s of Stop ok s' \<Rightarrow> Some (ok, s') | Continue s' \<Rightarrow> custom_loop codes fuel s')"

definition custom_parse ::
  "code_table \<Rightarrow> nat \<Rightarrow> custom_parser \<Rightarrow> byte_buffer \<Rightarrow> (bool \<times> custom_parser \<times> byte_buffer) option" where
  "custom_parse codes fuel p buf =
     (if readableBytes buf \<le> 0 then Some (False, p, buf) else custom_loop codes fuel (p, buf))"

definition custom_parse_string ::
  "code_table \<Rightarrow> nat \<Rightarrow> custom_parser \<Rightarrow> bytes \<Rightarrow> (bool \<times> custom_parser \<times> byte_buffer) option" where
  "custom_parse_string codes fuel p data =
     custom_parse codes fuel p (buf_append data (mk_buffer kInitSize))"

section \<open>Termination and divergence\<close>

lemma custom_loop_mono:
  "custom_loop codes n s = Some r \<Longrightarrow> n \<le> m \<Longrightarrow> custom_loop codes m s = Some r"
proof (induction n arbitrary: s m)
  case 0
  then show ?case by simp
next
  case (Suc n)
  then obtain k where "m = Suc k" by (metis Suc_le_D)
  with Suc show ?case by (auto split: loop_result.splits)
qed

text \<open>A body state that waits for more bytes than are readable.\<close>

definition starving :: "custom_parser \<times> byte_buffer \<Rightarrow> bool" where
  "starving s \<longleftrightarrow> ctx_state (cp_ctx (fst s)) = kExpectBody \<and> buf_inv (snd s)
     \<and> readableBytes (snd s) < unat (cp_read_len (fst s))"

lemma starving_step:
  assumes "starving s"
  shows "\<exists>s'. custom_step codes s = Continue s' \<and> starving s' \<and> contents (snd s') = []"
proof -
  obtain p buf where s: "s = (p, buf)" by (cases s)
  let ?r = "readableBytes buf"
  have inv: "buf_inv buf" and lt: "?r < unat (cp_read_len p)" and st: "ctx_state (cp_ctx p) = kExpectBody"
    using assms s by (auto simp: starving_def)
  have left: "unat (cp_read_len p - of_nat ?r) = unat (cp_read_len p) - ?r"
    using lt by (simp add: unat_minus_of_nat)
  then have pos: "cp_read_len p - of_nat ?r \<noteq> 0" using lt by auto
  have c: "contents (reset ?r buf) = []" using inv length_contents [OF inv] by (simp add: contents_reset)
  moreover have "readableBytes (reset ?r buf) = 0"
    using length_contents [OF reset_inv [OF inv], symmetric] c by simp
  ultimately show ?thesis
    using s st lt left pos inv
    by (simp add: custom_step_def step_body_def Let_def starving_def reset_inv)
qed

lemma starving_diverges: "starving s \<Longrightarrow> custom_loop codes n s = None"
proof (induction n arbitrary: s)
  case 0
  then show ?case by simp
next
  case (Suc n)
  then show ?case using starving_step [OF Suc.prems, of codes] by auto
qed

lemma gotAll_diverges: "ctx_state (cp_ctx (fst s)) = kGotAll \<Longrightarrow> custom_loop codes n s = None"
  by (induction n) (auto simp: custom_step_def)

lemma findCRLF_SomeD:
  assumes "findCRLF (contents b) = Some i" and "buf_inv b"
  shows "i + 2 \<le> readableBytes b" and "readableBytes (reset (i + 2) b) = readableBytes b - (i + 2)"
proof -
  show le: "i + 2 \<le> readableBytes b"
    using search_length [OF assms(1) [unfolded findCRLF_def]] length_contents [OF assms(2)] by simp
  show "readableBytes (reset (i + 2) b) = readableBytes b - (i + 2)"
    using assms(2) length_contents [OF assms(2)] length_contents [OF reset_inv [OF assms(2)], of "i + 2"]
    by (simp add: contents_reset)
qed

text \<open>Before the body every iteration that goes on has consumed a line; in the body one that goes on
  is starving.\<close>

lemma custom_step_progress:
  assumes "custom_step codes s = Continue s'" "buf_inv (snd s)"
    and "ctx_state (cp_ctx (fst s)) \<noteq> kGotAll" "\<not> starving s"
  shows "buf_inv (snd s') \<and> ctx_state (cp_ctx (fst s')) \<noteq> kGotAll \<and> readableBytes (snd s') < readableBytes (snd s)"
proof -
  obtain p buf where s: "s = (p, buf)" by (cases s)
  note crlf = findCRLF_SomeD [of buf]
  show ?thesis
  proof (cases "ctx_state (cp_ctx p)")
    case kExpectRequestLine
    with assms s crlf show ?thesis
      by (auto simp: custom_step_def step_line_def reset_inv split: option.splits prod.splits if_splits)
  next
    case kExpectHeaders
    show ?thesis
    proof (cases "findCRLF (contents buf)")
      case None
      with kExpectHeaders assms s show ?thesis by (simp add: custom_step_def step_headers_def)
    next
      case (Some i)
      have two: "readableBytes (reset 2 buf) < readableBytes buf"
        using assms(2) s crlf(1) [OF Some] length_contents [OF reset_inv, of buf 2] length_contents [of buf]
        by (simp add: contents_reset)
      from Some kExpectHeaders assms s crlf [OF Some] two show ?thesis
        by (auto simp: custom_step_def step_headers_def end_of_headers_def Let_def reset_inv split: if_splits)
    qed
  next
    case kExpectBody
    have "min (unat (cp_read_len p)) (readableBytes buf) = unat (cp_read_len p)"
      using assms s kExpectBody by (simp add: starving_def)
    with kExpectBody assms s show ?thesis
      by (simp add: custom_step_def step_body_def Let_def)
  next
    case kGotAll
    with assms s show ?thesis by simp
  qed
qed

definition custom_next :: "code_table \<Rightarrow> custom_parser \<times> byte_buffer \<Rightarrow> custom_parser \<times> byte_buffer \<Rightarrow> bool" where
  "custom_next codes s s' \<longleftrightarrow> custom_step codes s = Continue s'"

lemma custom_loop_decides:
  assumes "buf_inv (snd s)" and "ctx_state (cp_ctx (fst s)) \<noteq> kGotAll"
    and "readableBytes (snd s) < n" and "custom_loop codes n s = None"
  shows "\<exists>s'. (custom_next codes)\<^sup>*\<^sup>* s s' \<and> starving s'"
  using assms
proof (induction n arbitrary: s)
  case 0
  then show ?case by simp
next
  case (Suc n)
  show ?case
  proof (cases "starving s")
    case True
    then show ?thesis by blast
  next
    case False
    from Suc.prems(4) obtain t where t: "custom_step codes s = Continue t" "custom_loop codes n t = None"
      by (auto split: loop_result.splits)
    from custom_step_progress [OF t(1) Suc.prems(1,2) False] Suc.prems(3) Suc.IH [of t] t(2)
    obtain s' where "(custom_next codes)\<^sup>*\<^sup>* t s'" "starving s'" by auto
    moreover from t(1) have "custom_next codes s t" by (simp add: custom_next_def)
    ultimately show ?thesis by (blast intro: converse_rtranclp_into_rtranclp)
  qed
qed

lemma custom_loop_reach_None:
  "(custom_next codes)\<^sup>*\<^sup>* s s' \<Longrightarrow> \<forall>n. custom_loop codes n s' = None \<Longrightarrow> custom_loop codes n s = None"
proof (induction arbitrary: n rule: converse_rtranclp_induct)
  case base
  then show ?case by simp
next
  case (step s t)
  then show ?case by (cases n) (auto simp: custom_next_def)
qed

section \<open>Parsing a rendered request\<close>

text \<open>A header field that survives rendering: no CR, no colon in the name, no outer spaces.\<close>

definition field_ok :: "bytes \<Rightarrow> bytes \<Rightarrow> bool" where
  "field_ok k v \<longleftrightarrow>
     k \<noteq> [] \<and> CHR 0x0D \<notin> set k \<and> CHR '':'' \<notin> set k \<and> hd k \<noteq> CHR '' '' \<and> last k \<noteq> CHR '' ''
   \<and> v \<noteq> [] \<and> CHR 0x0D \<notin> set v \<and> hd v \<noteq> CHR '' '' \<and> last v \<noteq> CHR '' ''"

definition request_ok :: "http_request \<Rightarrow> bool" where
  "request_ok r \<longleftrightarrow>
     req_method r \<noteq> kInvaild
   \<and> CHR '' '' \<notin> set (req_path r) \<and> CHR 0x0D \<notin> set (req_path r)
   \<and> (\<forall>k v. req_headers r k = Some v \<longrightarrow> field_ok k v)
   \<and> length (body_data (req_body r)) < 2 ^ 31
   \<and> (body_data (req_body r) = [] \<longrightarrow> req_headers r ''Content-Length'' = None)"

lemma findCRLF_line: "CHR 0x0D \<notin> set l \<Longrightarrow> findCRLF (l @ CRLF @ s) = Some (length l)"
  unfolding findCRLF_def by (induction l) auto

lemma find_char_append: "c \<notin> set l \<Longrightarrow> find_char c (l @ c # s) = length l"
  by (induction l) (auto simp: find_char_def)

lemma contents_reset_line:
  assumes "buf_inv b" "contents b = l @ CRLF @ s"
  shows "contents (reset (length l + 2) b) = s"
proof -
  have "contents b = (l @ CRLF) @ s" "length l + 2 = length (l @ CRLF)" using assms(2) by auto
  with assms(1) show ?thesis by (metis contents_reset append_eq_conv_conj)
qed

lemma take_peek_prefix:
  assumes "buf_inv b" "contents b = l @ s"
  shows "take (length l) (peek b) = l"
proof -
  have "length l \<le> readableBytes b" using assms length_contents [OF assms(1)] by simp
  then show ?thesis using take_peek [of "length l" b] assms(2) by simp
qed

lemma nonblank_DelSpace:
  "CHR '' '' \<notin> set s \<Longrightarrow> DelSpaceHelper s = s"
  by (cases "s = []") (auto intro!: DelSpaceHelper_trimmed dest: hd_in_set last_in_set)

lemma method_no_space: "CHR '' '' \<notin> set (Method_toString m)" "CHR 0x0D \<notin> set (Method_toString m)"
  by (cases m; simp)+

lemma version_no_space: "CHR '' '' \<notin> set (Version_toString m)" "CHR 0x0D \<notin> set (Version_toString m)"
  by (cases m; simp)+

lemma processRequestLine_rendered:
  assumes "req_method r \<noteq> kInvaild" "CHR '' '' \<notin> set (req_path r)"
  shows "processRequestLine codes ReqType
      (Method_toString (req_method r) @ '' '' @ req_path r @ '' '' @ Version_toString (req_version r)) c
    = (True, c\<lparr>ctx_request := (ctx_request c)\<lparr>req_method := req_method r, req_path := req_path r,
         req_version := req_version r\<rparr>\<rparr>)"
  using assms method_no_space(1) [of "req_method r"] version_no_space(1) [of "req_version r"]
  by (simp add: processRequestLine_def Let_def find_char_append nonblank_DelSpace
      Method_roundtrip Version_roundtrip)

lemma step_line_rendered:
  assumes "buf_inv b" "contents b = Method_toString (req_method r) @ '' '' @ req_path r @ '' ''
      @ Version_toString (req_version r) @ CRLF @ s"
    and "cp_type p = ReqType" "ctx_state (cp_ctx p) = kExpectRequestLine"
    and "req_method r \<noteq> kInvaild" "CHR '' '' \<notin> set (req_path r)" "CHR 0x0D \<notin> set (req_path r)"
  shows "\<exists>b'. custom_step codes (p, b) = Continue
      (p\<lparr>cp_ctx := (cp_ctx p)\<lparr>ctx_request := (ctx_request (cp_ctx p))
          \<lparr>req_method := req_method r, req_path := req_path r, req_version := req_version r\<rparr>,
        ctx_state := kExpectHeaders\<rparr>\<rparr>, b') \<and> buf_inv b' \<and> contents b' = s"
proof -
  let ?l = "Method_toString (req_method r) @ '' '' @ req_path r @ '' '' @ Version_toString (req_version r)"
  have c: "contents b = ?l @ CRLF @ s" using assms(2) by simp
  have "CHR 0x0D \<notin> set ?l"
    using assms(7) method_no_space(2) [of "req_method r"] version_no_space(2) [of "req_version r"] by simp
  then have f: "findCRLF (contents b) = Some (length ?l)"
    unfolding c by (rule findCRLF_line)
  have t: "take (length ?l) (peek b) = ?l" by (rule take_peek_prefix [OF assms(1) c])
  have d: "contents (reset (length ?l + 2) b) = s" by (rule contents_reset_line [OF assms(1) c])
  show ?thesis
    using f t d assms processRequestLine_rendered [OF assms(5,6), of codes "cp_ctx p"]
    by (auto simp: custom_step_def step_line_def reset_inv simp del: append_assoc)
qed

lemma field_ok_DelSpace:
  assumes "field_ok k v"
  shows "DelSpaceHelper k = k" "DelSpaceHelper (CHR '' '' # v) = v" "k \<noteq> []" "v \<noteq> []"
  using assms by (auto simp: field_ok_def intro: DelSpaceHelper_trimmed DelSpaceHelper_lead)

lemma step_header_rendered:
  assumes "buf_inv b" "contents b = header_line (k, v) @ s" "field_ok k v"
    and "ctx_state (cp_ctx p) = kExpectHeaders"
  shows "\<exists>b'. custom_step codes (p, b) = Continue
      (p\<lparr>cp_ctx := ctx_addHeaderSpan (cp_type p) k (CHR '' '' # v) (cp_ctx p)\<rparr>, b')
      \<and> buf_inv b' \<and> contents b' = s"
proof -
  let ?l = "k @ '':'' @ '' '' @ v"
  have c: "contents b = ?l @ CRLF @ s" using assms(2) by (simp add: header_line_def)
  have nocr: "CHR 0x0D \<notin> set ?l" using assms(3) by (auto simp: field_ok_def)
  have f: "findCRLF (contents b) = Some (length ?l)"
    unfolding c using nocr by (rule findCRLF_line)
  have t: "take (length ?l) (peek b) = ?l" by (rule take_peek_prefix [OF assms(1) c])
  have col: "find_char (CHR '':'') ?l = length k"
    using assms(3) find_char_append [of "CHR '':''" k "'' '' @ v"] by (simp add: field_ok_def)
  have d: "contents (reset (length ?l + 2) b) = s" by (rule contents_reset_line [OF assms(1) c])
  show ?thesis
    using f t d col assms(1,4)
    by (auto simp: custom_step_def step_headers_def Let_def reset_inv simp del: append_assoc)
qed

lemma headers_rendered:
  assumes "buf_inv b" "contents b = concat (map header_line kvs) @ s"
    and "\<forall>(k, v)\<in>set kvs. field_ok k v" "ctx_state (cp_ctx p) = kExpectHeaders"
  shows "\<exists>b'. custom_loop codes (length kvs + n) (p, b) = custom_loop codes n
      (p\<lparr>cp_ctx := fold (\<lambda>(k, v). ctx_addHeaderSpan (cp_type p) k (CHR '' '' # v)) kvs (cp_ctx p)\<rparr>, b')
      \<and> buf_inv b' \<and> contents b' = s"
  using assms
proof (induction kvs arbitrary: p b)
  case Nil
  then show ?case by auto
next
  case (Cons kv kvs)
  obtain k v where kv: "kv = (k, v)" by (cases kv)
  from Cons.prems kv have ok: "field_ok k v" and c: "contents b = header_line (k, v) @ (concat (map header_line kvs) @ s)"
    by auto
  from step_header_rendered [OF Cons.prems(1) c ok Cons.prems(4), of codes] obtain b1 where
    one: "custom_step codes (p, b) = Continue
      (p\<lparr>cp_ctx := ctx_addHeaderSpan (cp_type p) k (CHR '' '' # v) (cp_ctx p)\<rparr>, b1)"
    and b1: "buf_inv b1" "contents b1 = concat (map header_line kvs) @ s" by auto
  from Cons.IH [OF b1, of "p\<lparr>cp_ctx := ctx_addHeaderSpan (cp_type p) k (CHR '' '' # v) (cp_ctx p)\<rparr>"]
    Cons.prems(3,4) kv one
  show ?case by auto
qed

lemma req_addHeaderSpan_frame [frame_simps, simp]:
  "req_method (snd (req_addHeaderSpan k v r)) = req_method r"
  "req_path (snd (req_addHeaderSpan k v r)) = req_path r"
  "req_version (snd (req_addHeaderSpan k v r)) = req_version r"
  by (simp_all add: req_addHeaderSpan_def Let_def)

lemma ctx_fold_headers:
  fixes kvs c
  defines "c' \<equiv> fold (\<lambda>(k, v). ctx_addHeaderSpan ReqType k (CHR '' '' # v)) kvs c"
  shows "ctx_state c' = ctx_state c"
    and "ctx_request c' = fold (\<lambda>(k, v) m. snd (req_addHeaderSpan k v m))
           (map (\<lambda>(k, v). (k, CHR '' '' # v)) kvs) (ctx_request c)"
    and "req_method (ctx_request c') = req_method (ctx_request c)"
    and "req_path (ctx_request c') = req_path (ctx_request c)"
    and "req_version (ctx_request c') = req_version (ctx_request c)"
  unfolding c'_def
  by (induction kvs arbitrary: c) (auto simp: ctx_addHeaderSpan_def)

text \<open>The headers the parser has collected read as the rendered table does.\<close>

lemma collected_headers:
  assumes "\<forall>(k, v)\<in>set kvs. field_ok k v" "distinct (map fst kvs)" "req_headers r0 = Map.empty"
  shows "req_getHeader (fold (\<lambda>(k, v) m. snd (req_addHeaderSpan k v m)) (map (\<lambda>(k, v). (k, CHR '' '' # v)) kvs) r0) x
    = lookup_or_empty (map_of kvs) x"
proof -
  let ?kvs = "map (\<lambda>(k, v). (k, CHR '' '' # v)) kvs"
  have ok: "\<forall>(k, v)\<in>set ?kvs. DelSpaceHelper k = k \<and> k \<noteq> [] \<and> DelSpaceHelper v \<noteq> []"
    using assms(1) field_ok_DelSpace by fastforce
  have dist: "distinct (map fst ?kvs)" using assms(2) by (simp add: case_prod_beta comp_def)
  have m: "map_of ?kvs x = map_option (Cons (CHR '' '')) (map_of kvs x)"
    by (induction kvs) auto
  have v: "DelSpaceHelper (CHR '' '' # v) = v" if "map_of kvs x = Some v" for v
    using assms(1) map_of_SomeD [OF that] field_ok_DelSpace(2) by fastforce
  have e: "req_getHeader r0 x = []" using assms(3) by (simp add: req_getHeader_def lookup_or_empty_def)
  show ?thesis
    unfolding reqm.get_add_all [OF ok dist] m e lookup_or_empty_def
    using v by (simp split: option.splits)
qed

lemma contents_drop_prefix:
  assumes "buf_inv b" "contents b = l @ s"
  shows "contents (reset (length l) b) = s"
  using assms by (simp add: contents_reset)

lemma atoi_Nil [simp]: "atoi [] = 0"
  by (simp add: atoi_def strtol_def)

text \<open>The blank line and the body, when the announced length is that of the data.\<close>

lemma blank_and_body_rendered:
  assumes "buf_inv b" "contents b = CRLF @ d @ s" "cp_type p = ReqType"
    and "ctx_state (cp_ctx p) = kExpectHeaders" "length d < 2 ^ 31"
    and "req_getHeader (ctx_request (cp_ctx p)) ''Content-Length'' = (if d = [] then [] else to_dec (length d))"
  shows "\<exists>p' b'. custom_loop codes 2 (p, b) = Some (True, p', b') \<and> gotAll (cp_ctx p') \<and> contents b' = s
    \<and> buf_inv b' \<and> (\<exists>ct. ctx_request (cp_ctx p') =
         (ctx_request (cp_ctx p))\<lparr>req_body := (req_body (ctx_request (cp_ctx p)))
           \<lparr>contentType := ct, body_data := body_data (req_body (ctx_request (cp_ctx p))) @ d\<rparr>\<rparr>)"
proof -
  have f: "findCRLF (contents b) = Some 0" using assms(2) by (simp add: findCRLF_def)
  have c0: "find_char (CHR '':'') [] = 0" by (simp add: find_char_def)
  have t: "take 2 (peek b) = CRLF" using take_peek_prefix [OF assms(1,2)] by (simp add: numeral_2_eq_2)
  have b1: "buf_inv (reset 2 b)" "contents (reset 2 b) = d @ s"
    using assms(1,2) by (simp_all add: reset_inv contents_reset)
  have len: "unat (of_nat (length d) :: uint64) = length d"
    using assms(5) by (intro unat_of_nat_small) simp
  have hdr: "custom_step codes (p, b) = end_of_headers p (reset 2 b)"
    using f c0 t assms(4) by (simp add: custom_step_def step_headers_def Let_def)
  show ?thesis
  proof (cases "d = []")
    case True
    then have "custom_loop codes 2 (p, b) =
        Some (True, p\<lparr>cp_read_len := 0, cp_expected_body_len := 0, cp_ctx := (cp_ctx p)\<lparr>ctx_state := kGotAll\<rparr>\<rparr>, reset 2 b)"
      using hdr assms(3,6) by (simp add: numeral_2_eq_2 end_of_headers_def ctx_getHeader_def Let_def)
    moreover have "\<exists>ct. r = r\<lparr>req_body := (req_body r)\<lparr>contentType := ct, body_data := body_data (req_body r)\<rparr>\<rparr>"
      for r :: http_request
      by (rule exI [of _ "contentType (req_body r)"]) simp
    ultimately show ?thesis using True b1 by (simp add: gotAll_def)
  next
    case False
    let ?p1 = "p\<lparr>cp_read_len := of_nat (length d), cp_expected_body_len := of_nat (length d),
        cp_ctx := (ctx_set_type ReqType (ContentType_FromString (req_getHeader (ctx_request (cp_ctx p)) ''Content-Type'')) (cp_ctx p))
           \<lparr>ctx_state := kExpectBody\<rparr>\<rparr>"
    have nz: "(of_nat (length d) :: uint64) \<noteq> 0" using len False by (metis length_0_conv unsigned_0)
    have "end_of_headers p (reset 2 b) = Continue (?p1, reset 2 b)"
      using nz False assms(3,5,6) by (simp add: end_of_headers_def ctx_getHeader_def Let_def atoi_to_dec)
    moreover have "readableBytes (reset 2 b) = length d + length s"
      using length_contents [OF b1(1)] b1(2) by simp
    moreover have "take (length d) (peek (reset 2 b)) = d" by (rule take_peek_prefix [OF b1])
    moreover have "contents (reset (length d) (reset 2 b)) = s" by (rule contents_drop_prefix [OF b1])
    ultimately show ?thesis using hdr len assms(3) b1
      by (auto simp: numeral_2_eq_2 custom_step_def step_body_def Let_def gotAll_def reset_inv
          ctx_append_body_def ctx_set_type_def req_append_body_def req_set_type_def appendData_def setContentType_def)
  qed
qed

lemma to_dec_field: "hd (to_dec n) \<noteq> CHR '' ''" "last (to_dec n) \<noteq> CHR '' ''" "CHR 0x0D \<notin> set (to_dec n)"
  using to_dec_digits [of n] is_digit_not_special hd_in_set [OF to_dec_nonempty [of n]] last_in_set [OF to_dec_nonempty [of n]]
  by metis+

lemma content_type_field:
  "ContentType_toString t \<noteq> []" "CHR 0x0D \<notin> set (ContentType_toString t)"
  "hd (ContentType_toString t) \<noteq> CHR '' ''" "last (ContentType_toString t) \<noteq> CHR '' ''"
  by (cases t; simp)+

lemma rendered_fields_ok:
  assumes "request_ok r" and "req_headers (snd (req_toString iter r)) k = Some v"
  shows "field_ok k v"
proof -
  have "field_ok ''Content-Length'' (to_dec n)" for n
    by (simp add: field_ok_def to_dec_field)
  moreover have "field_ok ''Content-Type'' (ContentType_toString t)" for t
    by (simp add: field_ok_def content_type_field)
  ultimately show ?thesis using assms
    by (auto simp: req_toString_def request_ok_def Let_def split: if_splits)
qed

text \<open>C7. What the serialiser writes, the hand-written parser reads: for a well-formed request \<open>r\<close>
  and any bytes \<open>s\<close> behind it (a pipelined next request), parsing the rendered text returns after
  at most (number of headers + 3) iterations with the same method, path, version, headers and body,
  and leaves exactly \<open>s\<close> in the buffer.\<close>

theorem custom_parse_rendered_request:
  assumes "request_ok r" and "iter_ok iter (req_headers (snd (req_toString iter r)))"
    and "buf_inv b" and "contents b = fst (req_toString iter r) @ s"
  shows "\<exists>p' b'. custom_parse codes (length (iter (req_headers (snd (req_toString iter r)))) + 3) (new_custom_parser ReqType) b
        = Some (True, p', b')
      \<and> gotAll (cp_ctx p') \<and> contents b' = s
      \<and> req_method (ctx_request (cp_ctx p')) = req_method r
      \<and> req_path (ctx_request (cp_ctx p')) = req_path r
      \<and> req_version (ctx_request (cp_ctx p')) = req_version r
      \<and> (\<forall>x. req_getHeader (ctx_request (cp_ctx p')) x = req_getHeader (snd (req_toString iter r)) x)
      \<and> body_data (req_body (ctx_request (cp_ctx p'))) = body_data (req_body r)"
proof -
  let ?h = "req_headers (snd (req_toString iter r))" and ?d = "body_data (req_body r)"
  let ?kvs = "iter ?h" and ?p0 = "new_custom_parser ReqType"
  have kvs: "distinct (map fst ?kvs)" "map_of ?kvs = ?h" using assms(2) by (auto simp: iter_ok_def)
  have ok: "\<forall>(k, v)\<in>set ?kvs. field_ok k v"
  proof (clarify)
    fix k v assume "(k, v) \<in> set ?kvs"
    with kvs have "?h k = Some v" by (metis map_of_is_SomeI)
    then show "field_ok k v" by (rule rendered_fields_ok [OF assms(1)])
  qed
  have cont: "contents b = Method_toString (req_method r) @ '' '' @ req_path r @ '' '' @ Version_toString (req_version r)
      @ CRLF @ (concat (map header_line ?kvs) @ CRLF @ ?d @ s)"
    using assms(4) by (simp add: req_toString_def Let_def body_toString_def)
  have r: "req_method r \<noteq> kInvaild" "CHR '' '' \<notin> set (req_path r)" "CHR 0x0D \<notin> set (req_path r)"
      "length ?d < 2 ^ 31"
    using assms(1) by (auto simp: request_ok_def)
  obtain p1 b1 where s1: "custom_step codes (?p0, b) = Continue (p1, b1)" "buf_inv b1"
      "contents b1 = concat (map header_line ?kvs) @ CRLF @ ?d @ s"
      and p1: "p1 = ?p0\<lparr>cp_ctx := (cp_ctx ?p0)\<lparr>ctx_request := (ctx_request (cp_ctx ?p0))
          \<lparr>req_method := req_method r, req_path := req_path r, req_version := req_version r\<rparr>,
        ctx_state := kExpectHeaders\<rparr>\<rparr>"
    using step_line_rendered [OF assms(3) cont _ _ r(1-3), of ?p0 codes]
    by (auto simp: new_custom_parser_def new_context_def)
  let ?c2 = "fold (\<lambda>(k, v). ctx_addHeaderSpan ReqType k (CHR '' '' # v)) ?kvs (cp_ctx p1)"
  have t1: "cp_type p1 = ReqType" "ctx_state (cp_ctx p1) = kExpectHeaders"
    and e1: "req_headers (ctx_request (cp_ctx p1)) = Map.empty" "body_data (req_body (ctx_request (cp_ctx p1))) = []"
    using p1 by (simp_all add: new_custom_parser_def new_context_def new_request_def new_body_def)
  obtain b2 where s2: "custom_loop codes (length ?kvs + 2) (p1, b1) = custom_loop codes 2 (p1\<lparr>cp_ctx := ?c2\<rparr>, b2)"
      "buf_inv b2" "contents b2 = CRLF @ ?d @ s"
    using headers_rendered [OF s1(2,3) ok t1(2), of codes 2] t1(1) by auto
  note c2 = ctx_fold_headers [where kvs = ?kvs and c = "cp_ctx p1"]
  have get: "req_getHeader (ctx_request ?c2) x = req_getHeader (snd (req_toString iter r)) x" for x
    unfolding c2(2) collected_headers [OF ok kvs(1) e1(1)] kvs(2) by (simp add: req_getHeader_def)
  have body2: "body_data (req_body (ctx_request ?c2)) = []"
    unfolding c2(2) using reqm.body_add_all e1(2) by simp
  have "req_getHeader (ctx_request ?c2) ''Content-Length'' = (if ?d = [] then [] else to_dec (length ?d))"
    unfolding get using assms(1)
    by (simp add: req_getHeader_def req_toString_def request_ok_def lookup_or_empty_def Let_def)
  then obtain p' b' where fin: "custom_loop codes 2 (p1\<lparr>cp_ctx := ?c2\<rparr>, b2) = Some (True, p', b')"
      "gotAll (cp_ctx p')" "contents b' = s"
      and req: "\<exists>ct. ctx_request (cp_ctx p') = (ctx_request ?c2)\<lparr>req_body := (req_body (ctx_request ?c2))
           \<lparr>contentType := ct, body_data := body_data (req_body (ctx_request ?c2)) @ ?d\<rparr>\<rparr>"
    using blank_and_body_rendered [OF s2(2,3), of "p1\<lparr>cp_ctx := ?c2\<rparr>" codes] t1 c2(1) r(4) by auto
  have "readableBytes b > 0"
    using length_contents [OF assms(3), symmetric] cont by simp
  then have "custom_parse codes (length ?kvs + 3) ?p0 b = Some (True, p', b')"
    using s1(1) s2(1) fin(1) by (simp add: custom_parse_def numeral_3_eq_3 numeral_2_eq_2)
  moreover have "req_getHeader (ctx_request (cp_ctx p')) x = req_getHeader (snd (req_toString iter r)) x" for x
    using req get [of x] by (auto simp: req_getHeader_def)
  ultimately show ?thesis
    using fin req c2(3-5) body2 p1 by auto
qed

definition sample_request :: http_request where
  "sample_request = new_request\<lparr>req_method := kPost, req_path := ''/a/b'', req_version := kHttp11,
     req_body := \<lparr>contentType = kUnknowType, body_data = ''hi''\<rparr>\<rparr>"

lemma to_dec_2: "to_dec 2 = ''2''"
  by code_simp

lemma sample_request_ok:
  "request_ok sample_request"
  "iter_ok (\<lambda>_. [(''Content-Length'', ''2'')]) (req_headers (snd (req_toString (\<lambda>_. [(''Content-Length'', ''2'')]) sample_request)))"
  by (auto simp: request_ok_def sample_request_def new_request_def iter_ok_def req_toString_def to_dec_2 [unfolded numeral_2_eq_2] Let_def)

theorem custom_parse_rendered_request_witness:
  "\<exists>p' b'. custom_parse initial_codes 4 (new_custom_parser ReqType)
       (buf_append (fst (req_toString (\<lambda>_. [(''Content-Length'', ''2'')]) sample_request) @ ''GET'') (mk_buffer 8)) = Some (True, p', b')
     \<and> contents b' = ''GET'' \<and> req_path (ctx_request (cp_ctx p')) = ''/a/b''"
  using custom_parse_rendered_request [OF sample_request_ok,
      where b = "buf_append (fst (req_toString (\<lambda>_. [(''Content-Length'', ''2'')]) sample_request) @ ''GET'') (mk_buffer 8)"
        and s = "''GET''" and codes = initial_codes]
  by (auto simp: inv_pres abs_simps sample_request_def)

section \<open>When the parser returns\<close>



text \<open>\<^verbatim>\<open>parse\<close> does not return on a partial body, nor when it is called again with readable bytes
  after the message is complete.\<close>

theorem custom_parse_spins:
  assumes "buf_inv b" and "0 < readableBytes b"
    and "ctx_state (cp_ctx p) = kGotAll
      \<or> (ctx_state (cp_ctx p) = kExpectBody \<and> readableBytes b < unat (cp_read_len p))"
  shows "custom_parse codes n p b = None"
  using assms gotAll_diverges [of "(p, b)"] starving_diverges [of "(p, b)"]
  by (auto simp: custom_parse_def starving_def)

theorem custom_parse_spins_witness:
  "custom_parse initial_codes 1000 ((new_custom_parser ReqType)
     \<lparr>cp_read_len := 10, cp_ctx := new_context\<lparr>ctx_state := kExpectBody\<rparr>\<rparr>) (buf_append ''half'' (mk_buffer 8)) = None"
proof -
  let ?b = "buf_append ''half'' (mk_buffer 8)"
  have i: "buf_inv ?b" by (simp add: inv_pres)
  have r: "readableBytes ?b = 4" using length_contents [OF i, symmetric] by (simp add: abs_simps)
  show ?thesis by (rule custom_parse_spins [OF i]) (simp_all add: r)
qed

end
