(* ===== verification/Router.thy ===== *)
theory Router
  imports HttpCtx
begin

text \<open>
  Route matchers (include/net/http/http_router.h, src/net/http/http_router.cpp):
  \<^verbatim>\<open>ExactRouterMatcher\<close>, \<^verbatim>\<open>GlobRouterMatcher\<close> and \<^verbatim>\<open>RegexRouterMatcher\<close>, with the translation
  of a parameterised pattern into a regular expression. Of \<^verbatim>\<open>std::regex\<close> the ECMAScript syntax
  that \<^verbatim>\<open>BuildTargetPattern\<close> emits is modelled: the two anchors, escaped and plain literals, and
  the group \<^verbatim>\<open>([^/]+)\<close>, matched greedily with backtracking; any other text is not parsed.
  \<^verbatim>\<open>fnmatch\<close> is a parameter. The locale \<open>route_matcher\<close> is what the dispatcher relies on.
\<close>

section \<open>From patterns to regular expressions\<close>

definition IsRegexSpecialChar :: "char \<Rightarrow> bool" where
  "IsRegexSpecialChar ch \<longleftrightarrow> ch \<in> set (CHR 0x5C # ''^$.|?*+()[]{}'')"

definition group_text :: bytes where
  "group_text = ''([^/]+)''"

text \<open>The loop of \<^verbatim>\<open>BuildTargetPattern\<close> over the rest of the pattern: the emitted text and the
  parameter names. The name behind a colon reaches to the next slash.\<close>

function build_target :: "bytes \<Rightarrow> bytes \<times> bytes list" where
  "build_target [] = ([], [])"
| "build_target (c # cs) =
     (let name = takeWhile (\<lambda>x. x \<noteq> CHR ''/'') cs in
      if c = CHR '':'' \<and> name \<noteq> []
      then (let (t, ns) = build_target (drop (length name) cs) in (group_text @ t, name # ns))
      else (let (t, ns) = build_target cs in
             ((if IsRegexSpecialChar c then [CHR 0x5C] else []) @ [c] @ t, ns)))"
  by pat_completeness auto
termination by (relation "measure length") auto

definition BuildTargetPattern :: "bytes \<Rightarrow> bytes \<times> bytes list" where
  "BuildTargetPattern pattern = (let (t, ns) = build_target pattern in (''^'' @ t @ ''$'', ns))"

section \<open>Regular expressions\<close>

datatype regex_node = RBegin | REnd | RLit char | RGroup

text \<open>The constructor of \<^verbatim>\<open>std::regex\<close> on that syntax; \<^const>\<open>None\<close> stands for any text outside it.\<close>

fun parse_regex :: "bytes \<Rightarrow> regex_node list option" where
  "parse_regex [] = Some []"
| "parse_regex (c # cs) =
     (if c = CHR ''('' then
        (if prefix (tl group_text) cs
         then map_option ((#) RGroup) (parse_regex (drop (length (tl group_text)) cs)) else None)
      else if c = CHR 0x5C then
        (case cs of [] \<Rightarrow> None
         | d # ds \<Rightarrow> if IsRegexSpecialChar d then map_option ((#) (RLit d)) (parse_regex ds) else None)
      else if c = CHR ''^'' then map_option ((#) RBegin) (parse_regex cs)
      else if c = CHR ''$'' then map_option ((#) REnd) (parse_regex cs)
      else if IsRegexSpecialChar c then None
      else map_option ((#) (RLit c)) (parse_regex cs))"

text \<open>The greedy choice: the longest repetition first, then shorter ones down to one.\<close>

fun longest_first :: "nat \<Rightarrow> (nat \<Rightarrow> 'a option) \<Rightarrow> 'a option" where
  "longest_first 0 f = None"
| "longest_first (Suc n) f = (case f (Suc n) of Some y \<Rightarrow> Some y | None \<Rightarrow> longest_first n f)"

text \<open>\<^verbatim>\<open>std::regex_match\<close>: the whole text must be consumed; the captured groups are returned.\<close>

primrec regex_match :: "regex_node list \<Rightarrow> bool \<Rightarrow> bytes \<Rightarrow> bytes list option" where
  "regex_match [] at_begin s = (if s = [] then Some [] else None)"
| "regex_match (node # r) at_begin s =
     (case node of
        RBegin \<Rightarrow> if at_begin then regex_match r at_begin s else None
      | REnd \<Rightarrow> if s = [] then regex_match r at_begin s else None
      | RLit c \<Rightarrow> (case s of [] \<Rightarrow> None | x # xs \<Rightarrow> if x = c then regex_match r False xs else None)
      | RGroup \<Rightarrow> longest_first (length (takeWhile (\<lambda>x. x \<noteq> CHR ''/'') s))
          (\<lambda>k. map_option ((#) (take k s)) (regex_match r False (drop k s))))"

section \<open>Matchers\<close>

datatype matcher =
    ExactRouterMatcher bytes
  | GlobRouterMatcher bytes
  | RegexRouterMatcher bytes (target_regex: "regex_node list") (param_names: "bytes list")

text \<open>The constructor of \<^verbatim>\<open>RegexRouterMatcher\<close>; \<^const>\<open>None\<close> is the exception of \<^verbatim>\<open>std::regex\<close>.\<close>

definition new_regex_matcher :: "bytes \<Rightarrow> matcher option" where
  "new_regex_matcher pattern =
     (let (t, ns) = BuildTargetPattern pattern
      in map_option (\<lambda>r. RegexRouterMatcher pattern r ns) (parse_regex t))"

text \<open>\<^verbatim>\<open>c_str()\<close> handed to a C function ends at the first null byte.\<close>

definition c_str :: "bytes \<Rightarrow> bytes" where
  "c_str s = takeWhile (\<lambda>c. c \<noteq> CHR 0x00) s"

fun MatchPath :: "(bytes \<Rightarrow> bytes \<Rightarrow> bool) \<Rightarrow> matcher \<Rightarrow> bytes \<Rightarrow> bool" where
  "MatchPath fnmatch (ExactRouterMatcher p) path = (p = path)"
| "MatchPath fnmatch (GlobRouterMatcher p) path = fnmatch (c_str p) (c_str path)"
| "MatchPath fnmatch (RegexRouterMatcher p r ns) path = (regex_match r True path \<noteq> None)"

text \<open>The loop over the parameter names stops when the captures run out.\<close>

definition add_params :: "bytes list \<Rightarrow> bytes list \<Rightarrow> http_request \<Rightarrow> http_request" where
  "add_params names vals req = fold (\<lambda>(n, v). addRouteParam n v) (zip names vals) req"

fun Match :: "(bytes \<Rightarrow> bytes \<Rightarrow> bool) \<Rightarrow> matcher \<Rightarrow> http_context \<Rightarrow> bool \<times> http_context" where
  "Match fnmatch (RegexRouterMatcher p r ns) ctx =
     (case regex_match r True (req_path (ctx_request ctx)) of
        None \<Rightarrow> (False, ctx)
      | Some vals \<Rightarrow> (True, ctx\<lparr>ctx_request := add_params ns vals (ctx_request ctx)\<rparr>))"
| "Match fnmatch m ctx = (MatchPath fnmatch m (req_path (ctx_request ctx)), ctx)"

section \<open>The contract of a matcher\<close>

text \<open>\<^verbatim>\<open>MatchPath\<close> decides, \<^verbatim>\<open>Match\<close> agrees with it, and touches nothing of the context but the route
  parameters of the request; a refused request is left as it was.\<close>

locale route_matcher =
  fixes decide :: "'m \<Rightarrow> bytes \<Rightarrow> bool"
    and apply_match :: "'m \<Rightarrow> http_context \<Rightarrow> bool \<times> http_context"
  assumes agrees: "fst (apply_match m ctx) = decide m (req_path (ctx_request ctx))"
    and refused: "\<not> decide m (req_path (ctx_request ctx)) \<Longrightarrow> snd (apply_match m ctx) = ctx"
    and only_params: "\<exists>ps. snd (apply_match m ctx) =
        ctx\<lparr>ctx_request := (ctx_request ctx)\<lparr>req_route_params := ps\<rparr>\<rparr>"
begin

lemma match_frame:
  "ctx_state (snd (apply_match m ctx)) = ctx_state ctx"
  "ctx_response (snd (apply_match m ctx)) = ctx_response ctx"
  "req_method (ctx_request (snd (apply_match m ctx))) = req_method (ctx_request ctx)"
  "req_path (ctx_request (snd (apply_match m ctx))) = req_path (ctx_request ctx)"
  "req_headers (ctx_request (snd (apply_match m ctx))) = req_headers (ctx_request ctx)"
  "req_body (ctx_request (snd (apply_match m ctx))) = req_body (ctx_request ctx)"
  "req_version (ctx_request (snd (apply_match m ctx))) = req_version (ctx_request ctx)"
  "req_query_params (ctx_request (snd (apply_match m ctx))) = req_query_params (ctx_request ctx)"
  using only_params [of m ctx] by auto

text \<open>Asking again after a match gives the same decision.\<close>

lemma decide_stable:
  "decide m' (req_path (ctx_request (snd (apply_match m ctx)))) = decide m' (req_path (ctx_request ctx))"
  by (simp add: match_frame)

end

lemma add_params_only: "\<exists>ps. add_params ns vs r = r\<lparr>req_route_params := ps\<rparr>"
proof (induction "zip ns vs" arbitrary: ns vs r)
  case Nil
  then show ?case by (metis add_params_def fold_simps(1) http_request.surjective http_request.update_convs(4) id_apply)
next
  case (Cons nv rest)
  then obtain n ns' v vs' where s: "ns = n # ns'" "vs = v # vs'" "rest = zip ns' vs'" "nv = (n, v)"
    by (cases ns; cases vs) auto
  from Cons.hyps(1) [OF s(3)] obtain ps where
    "add_params ns' vs' (addRouteParam n v r) = (addRouteParam n v r)\<lparr>req_route_params := ps\<rparr>" by blast
  with s show ?case by (auto simp: add_params_def addRouteParam_def)
qed

interpretation rm: route_matcher "MatchPath fnm" "Match fnm" for fnm
proof
  fix m ctx
  show "fst (Match fnm m ctx) = MatchPath fnm m (req_path (ctx_request ctx))"
    by (cases m) (auto split: option.splits)
  show "\<not> MatchPath fnm m (req_path (ctx_request ctx)) \<Longrightarrow> snd (Match fnm m ctx) = ctx"
    by (cases m) (auto split: option.splits)
  have id: "\<exists>ps. ctx = ctx\<lparr>ctx_request := (ctx_request ctx)\<lparr>req_route_params := ps\<rparr>\<rparr>"
    by (rule exI [of _ "req_route_params (ctx_request ctx)"]) simp
  show "\<exists>ps. snd (Match fnm m ctx) = ctx\<lparr>ctx_request := (ctx_request ctx)\<lparr>req_route_params := ps\<rparr>\<rparr>"
  proof (cases m)
    case (RegexRouterMatcher p r ns)
    show ?thesis
    proof (cases "regex_match r True (req_path (ctx_request ctx))")
      case None
      with RegexRouterMatcher id show ?thesis by simp
    next
      case (Some vs)
      obtain ps where "add_params ns vs (ctx_request ctx) = (ctx_request ctx)\<lparr>req_route_params := ps\<rparr>"
        using add_params_only by blast
      with RegexRouterMatcher Some show ?thesis by auto
    qed
  qed (use id in simp_all)
qed

section \<open>What a pattern means\<close>

text \<open>A pattern read as literal characters and parameters; a path is an instance of it when the
  parameters are replaced by non-empty texts without a slash.\<close>

datatype part = Lit char | Par bytes

function pattern_parts :: "bytes \<Rightarrow> part list" where
  "pattern_parts [] = []"
| "pattern_parts (c # cs) =
     (if c = CHR '':'' \<and> cs \<noteq> [] \<and> hd cs \<noteq> CHR ''/''
      then Par (takeWhile (\<lambda>x. x \<noteq> CHR ''/'') cs) # pattern_parts (dropWhile (\<lambda>x. x \<noteq> CHR ''/'') cs)
      else Lit c # pattern_parts cs)"
  by pat_completeness auto
termination by (relation "measure length") (auto simp: le_imp_less_Suc length_dropWhile_le)

fun names_of :: "part list \<Rightarrow> bytes list" where
  "names_of [] = []"
| "names_of (Lit c # ps) = names_of ps"
| "names_of (Par n # ps) = n # names_of ps"

fun fill :: "part list \<Rightarrow> bytes list \<Rightarrow> bytes option" where
  "fill [] [] = Some []"
| "fill (Lit c # ps) vs = map_option ((#) c) (fill ps vs)"
| "fill (Par n # ps) (v # vs) = map_option ((@) v) (fill ps vs)"
| "fill _ _ = None"

definition segment :: "bytes \<Rightarrow> bool" where
  "segment v \<longleftrightarrow> v \<noteq> [] \<and> CHR ''/'' \<notin> set v"

fun node_of :: "part \<Rightarrow> regex_node" where
  "node_of (Lit c) = RLit c"
| "node_of (Par n) = RGroup"

lemma name_empty_iff: "takeWhile (\<lambda>x. x \<noteq> c) cs \<noteq> [] \<longleftrightarrow> cs \<noteq> [] \<and> hd cs \<noteq> c"
  by (cases cs) auto

lemma drop_takeWhile_length: "drop (length (takeWhile P xs)) xs = dropWhile P xs"
  by (metis dropWhile_eq_drop)

lemma special_paren: "IsRegexSpecialChar (CHR ''('')" "IsRegexSpecialChar (CHR 0x5C)"
    "IsRegexSpecialChar (CHR ''^'')" "IsRegexSpecialChar (CHR ''$'')"
  by (simp_all add: IsRegexSpecialChar_def)

lemma parse_literal:
  "parse_regex ((if IsRegexSpecialChar c then [CHR 0x5C] else []) @ [c] @ t) = map_option ((#) (RLit c)) (parse_regex t)"
proof (cases "IsRegexSpecialChar c")
  case True
  then show ?thesis by simp
next
  case False
  with special_paren have "c \<noteq> CHR ''(''" "c \<noteq> CHR 0x5C" "c \<noteq> CHR ''^''" "c \<noteq> CHR ''$''" by auto
  with False show ?thesis by simp
qed

lemma parse_group: "parse_regex (group_text @ t) = map_option ((#) RGroup) (parse_regex t)"
  by (simp add: group_text_def)

lemma names_build: "snd (build_target p) = names_of (pattern_parts p)"
  by (induction p rule: build_target.induct)
    (auto simp: name_empty_iff drop_takeWhile_length Let_def split: prod.splits)

lemma parse_build:
  "parse_regex (fst (build_target p) @ ''$'') = Some (map node_of (pattern_parts p) @ [REnd])"
proof (induction p rule: build_target.induct)
  case 1
  then show ?case by simp
next
  case (2 c cs)
  let ?n = "takeWhile (\<lambda>x. x \<noteq> CHR ''/'') cs"
  show ?case
  proof (cases "c = CHR '':'' \<and> ?n \<noteq> []")
    case True
    obtain t ns where t: "build_target (drop (length ?n) cs) = (t, ns)" by fastforce
    with True have "fst (build_target (c # cs)) = group_text @ t" by (simp add: Let_def)
    with 2(1) [OF refl True] t True show ?thesis
      by (simp add: name_empty_iff drop_takeWhile_length parse_group)
  next
    case False
    have "fst (build_target (c # cs)) @ ''$''
        = (if IsRegexSpecialChar c then [CHR 0x5C] else []) @ [c] @ (fst (build_target cs) @ ''$'')"
      using False by (auto simp: Let_def split: prod.splits)
    with 2(2) [OF refl False] False show ?thesis
      by (simp only: parse_literal) (auto simp: name_empty_iff)
  qed
qed

text \<open>Behind a parameter stands a slash or the end, so only the longest repetition can succeed.\<close>

fun separated :: "part list \<Rightarrow> bool" where
  "separated [] \<longleftrightarrow> True"
| "separated (Lit c # ps) \<longleftrightarrow> separated ps"
| "separated (Par n # ps) \<longleftrightarrow> (ps = [] \<or> hd ps = Lit (CHR ''/'')) \<and> separated ps"

lemma separated_parts: "separated (pattern_parts p)"
proof (induction p rule: pattern_parts.induct)
  case (2 c cs)
  show ?case
  proof (cases "c = CHR '':'' \<and> cs \<noteq> [] \<and> hd cs \<noteq> CHR ''/''")
    case True
    let ?d = "dropWhile (\<lambda>x. x \<noteq> CHR ''/'') cs"
    have "pattern_parts ?d = [] \<or> hd (pattern_parts ?d) = Lit (CHR ''/'')"
    proof (cases ?d)
      case (Cons x t)
      with hd_dropWhile [of "\<lambda>x. x \<noteq> CHR ''/''" cs] have "x = CHR ''/''" by simp
      then show ?thesis unfolding Cons by simp
    next
      case Nil
      show ?thesis unfolding Nil by simp
    qed
    with 2(1) [OF True] True show ?thesis by simp
  qed (use 2 in auto)
qed simp

lemma longest_first_top:
  "(\<And>k. k < n \<Longrightarrow> f k = None) \<Longrightarrow> longest_first n f = (if n = 0 then None else f n)"
proof -
  have none: "(\<And>k. k \<le> n \<Longrightarrow> f k = None) \<Longrightarrow> longest_first n f = None" for n
    by (induction n) auto
  show "(\<And>k. k < n \<Longrightarrow> f k = None) \<Longrightarrow> longest_first n f = (if n = 0 then None else f n)"
    using none by (cases n) (auto split: option.splits)
qed

lemma match_needs_slash:
  assumes "ps = [] \<or> hd ps = Lit (CHR ''/'')" and "s \<noteq> []" "hd s \<noteq> CHR ''/''"
  shows "regex_match (map node_of ps @ [REnd]) b s = None"
  using assms by (cases ps; cases s) auto

lemma takeWhile_split:
  "P c \<longleftrightarrow> False \<Longrightarrow> \<forall>x\<in>set v. P x \<Longrightarrow> (r = [] \<or> hd r = c) \<Longrightarrow> takeWhile P (v @ r) = v"
  by (cases r) (auto simp: takeWhile_append)

lemma fill_hd: "fill ps vs = Some s \<Longrightarrow> ps = [] \<or> hd ps = Lit c \<Longrightarrow> s = [] \<or> hd s = c"
  by (cases "(ps, vs)" rule: fill.cases) auto

lemma match_fill:
  "separated ps \<Longrightarrow> regex_match (map node_of ps @ [REnd]) b s = Some vs
     \<longleftrightarrow> fill ps vs = Some s \<and> list_all segment vs"
proof (induction ps arbitrary: b s vs rule: separated.induct)
  case 1
  show ?case by (cases vs) auto
next
  case (2 c ps)
  then show ?case by (cases s) (auto split: if_splits)
next
  case (3 n ps)
  let ?v = "takeWhile (\<lambda>x. x \<noteq> CHR ''/'') s"
  let ?f = "\<lambda>k. map_option ((#) (take k s)) (regex_match (map node_of ps @ [REnd]) False (drop k s))"
  have short: "?f k = None" if "k < length ?v" for k
  proof -
    have l: "k < length s" using that length_takeWhile_le less_le_trans by blast
    have "?v ! k \<noteq> CHR ''/''" using set_takeWhileD [OF nth_mem [OF that]] by blast
    then have "hd (drop k s) \<noteq> CHR ''/''" using takeWhile_nth [OF that] l by (simp add: hd_drop_conv_nth)
    moreover have "drop k s \<noteq> []" using l by simp
    ultimately show ?thesis using 3(2) match_needs_slash [of ps "drop k s"] by simp
  qed
  have m: "regex_match (map node_of (Par n # ps) @ [REnd]) b s = (if ?v = [] then None else ?f (length ?v))"
    using longest_first_top [of "length ?v" ?f, OF short] by simp
  show ?case
  proof
    assume "regex_match (map node_of (Par n # ps) @ [REnd]) b s = Some vs"
    with m have f: "?v \<noteq> []" "?f (length ?v) = Some vs" by (simp_all split: if_splits)
    have "take (length ?v) s = ?v" by (rule takeWhile_eq_take [symmetric])
    with f obtain vs' where v: "?v \<noteq> []" "vs = ?v # vs'"
      "regex_match (map node_of ps @ [REnd]) False (drop (length ?v) s) = Some vs'" by auto
    with 3 have "fill ps vs' = Some (drop (length ?v) s)" "list_all segment vs'" by auto
    moreover have "segment ?v" using v(1) by (auto simp: segment_def dest: set_takeWhileD)
    moreover have "?v @ drop (length ?v) s = s" by (metis append_take_drop_id takeWhile_eq_take)
    ultimately show "fill (Par n # ps) vs = Some s \<and> list_all segment vs" using v(2) by simp
  next
    assume a: "fill (Par n # ps) vs = Some s \<and> list_all segment vs"
    then obtain v vs' r where v: "vs = v # vs'" "fill ps vs' = Some r" "s = v @ r" "segment v"
      "list_all segment vs'" by (cases vs) auto
    have "r = [] \<or> hd r = CHR ''/''" using 3(2) fill_hd [OF v(2)] by auto
    with v have tv: "?v = v" by (auto simp: segment_def intro!: takeWhile_split)
    with v have "regex_match (map node_of ps @ [REnd]) False (drop (length ?v) s) = Some vs'"
      using 3 by simp
    with m v tv show "regex_match (map node_of (Par n # ps) @ [REnd]) b s = Some vs"
      by (simp add: segment_def)
  qed
qed

lemma fill_length: "fill ps vs = Some s \<Longrightarrow> length vs = length (names_of ps)"
  by (induction ps vs arbitrary: s rule: fill.induct) auto

lemma regex_match_bol: "regex_match (RBegin # r) True s = regex_match r True s"
  by simp

lemma new_regex_matcher_eq: "new_regex_matcher p =
    Some (RegexRouterMatcher p (RBegin # map node_of (pattern_parts p) @ [REnd]) (names_of (pattern_parts p)))"
proof -
  obtain t ns where t: "build_target p = (t, ns)" by fastforce
  with parse_build [of p] names_build [of p]
  have "parse_regex (''^'' @ t @ ''$'') = Some (RBegin # map node_of (pattern_parts p) @ [REnd])"
    and "ns = names_of (pattern_parts p)" by (simp_all)
  with t show ?thesis by (simp add: new_regex_matcher_def BuildTargetPattern_def)
qed

lemma MatchPath_regex:
  assumes "new_regex_matcher p = Some m"
  shows "MatchPath fnm m path \<longleftrightarrow> (\<exists>vs. fill (pattern_parts p) vs = Some path \<and> list_all segment vs)"
  using assms match_fill [OF separated_parts, of p True path]
  by (auto simp: new_regex_matcher_eq simp del: map_append)

text \<open>Adding parameters under distinct names.\<close>

lemma add_params_Cons:
  "add_params (n # ns) (v # vs) r = add_params ns vs (addRouteParam n v r)"
  by (simp add: add_params_def)

lemma add_params_other:
  "k \<notin> set ns \<Longrightarrow> req_route_params (add_params ns vs r) k = req_route_params r k"
proof (induction ns arbitrary: vs r)
  case (Cons n ns)
  then show ?case by (cases vs) (auto simp: add_params_Cons addRouteParam_def add_params_def)
qed (simp add: add_params_def)

lemma add_params_values:
  "distinct ns \<Longrightarrow> length vs = length ns \<Longrightarrow> map (getRouteParam (add_params ns vs r)) ns = vs"
proof (induction ns arbitrary: vs r)
  case (Cons n ns)
  then obtain v vs' where v: "vs = v # vs'" by (cases vs) auto
  with Cons have "map (getRouteParam (add_params ns vs' (addRouteParam n v r))) ns = vs'" by simp
  moreover have "getRouteParam (add_params ns vs' (addRouteParam n v r)) n = v"
    using Cons.prems(1) add_params_other [of n ns vs' "addRouteParam n v r"]
    by (simp add: getRouteParam_def lookup_or_empty_def addRouteParam_def)
  ultimately show ?case using v by (simp add: add_params_Cons)
qed simp

section \<open>Properties\<close>

text \<open>C31. Every pattern is translated to a regular expression that \<^verbatim>\<open>std::regex\<close> accepts, and matching
  a path against it finds the captures \<open>vs\<close> exactly when the path is the pattern with its
  parameters replaced, in order, by the non-empty slash-free texts \<open>vs\<close>: every other character of
  the pattern, regular-expression metacharacters included, matches only itself.\<close>

theorem regex_route_correct:
  "\<exists>r. new_regex_matcher p = Some (RegexRouterMatcher p r (names_of (pattern_parts p)))
     \<and> (\<forall>path vs. regex_match r True path = Some vs
          \<longleftrightarrow> fill (pattern_parts p) vs = Some path \<and> list_all segment vs)"
  by (rule exI [of _ "RBegin # map node_of (pattern_parts p) @ [REnd]"])
    (auto simp: new_regex_matcher_eq regex_match_bol match_fill [OF separated_parts] simp del: regex_match.simps)

text \<open>A successful \<^verbatim>\<open>Match\<close> of a parameterised route leaves the request with the i-th captured text
  under the i-th parameter name, all other route parameters and all other parts of the context
  as they were.\<close>

theorem regex_Match_sets_params:
  assumes "new_regex_matcher p = Some m" and "distinct (names_of (pattern_parts p))"
    and "fill (pattern_parts p) vs = Some (req_path (ctx_request ctx))" and "list_all segment vs"
  shows "fst (Match fnm m ctx)
    \<and> map (ctx_routeParam (snd (Match fnm m ctx))) (names_of (pattern_parts p)) = vs
    \<and> (k \<notin> set (names_of (pattern_parts p)) \<longrightarrow>
         ctx_routeParam (snd (Match fnm m ctx)) k = ctx_routeParam ctx k)
    \<and> (\<exists>ps. snd (Match fnm m ctx) = ctx\<lparr>ctx_request := (ctx_request ctx)\<lparr>req_route_params := ps\<rparr>\<rparr>)"
proof -
  let ?r = "RBegin # map node_of (pattern_parts p) @ [REnd]"
  let ?ns = "names_of (pattern_parts p)"
  from assms have m: "m = RegexRouterMatcher p ?r ?ns" by (simp add: new_regex_matcher_eq)
  have "regex_match ?r True (req_path (ctx_request ctx)) = Some vs"
    using assms match_fill [OF separated_parts] by (simp only: regex_match_bol)
  then have M: "Match fnm m ctx = (True, ctx\<lparr>ctx_request := add_params ?ns vs (ctx_request ctx)\<rparr>)"
    unfolding m by (simp del: regex_match.simps)
  have "map (getRouteParam (add_params ?ns vs (ctx_request ctx))) ?ns = vs"
    using assms fill_length by (intro add_params_values) auto
  moreover have "getRouteParam (add_params ?ns vs (ctx_request ctx)) k = getRouteParam (ctx_request ctx) k"
    if "k \<notin> set ?ns" using add_params_other [OF that] by (simp add: getRouteParam_def lookup_or_empty_def)
  ultimately show ?thesis using M rm.only_params [of fnm m ctx]
    by (simp add: ctx_routeParam_def cong: map_cong)
qed

definition sample_ctx :: "http_method \<Rightarrow> bytes \<Rightarrow> http_context" where
  "sample_ctx meth path = new_context\<lparr>ctx_request := new_request\<lparr>req_method := meth, req_path := path\<rparr>\<rparr>"

lemma sample_ctx_simps [simp]:
  "req_path (ctx_request (sample_ctx meth path)) = path"
  "req_method (ctx_request (sample_ctx meth path)) = meth"
  by (simp_all add: sample_ctx_def)

theorem regex_Match_sets_params_witness:
  "\<exists>m. new_regex_matcher ''/u/:id/f.:ext'' = Some m
    \<and> ctx_routeParam (snd (Match (\<lambda>_ _. False) m (sample_ctx kGet ''/u/7/f.txt''))) ''ext'' = ''txt''"
proof -
  obtain m where m: "new_regex_matcher ''/u/:id/f.:ext'' = Some m" by (simp add: new_regex_matcher_eq)
  have parts: "names_of (pattern_parts ''/u/:id/f.:ext'') = [''id'', ''ext'']" by code_simp
  have "fill (pattern_parts ''/u/:id/f.:ext'') [''7'', ''txt''] = Some ''/u/7/f.txt''" by code_simp
  moreover have "list_all segment [''7'', ''txt'']" by code_simp
  ultimately have "map (ctx_routeParam (snd (Match (\<lambda>_ _. False) m (sample_ctx kGet ''/u/7/f.txt'')))) [''id'', ''ext'']
      = [''7'', ''txt'']"
    using regex_Match_sets_params [OF m, of "[''7'', ''txt'']" "sample_ctx kGet ''/u/7/f.txt''" "\<lambda>_ _. False" "''q''"]
    by (simp add: parts)
  with m show ?thesis by simp
qed

end
