(* ===== verification/Dispatch.thy ===== *)
theory Dispatch
  imports Router
begin

unbundle bit_operations_syntax

text \<open>
  Servlets and their dispatch (include/net/http/http_servlet.h, src/net/http/http_servlet.cpp):
  method masks as 32-bit words, the classification of a route pattern, the built-in servlets, and
  \<^verbatim>\<open>HttpServletDispatch\<close> with its table of exact routes (a map from pattern to entries), its
  vector of dynamic routes, and the add, match, handle, remove, get and list operations. Each
  operation holds \<^verbatim>\<open>route_mtx_\<close> throughout, so it is one step. A user callback is a function on the
  connection state and the context. \<^verbatim>\<open>fnmatch\<close>, the files of the static servlet and the iteration
  order of the \<^verbatim>\<open>unordered_map\<close> are parameters.
\<close>

section \<open>Method masks\<close>

definition mask_None :: uint32 where "mask_None = 0"
definition mask_Get :: uint32 where "mask_Get = push_bit 0 1"
definition mask_Post :: uint32 where "mask_Post = push_bit 1 1"
definition mask_Head :: uint32 where "mask_Head = push_bit 2 1"
definition mask_Put :: uint32 where "mask_Put = push_bit 3 1"
definition mask_Delete :: uint32 where "mask_Delete = push_bit 4 1"
definition mask_All :: uint32 where
  "mask_All = mask_Get OR mask_Post OR mask_Head OR mask_Put OR mask_Delete"

lemmas mask_defs = mask_None_def mask_Get_def mask_Post_def mask_Head_def mask_Put_def
  mask_Delete_def mask_All_def

fun ToMethodMask :: "http_method \<Rightarrow> uint32" where
  "ToMethodMask kGet = mask_Get"
| "ToMethodMask kPost = mask_Post"
| "ToMethodMask kHead = mask_Head"
| "ToMethodMask kPut = mask_Put"
| "ToMethodMask kDelete = mask_Delete"
| "ToMethodMask kInvaild = mask_None"

definition MethodAllowed :: "uint32 \<Rightarrow> http_method \<Rightarrow> bool" where
  "MethodAllowed expected actual \<longleftrightarrow>
     ToMethodMask actual \<noteq> mask_None \<and> expected AND ToMethodMask actual \<noteq> 0"

definition allow_append :: "bytes \<Rightarrow> bytes \<Rightarrow> bytes" where
  "allow_append meth allow = (if allow \<noteq> [] then allow @ '', '' @ meth else meth)"

definition BuildAllowHeader :: "uint32 \<Rightarrow> bytes" where
  "BuildAllowHeader methods =
     fold (\<lambda>(bit, name) allow. if methods AND bit \<noteq> 0 then allow_append name allow else allow)
       [(mask_Get, ''GET''), (mask_Post, ''POST''), (mask_Head, ''HEAD''), (mask_Put, ''PUT''),
        (mask_Delete, ''DELETE'')] ''''"

section \<open>Route kinds\<close>

datatype route_kind = Exact | Regex | Glob

fun RouteKindName :: "route_kind \<Rightarrow> bytes" where
  "RouteKindName Exact = ''exact''"
| "RouteKindName Regex = ''regex''"
| "RouteKindName Glob = ''glob''"

definition IsDynamicParamStart :: "bytes \<Rightarrow> nat \<Rightarrow> bool" where
  "IsDynamicParamStart pattern pos \<longleftrightarrow>
     pattern ! pos = CHR '':'' \<and> (pos = 0 \<or> pattern ! (pos - 1) = CHR ''/'')
     \<and> pos + 1 < length pattern \<and> pattern ! (pos + 1) \<noteq> CHR ''/''"

definition ContainsDynamicParam :: "bytes \<Rightarrow> bool" where
  "ContainsDynamicParam pattern = list_ex (IsDynamicParamStart pattern) [0..<length pattern]"

definition SegmentHasGlobSyntax :: "bytes \<Rightarrow> bool" where
  "SegmentHasGlobSyntax seg \<longleftrightarrow> seg \<noteq> [] \<and> hd seg \<in> set ''*?[''"

text \<open>The loop over the segments between slashes, on the rest of the pattern.\<close>

function ContainsGlobSegment :: "bytes \<Rightarrow> bool" where
  "ContainsGlobSegment rest =
     (let seg = takeWhile (\<lambda>x. x \<noteq> CHR ''/'') rest in
      if SegmentHasGlobSyntax seg then True
      else if length seg = length rest then False
      else ContainsGlobSegment (drop (length seg + 1) rest))"
  by pat_completeness auto
termination
proof (relation "measure length")
  show "(drop (length seg + 1) rest, rest) \<in> measure length"
    if "seg = takeWhile (\<lambda>x. x \<noteq> CHR ''/'') rest" "length seg \<noteq> length rest" for rest seg :: bytes
    using that by (cases rest) auto
qed simp

declare ContainsGlobSegment.simps [simp del]

definition routeKind :: "bytes \<Rightarrow> route_kind" where
  "routeKind pattern =
     (if ContainsDynamicParam pattern then Regex
      else if ContainsGlobSegment pattern then Glob
      else Exact)"

fun createMatcher :: "route_kind \<Rightarrow> bytes \<Rightarrow> matcher option" where
  "createMatcher Regex pattern = new_regex_matcher pattern"
| "createMatcher Glob pattern = Some (GlobRouterMatcher pattern)"
| "createMatcher Exact pattern = None"

section \<open>Servlets\<close>

definition html_page :: "bytes \<Rightarrow> bytes \<Rightarrow> bytes \<Rightarrow> bytes" where
  "html_page title heading para =
     ''<html><head><title>'' @ title @ ''</title></head><body><div style='' @ [CHR 0x22]
     @ ''text-align:center'' @ [CHR 0x22] @ ''><h1>'' @ heading @ ''</h1><p>'' @ para
     @ ''</p></div></body></html>''"

definition Hello_Handle :: "http_context \<Rightarrow> http_context" where
  "Hello_Handle ctx = ctx\<lparr>ctx_response :=
     resp_append_body (html_page ''Hello, Welcome my server!'' ''Hello, Welcome my server!'' ''kit server'')
       (resp_addHeader ''Content-Type'' ''text/html''
         ((ctx_response ctx)\<lparr>resp_version := kHttp11, resp_state_code := 200\<rparr>))\<rparr>"

definition NotFound404_Handle :: "http_context \<Rightarrow> http_context" where
  "NotFound404_Handle ctx = ctx\<lparr>ctx_response :=
     resp_append_body (html_page ''404 Not Found'' ''404 Not Found'' '' kit_server '')
       (resp_addHeader ''Content-Type'' ''text/html''
         ((ctx_response ctx)\<lparr>resp_version := kHttp11, resp_state_code := 404, resp_connection_closed := True\<rparr>))\<rparr>"

definition BadRequest400_Handle :: "http_context \<Rightarrow> http_context" where
  "BadRequest400_Handle ctx = ctx\<lparr>ctx_response :=
     (ctx_response ctx)\<lparr>resp_version := kHttp11, resp_state_code := 400, resp_connection_closed := True,
        resp_body := body_reset (resp_body (ctx_response ctx))\<rparr>\<rparr>"

definition ServerErr500_Handle :: "http_context \<Rightarrow> http_context" where
  "ServerErr500_Handle ctx = ctx\<lparr>ctx_response :=
     resp_append_body (html_page ''500 Server Error'' ''500 Server Error'' ''kit server'')
       (resp_addHeader ''Content-Type'' ''text/html''
         ((ctx_response ctx)\<lparr>resp_version := kHttp11, resp_state_code := 500, resp_connection_closed := True\<rparr>))\<rparr>"

definition ServiceUnavailable503_Handle :: "http_context \<Rightarrow> http_context" where
  "ServiceUnavailable503_Handle ctx = ctx\<lparr>ctx_response :=
     resp_append_body (html_page ''503 Service Unavailable'' ''503 Service Unavailable'' ''kit server'')
       (resp_addHeader ''Content-Type'' ''text/html''
         ((ctx_response ctx)\<lparr>resp_version := kHttp11, resp_state_code := 503, resp_connection_closed := True\<rparr>))\<rparr>"

definition GetStaticType :: "bytes \<Rightarrow> content_type" where
  "GetStaticType suffix_type =
     (if suffix_type = ''html'' then kHtml
      else if suffix_type = ''jpg'' \<or> suffix_type = ''jpeg'' then kImageJpgType
      else if suffix_type = ''css'' then kCss
      else if suffix_type = ''js'' then kJavaScript
      else kJsonType)"

text \<open>The text behind the last occurrence of a character, or all of it.\<close>

definition after_last :: "char \<Rightarrow> bytes \<Rightarrow> bytes" where
  "after_last c s = rev (takeWhile (\<lambda>x. x \<noteq> c) (rev s))"

text \<open>\<open>files\<close> gives the contents of a file that can be opened.\<close>

definition StaticFile_handle :: "(bytes \<Rightarrow> bytes option) \<Rightarrow> http_context \<Rightarrow> http_context" where
  "StaticFile_handle files ctx =
     (let resp = (ctx_response ctx)\<lparr>resp_version := kHttp11, resp_state_code := 200\<rparr>;
          file_name = after_last (CHR ''/'') (req_path (ctx_request ctx));
          suffix_type = after_last (CHR ''.'') file_name;
          resp = resp_set_type (GetStaticType suffix_type) resp;
          target_path = ''web/'' @ suffix_type @ ''/'' @ file_name
      in case files target_path of
           None \<Rightarrow> ctx\<lparr>ctx_response := resp\<lparr>resp_state_code := 500\<rparr>\<rparr>
         | Some data \<Rightarrow> ctx\<lparr>ctx_response := resp_append_body data resp\<rparr>)"

datatype 'c servlet =
    FunctionServlet "'c \<Rightarrow> http_context \<Rightarrow> 'c \<times> http_context"
  | HelloServlet
  | NotFound404Servlet
  | BadRequest400Servlet
  | ServerErr500Servlet
  | ServiceUnavailable503Servlet
  | StaticFileServlet

fun servlet_handle ::
  "(bytes \<Rightarrow> bytes option) \<Rightarrow> 'c servlet \<Rightarrow> 'c \<Rightarrow> http_context \<Rightarrow> 'c \<times> http_context" where
  "servlet_handle files (FunctionServlet cb) conn ctx = cb conn ctx"
| "servlet_handle files HelloServlet conn ctx = (conn, Hello_Handle ctx)"
| "servlet_handle files NotFound404Servlet conn ctx = (conn, NotFound404_Handle ctx)"
| "servlet_handle files BadRequest400Servlet conn ctx = (conn, BadRequest400_Handle ctx)"
| "servlet_handle files ServerErr500Servlet conn ctx = (conn, ServerErr500_Handle ctx)"
| "servlet_handle files ServiceUnavailable503Servlet conn ctx = (conn, ServiceUnavailable503_Handle ctx)"
| "servlet_handle files StaticFileServlet conn ctx = (conn, StaticFile_handle files ctx)"

section \<open>The route table\<close>

record 'c route_entry =
  rid :: uint64
  rkind :: route_kind
  rpattern :: bytes
  rmethods :: uint32
  rmatcher :: "matcher option"
  rservlet :: "'c servlet option"
  rpriority :: int

type_synonym 'c bucket_map = "bytes \<rightharpoonup> 'c route_entry list"

record 'c dispatcher =
  defaultSvl :: "'c servlet"
  exact_routes :: "'c bucket_map"
  dynamic_routes :: "'c route_entry list"
  next_route_id :: uint64
  next_priority :: int

definition new_dispatcher :: "'c dispatcher" where
  "new_dispatcher = \<lparr>defaultSvl = NotFound404Servlet, exact_routes = Map.empty, dynamic_routes = [],
     next_route_id = 1, next_priority = 0\<rparr>"

datatype route_status = RouteOk | RouteInvalidArgument | RouteConflict

record route_result =
  rr_status :: route_status
  rr_id :: uint64
  rr_message :: bytes

record route_info =
  ri_id :: uint64
  ri_kind :: route_kind
  ri_pattern :: bytes
  ri_methods :: uint32
  ri_methods_str :: bytes

datatype match_status = Found | PathFoundMethodNotAllowed | NotFound

record 'c match_result =
  mr_status :: match_status
  mr_servlet :: "'c servlet option"
  mr_allowed :: uint32

definition hasMethodConflict :: "'c route_entry list \<Rightarrow> uint32 \<Rightarrow> bool \<times> uint32" where
  "hasMethodConflict routes methods =
     (let conflict = fold (\<lambda>e c. c OR (rmethods e AND methods)) routes mask_None
      in (conflict \<noteq> mask_None, conflict))"

definition invalid_route :: "bytes \<Rightarrow> route_result" where
  "invalid_route msg = \<lparr>rr_status = RouteInvalidArgument, rr_id = 0, rr_message = msg\<rparr>"

definition conflict_route :: route_result where
  "conflict_route = \<lparr>rr_status = RouteConflict, rr_id = 0, rr_message = ''route method conflict''\<rparr>"

definition new_entry ::
  "route_kind \<Rightarrow> bytes \<Rightarrow> uint32 \<Rightarrow> matcher option \<Rightarrow> 'c servlet option \<Rightarrow> 'c dispatcher \<Rightarrow> 'c route_entry" where
  "new_entry kind pattern methods mt svl d =
     \<lparr>rid = next_route_id d, rkind = kind, rpattern = pattern, rmethods = methods, rmatcher = mt,
      rservlet = svl, rpriority = next_priority d\<rparr>"

text \<open>\<^verbatim>\<open>exact_routes_[pattern]\<close> leaves an empty bucket behind when the pattern had none.\<close>

definition bucket :: "'c dispatcher \<Rightarrow> bytes \<Rightarrow> 'c route_entry list" where
  "bucket d pattern = (case exact_routes d pattern of None \<Rightarrow> [] | Some es \<Rightarrow> es)"

definition addRoute ::
  "uint32 \<Rightarrow> bytes \<Rightarrow> 'c servlet option \<Rightarrow> 'c dispatcher \<Rightarrow> route_result \<times> 'c dispatcher" where
  "addRoute methods pattern svl d =
     (if pattern = [] then (invalid_route ''route pattern is empty'', d)
      else if svl = None then (invalid_route ''route servlet is null'', d)
      else if methods AND mask_All = mask_None \<or> methods AND NOT mask_All \<noteq> 0
        then (invalid_route ''route method mask is invalid'', d)
      else let kind = routeKind pattern; mt = createMatcher kind pattern in
        if kind \<noteq> Exact \<and> mt = None then (invalid_route ''create route matcher failed'', d)
        else if kind = Exact then
          (let routes = bucket d pattern in
           if fst (hasMethodConflict routes methods)
           then (conflict_route, d\<lparr>exact_routes := (exact_routes d)(pattern \<mapsto> routes)\<rparr>)
           else let e = new_entry kind pattern methods None svl d in
             (\<lparr>rr_status = RouteOk, rr_id = rid e, rr_message = ''''\<rparr>,
              d\<lparr>exact_routes := (exact_routes d)(pattern \<mapsto> routes @ [e]),
                next_route_id := next_route_id d + 1, next_priority := next_priority d + 1\<rparr>))
        else
          (let same_pattern_routes = filter (\<lambda>e. rpattern e = pattern) (dynamic_routes d) in
           if fst (hasMethodConflict same_pattern_routes methods) then (conflict_route, d)
           else let e = new_entry kind pattern methods mt svl d in
             (\<lparr>rr_status = RouteOk, rr_id = rid e, rr_message = ''''\<rparr>,
              d\<lparr>dynamic_routes := dynamic_routes d @ [e],
                next_route_id := next_route_id d + 1, next_priority := next_priority d + 1\<rparr>)))"

definition addRoute_cb ::
  "uint32 \<Rightarrow> bytes \<Rightarrow> ('c \<Rightarrow> http_context \<Rightarrow> 'c \<times> http_context) \<Rightarrow> 'c dispatcher
    \<Rightarrow> route_result \<times> 'c dispatcher" where
  "addRoute_cb methods pattern cb d = addRoute methods pattern (Some (FunctionServlet cb)) d"

section \<open>Matching and handling\<close>

fun match_exact :: "http_method \<Rightarrow> uint32 \<Rightarrow> 'c route_entry list \<Rightarrow> 'c match_result" where
  "match_exact meth allowed [] =
     \<lparr>mr_status = PathFoundMethodNotAllowed, mr_servlet = None, mr_allowed = allowed\<rparr>"
| "match_exact meth allowed (e # es) =
     (if MethodAllowed (rmethods e) meth
      then \<lparr>mr_status = Found, mr_servlet = rservlet e, mr_allowed = rmethods e\<rparr>
      else match_exact meth (allowed OR rmethods e) es)"

fun match_dynamic ::
  "(bytes \<Rightarrow> bytes \<Rightarrow> bool) \<Rightarrow> bytes \<Rightarrow> http_context \<Rightarrow> uint32 \<Rightarrow> 'c route_entry list
    \<Rightarrow> 'c match_result \<times> http_context" where
  "match_dynamic fnm url ctx allowed [] =
     (\<lparr>mr_status = (if allowed \<noteq> mask_None then PathFoundMethodNotAllowed else NotFound),
       mr_servlet = None, mr_allowed = allowed\<rparr>, ctx)"
| "match_dynamic fnm url ctx allowed (e # es) =
     (case rmatcher e of
        None \<Rightarrow> match_dynamic fnm url ctx allowed es
      | Some mt \<Rightarrow>
          if rservlet e = None \<or> \<not> MatchPath fnm mt url then match_dynamic fnm url ctx allowed es
          else if MethodAllowed (rmethods e) (req_method (ctx_request ctx))
          then (\<lparr>mr_status = Found, mr_servlet = rservlet e, mr_allowed = rmethods e\<rparr>,
                snd (Match fnm mt ctx))
          else match_dynamic fnm url ctx (allowed OR rmethods e) es)"

definition dispatch_match ::
  "(bytes \<Rightarrow> bytes \<Rightarrow> bool) \<Rightarrow> 'c dispatcher \<Rightarrow> http_context \<Rightarrow> 'c match_result \<times> http_context" where
  "dispatch_match fnm d ctx =
     (let url = req_path (ctx_request ctx) in
      case exact_routes d url of
        Some es \<Rightarrow> (match_exact (req_method (ctx_request ctx)) mask_None es, ctx)
      | None \<Rightarrow> match_dynamic fnm url ctx mask_None (dynamic_routes d))"

definition MethodNotAllowed_response :: "uint32 \<Rightarrow> http_context \<Rightarrow> http_context" where
  "MethodNotAllowed_response allowed ctx = ctx\<lparr>ctx_response :=
     resp_addHeader ''Content-Length'' ''0''
       (resp_addHeader ''Allow'' (BuildAllowHeader allowed)
         ((ctx_response ctx)\<lparr>resp_version := kHttp11, resp_state_code := 405\<rparr>))\<rparr>"

definition dispatch_handle ::
  "(bytes \<Rightarrow> bytes \<Rightarrow> bool) \<Rightarrow> (bytes \<Rightarrow> bytes option) \<Rightarrow> 'c dispatcher \<Rightarrow> 'c \<Rightarrow> http_context
    \<Rightarrow> 'c \<times> http_context" where
  "dispatch_handle fnm files d conn ctx =
     (let (result, ctx') = dispatch_match fnm d ctx in
      case (mr_status result, mr_servlet result) of
        (Found, Some svl) \<Rightarrow> servlet_handle files svl conn ctx'
      | (PathFoundMethodNotAllowed, _) \<Rightarrow> (conn, MethodNotAllowed_response (mr_allowed result) ctx')
      | _ \<Rightarrow> servlet_handle files (defaultSvl d) conn ctx')"

section \<open>Removal and queries\<close>

primrec remove_first :: "('a \<Rightarrow> bool) \<Rightarrow> 'a list \<Rightarrow> 'a list" where
  "remove_first P [] = []"
| "remove_first P (x # xs) = (if P x then xs else x # remove_first P xs)"

text \<open>\<open>iter\<close> enumerates the buckets of \<^verbatim>\<open>exact_routes_\<close> as its iterator does.\<close>

type_synonym 'c bucket_iter = "'c bucket_map \<Rightarrow> (bytes \<times> 'c route_entry list) list"

definition enumerates :: "'c bucket_iter \<Rightarrow> 'c bucket_map \<Rightarrow> bool" where
  "enumerates iter m \<longleftrightarrow> distinct (map fst (iter m)) \<and> map_of (iter m) = m"

definition set_bucket :: "bytes \<Rightarrow> 'c route_entry list \<Rightarrow> 'c dispatcher \<Rightarrow> 'c dispatcher" where
  "set_bucket k es d =
     d\<lparr>exact_routes := (exact_routes d)(k := if es = [] then None else Some es)\<rparr>"

definition removeRoute_id :: "'c bucket_iter \<Rightarrow> uint64 \<Rightarrow> 'c dispatcher \<Rightarrow> bool \<times> 'c dispatcher" where
  "removeRoute_id iter i d =
     (case find (\<lambda>(k, es). list_ex (\<lambda>e. rid e = i) es) (iter (exact_routes d)) of
        Some (k, es) \<Rightarrow> (True, set_bucket k (remove_first (\<lambda>e. rid e = i) es) d)
      | None \<Rightarrow>
          if list_ex (\<lambda>e. rid e = i) (dynamic_routes d)
          then (True, d\<lparr>dynamic_routes := remove_first (\<lambda>e. rid e = i) (dynamic_routes d)\<rparr>)
          else (False, d))"

definition removeRoute_methods :: "bytes \<Rightarrow> uint32 \<Rightarrow> 'c dispatcher \<Rightarrow> nat \<times> 'c dispatcher" where
  "removeRoute_methods pattern methods d =
     (let (n, d) =
        (case exact_routes d pattern of
           None \<Rightarrow> (0, d)
         | Some es \<Rightarrow> (length (filter (\<lambda>e. rmethods e = methods) es),
                      set_bucket pattern (filter (\<lambda>e. rmethods e \<noteq> methods) es) d));
          hit = (\<lambda>e. rpattern e = pattern \<and> rmethods e = methods)
      in (n + length (filter hit (dynamic_routes d)),
          d\<lparr>dynamic_routes := filter (\<lambda>e. \<not> hit e) (dynamic_routes d)\<rparr>))"

definition removeRoute_pattern :: "bytes \<Rightarrow> 'c dispatcher \<Rightarrow> nat \<times> 'c dispatcher" where
  "removeRoute_pattern pattern d =
     (let (n, d) =
        (case exact_routes d pattern of
           None \<Rightarrow> (0, d)
         | Some es \<Rightarrow> (length es, d\<lparr>exact_routes := (exact_routes d)(pattern := None)\<rparr>))
      in (n + length (filter (\<lambda>e. rpattern e = pattern) (dynamic_routes d)),
          d\<lparr>dynamic_routes := filter (\<lambda>e. rpattern e \<noteq> pattern) (dynamic_routes d)\<rparr>))"

definition info_of :: "'c route_entry \<Rightarrow> route_info" where
  "info_of e = \<lparr>ri_id = rid e, ri_kind = rkind e, ri_pattern = rpattern e, ri_methods = rmethods e,
     ri_methods_str = BuildAllowHeader (rmethods e)\<rparr>"

definition no_info :: route_info where
  "no_info = \<lparr>ri_id = 0, ri_kind = Exact, ri_pattern = [], ri_methods = mask_None, ri_methods_str = []\<rparr>"

definition getRoute :: "'c bucket_iter \<Rightarrow> uint64 \<Rightarrow> 'c dispatcher \<Rightarrow> route_info" where
  "getRoute iter i d =
     (case find (\<lambda>e. rid e = i) (concat (map snd (iter (exact_routes d)))) of
        Some e \<Rightarrow> info_of e
      | None \<Rightarrow> (case find (\<lambda>e. rid e = i) (dynamic_routes d) of Some e \<Rightarrow> info_of e | None \<Rightarrow> no_info))"

definition listRoutes :: "'c bucket_iter \<Rightarrow> 'c dispatcher \<Rightarrow> route_info list" where
  "listRoutes iter d =
     map info_of (concat (map snd (iter (exact_routes d)))) @ map info_of (dynamic_routes d)"

definition listRoutes_pattern :: "bytes \<Rightarrow> 'c dispatcher \<Rightarrow> route_info list" where
  "listRoutes_pattern pattern d =
     map info_of (bucket d pattern)
     @ map info_of (filter (\<lambda>e. rpattern e = pattern) (dynamic_routes d))"

section \<open>Facts about masks\<close>

lemma mask_values [simp]:
  "mask_None = 0" "mask_Get = 1" "mask_Post = 2" "mask_Head = 4" "mask_Put = 8" "mask_Delete = 16"
  "mask_All = 31"
  by (simp_all add: mask_defs)

lemma ToMethodMask_power: "m \<noteq> kInvaild \<Longrightarrow> \<exists>k. ToMethodMask m = 2 ^ k"
proof (cases m)
  case kGet then show ?thesis by (intro exI [of _ 0]) simp
next
  case kPost then show ?thesis by (intro exI [of _ 1]) simp
next
  case kHead then show ?thesis by (intro exI [of _ 2]) simp
next
  case kPut then show ?thesis by (intro exI [of _ 3]) simp
next
  case kDelete then show ?thesis by (intro exI [of _ 4]) simp
qed simp

lemma MethodAllowed_bit:
  assumes "m \<noteq> kInvaild" obtains k where "\<And>a. MethodAllowed a m \<longleftrightarrow> bit a k"
proof -
  from ToMethodMask_power [OF assms] obtain k where k: "ToMethodMask m = 2 ^ k" by blast
  moreover have "ToMethodMask m \<noteq> 0" using assms by (cases m) simp_all
  ultimately have "MethodAllowed a m \<longleftrightarrow> bit a k" for a
    by (simp add: MethodAllowed_def and_exp_eq_0_iff_not_bit)
  then show thesis by (rule that)
qed

lemma MethodAllowed_kInvaild [simp]: "\<not> MethodAllowed a kInvaild"
  by (simp add: MethodAllowed_def)

lemma MethodAllowed_disjoint:
  assumes "a AND b = 0" and "MethodAllowed a m" shows "\<not> MethodAllowed b m"
proof -
  from assms(2) have "m \<noteq> kInvaild" by auto
  then obtain k where k: "\<And>a. MethodAllowed a m \<longleftrightarrow> bit a k" using MethodAllowed_bit by blast
  show ?thesis using assms by (metis bit_and_iff bit_0_eq bot_apply k bot_bool_def)
qed

lemma MethodAllowed_or: "MethodAllowed (a OR b) m \<longleftrightarrow> MethodAllowed a m \<or> MethodAllowed b m"
  by (cases "m = kInvaild") (auto simp: bit_or_iff elim: MethodAllowed_bit [of m])

section \<open>The abstract table and the invariant\<close>

text \<open>The registered routes as a set, whatever container holds them; the id gives their order.\<close>

definition entries :: "'c dispatcher \<Rightarrow> 'c route_entry set" where
  "entries d = (\<Union>es\<in>ran (exact_routes d). set es) \<union> set (dynamic_routes d)"

definition entry_ok :: "'c route_entry \<Rightarrow> bool" where
  "entry_ok e \<longleftrightarrow> rkind e = routeKind (rpattern e) \<and> rmatcher e = createMatcher (rkind e) (rpattern e)
     \<and> rservlet e \<noteq> None \<and> rpattern e \<noteq> [] \<and> rmethods e AND mask_All \<noteq> 0 \<and> rmethods e AND NOT mask_All = 0"

text \<open>Ids ascend along a vector, and routes of one pattern share no method.\<close>

definition vec_ok :: "'c route_entry list \<Rightarrow> bool" where
  "vec_ok es \<longleftrightarrow> sorted_wrt (\<lambda>a b. rid a < rid b \<and> (rpattern a = rpattern b \<longrightarrow> rmethods a AND rmethods b = 0)) es"

definition dispatch_inv :: "'c dispatcher \<Rightarrow> bool" where
  "dispatch_inv d \<longleftrightarrow>
     (\<forall>p es. exact_routes d p = Some es \<longrightarrow> es \<noteq> [] \<and> vec_ok es \<and> (\<forall>e\<in>set es. rpattern e = p \<and> rkind e = Exact))
     \<and> vec_ok (dynamic_routes d) \<and> (\<forall>e\<in>set (dynamic_routes d). rkind e \<noteq> Exact)
     \<and> (\<forall>e\<in>entries d. entry_ok e \<and> 0 < rid e \<and> rid e < next_route_id d)
     \<and> inj_on rid (entries d) \<and> 0 < next_route_id d"

lemma in_bucket: "exact_routes d p = Some es \<Longrightarrow> e \<in> set es \<Longrightarrow> e \<in> entries d"
  by (auto simp: entries_def intro!: UnI1 ranI)

lemma in_dynamic: "e \<in> set (dynamic_routes d) \<Longrightarrow> e \<in> entries d"
  by (simp add: entries_def)

lemma entries_cases:
  assumes "e \<in> entries d"
  obtains p es where "exact_routes d p = Some es" "e \<in> set es" | "e \<in> set (dynamic_routes d)"
  using assms by (auto simp: entries_def ran_def)

lemma entries_exact:
  assumes "dispatch_inv d"
  shows "e \<in> entries d \<and> rkind e = Exact \<longleftrightarrow> (\<exists>es. exact_routes d (rpattern e) = Some es \<and> e \<in> set es)"
proof
  assume "e \<in> entries d \<and> rkind e = Exact"
  then show "\<exists>es. exact_routes d (rpattern e) = Some es \<and> e \<in> set es"
    using assms by (elim conjE entries_cases) (auto simp: dispatch_inv_def)
next
  assume "\<exists>es. exact_routes d (rpattern e) = Some es \<and> e \<in> set es"
  then show "e \<in> entries d \<and> rkind e = Exact"
    using assms in_bucket by (auto simp: dispatch_inv_def)
qed

lemma entries_dynamic:
  assumes "dispatch_inv d"
  shows "e \<in> entries d \<and> rkind e \<noteq> Exact \<longleftrightarrow> e \<in> set (dynamic_routes d)"
  using assms by (auto simp: dispatch_inv_def in_dynamic elim!: entries_cases)

lemma dispatch_invD:
  assumes "dispatch_inv d"
  shows "exact_routes d p = Some es \<Longrightarrow> vec_ok es" "exact_routes d p = Some es \<Longrightarrow> es \<noteq> []"
    and "vec_ok (dynamic_routes d)" "inj_on rid (entries d)"
    and "e \<in> entries d \<Longrightarrow> entry_ok e" "e \<in> entries d \<Longrightarrow> 0 < rid e" "e \<in> entries d \<Longrightarrow> rid e < next_route_id d"
  using assms by (auto simp: dispatch_inv_def)

lemma conflict_iff:
  "fst (hasMethodConflict routes methods) \<longleftrightarrow> (\<exists>e\<in>set routes. rmethods e AND methods \<noteq> 0)"
proof -
  have "fold (\<lambda>e c. c OR (rmethods e AND methods)) routes c = 0
      \<longleftrightarrow> c = 0 \<and> (\<forall>e\<in>set routes. rmethods e AND methods = 0)" for c
    by (induction routes arbitrary: c) (auto simp: or_eq_0_iff)
  then show ?thesis by (simp add: hasMethodConflict_def Let_def)
qed

text \<open>Keeping the routes that satisfy a predicate: what every removal comes to.\<close>

definition keep_bucket :: "('c route_entry \<Rightarrow> bool) \<Rightarrow> 'c route_entry list option \<Rightarrow> 'c route_entry list option" where
  "keep_bucket P b = (case b of None \<Rightarrow> None | Some es \<Rightarrow> (let es' = filter P es in if es' = [] then None else Some es'))"

definition keep :: "('c route_entry \<Rightarrow> bool) \<Rightarrow> 'c dispatcher \<Rightarrow> 'c dispatcher" where
  "keep P d = d\<lparr>exact_routes := (\<lambda>p. keep_bucket P (exact_routes d p)),
                dynamic_routes := filter P (dynamic_routes d)\<rparr>"

lemma keep_bucket_Some: "keep_bucket P b = Some es' \<longleftrightarrow> (\<exists>es. b = Some es \<and> es' = filter P es \<and> es' \<noteq> [])"
  by (auto simp: keep_bucket_def Let_def split: option.splits)

lemma entries_keep: "entries (keep P d) = {e \<in> entries d. P e}"
proof (intro set_eqI iffI)
  fix e assume "e \<in> entries (keep P d)"
  then show "e \<in> {e \<in> entries d. P e}"
    by (rule entries_cases) (auto simp: keep_def keep_bucket_Some intro: in_bucket in_dynamic)
next
  fix e assume e: "e \<in> {e \<in> entries d. P e}"
  then have "e \<in> entries d" by simp
  then show "e \<in> entries (keep P d)"
  proof (rule entries_cases)
    fix p es assume "exact_routes d p = Some es" "e \<in> set es"
    moreover have "filter P es \<noteq> []" using calculation e by (auto simp: filter_empty_conv)
    ultimately have "exact_routes (keep P d) p = Some (filter P es)"
      by (simp add: keep_def keep_bucket_def Let_def)
    with \<open>e \<in> set es\<close> e show ?thesis by (auto intro: in_bucket)
  next
    assume "e \<in> set (dynamic_routes d)"
    with e show ?thesis by (intro in_dynamic) (simp add: keep_def)
  qed
qed

lemma keep_inv [inv_pres]: "dispatch_inv d \<Longrightarrow> dispatch_inv (keep P d)"
proof -
  assume d: "dispatch_inv d"
  have v: "vec_ok es \<Longrightarrow> vec_ok (filter P es)" for es :: "'a route_entry list"
    by (simp add: vec_ok_def sorted_wrt_filter)
  have n: "next_route_id (keep P d) = next_route_id d" by (simp add: keep_def)
  have "inj_on rid (entries (keep P d))"
    using dispatch_invD(4) [OF d] by (rule inj_on_subset) (auto simp: entries_keep)
  moreover have "es \<noteq> [] \<and> vec_ok es \<and> (\<forall>e\<in>set es. rpattern e = p \<and> rkind e = Exact)"
    if "exact_routes (keep P d) p = Some es" for p es
    using that d v by (auto simp: keep_def keep_bucket_Some dispatch_inv_def)
  moreover have "vec_ok (dynamic_routes (keep P d)) \<and> (\<forall>e\<in>set (dynamic_routes (keep P d)). rkind e \<noteq> Exact)"
    using d v by (auto simp: keep_def dispatch_inv_def)
  moreover have "\<forall>e\<in>entries (keep P d). entry_ok e \<and> 0 < rid e \<and> rid e < next_route_id d"
    using d by (auto simp: entries_keep dispatch_inv_def)
  ultimately show ?thesis using d unfolding dispatch_inv_def [of "keep P d"] n
    by (auto simp: dispatch_inv_def)
qed

section \<open>Registration\<close>

definition valid_registration :: "uint32 \<Rightarrow> bytes \<Rightarrow> 'c servlet option \<Rightarrow> bool" where
  "valid_registration methods pattern svl \<longleftrightarrow>
     pattern \<noteq> [] \<and> svl \<noteq> None \<and> methods AND mask_All \<noteq> 0 \<and> methods AND NOT mask_All = 0"

definition registered_conflict :: "uint32 \<Rightarrow> bytes \<Rightarrow> 'c dispatcher \<Rightarrow> bool" where
  "registered_conflict methods pattern d \<longleftrightarrow>
     (\<exists>e\<in>entries d. rpattern e = pattern \<and> rmethods e AND methods \<noteq> 0)"

definition make_entry :: "uint32 \<Rightarrow> bytes \<Rightarrow> 'c servlet option \<Rightarrow> 'c dispatcher \<Rightarrow> 'c route_entry" where
  "make_entry methods pattern svl d =
     new_entry (routeKind pattern) pattern methods (createMatcher (routeKind pattern) pattern) svl d"

lemma createMatcher_some: "kind \<noteq> Exact \<Longrightarrow> createMatcher kind p \<noteq> None"
  by (cases kind) (simp_all add: new_regex_matcher_eq)

lemma exact_conflict:
  assumes "dispatch_inv d" "routeKind pattern = Exact"
  shows "fst (hasMethodConflict (bucket d pattern) methods) = registered_conflict methods pattern d"
proof -
  have "e \<in> set (bucket d pattern) \<longleftrightarrow> e \<in> entries d \<and> rpattern e = pattern" for e
  proof -
    have "e \<in> entries d \<Longrightarrow> rpattern e = pattern \<Longrightarrow> rkind e = Exact"
      using dispatch_invD(5) [OF assms(1), of e] assms(2) by (simp add: entry_ok_def)
    moreover have "e \<in> set (bucket d pattern) \<Longrightarrow> rpattern e = pattern"
      using assms(1) by (cases "exact_routes d pattern") (auto simp: bucket_def dispatch_inv_def)
    ultimately show ?thesis using entries_exact [OF assms(1), of e]
      by (cases "exact_routes d pattern") (auto simp: bucket_def)
  qed
  then show ?thesis by (auto simp: conflict_iff registered_conflict_def)
qed

lemma dynamic_conflict:
  assumes "dispatch_inv d" "routeKind pattern \<noteq> Exact"
  shows "fst (hasMethodConflict (filter (\<lambda>e. rpattern e = pattern) (dynamic_routes d)) methods)
    = registered_conflict methods pattern d"
proof -
  have "e \<in> entries d \<Longrightarrow> rpattern e = pattern \<Longrightarrow> rkind e \<noteq> Exact" for e
    using dispatch_invD(5) [OF assms(1), of e] assms(2) by (simp add: entry_ok_def)
  then show ?thesis using entries_dynamic [OF assms(1)]
    by (auto simp: conflict_iff registered_conflict_def)
qed

lemma addRoute_refused:
  assumes "dispatch_inv d"
  shows "\<not> valid_registration methods pattern svl \<Longrightarrow>
      rr_status (fst (addRoute methods pattern svl d)) = RouteInvalidArgument \<and> snd (addRoute methods pattern svl d) = d"
    and "valid_registration methods pattern svl \<Longrightarrow> registered_conflict methods pattern d \<Longrightarrow>
      addRoute methods pattern svl d = (conflict_route, d)"
proof -
  show "\<not> valid_registration methods pattern svl \<Longrightarrow>
      rr_status (fst (addRoute methods pattern svl d)) = RouteInvalidArgument \<and> snd (addRoute methods pattern svl d) = d"
    by (auto simp: valid_registration_def addRoute_def invalid_route_def)
  assume v: "valid_registration methods pattern svl" and c: "registered_conflict methods pattern d"
  show "addRoute methods pattern svl d = (conflict_route, d)"
  proof (cases "routeKind pattern = Exact")
    case True
    from exact_conflict [OF assms True] c have f: "fst (hasMethodConflict (bucket d pattern) methods)" by simp
    then have "bucket d pattern \<noteq> []" by (auto simp: conflict_iff)
    then have "exact_routes d pattern = Some (bucket d pattern)" by (auto simp: bucket_def split: option.splits)
    then have "(exact_routes d)(pattern \<mapsto> bucket d pattern) = exact_routes d" by auto
    with True v f show ?thesis by (auto simp: addRoute_def valid_registration_def Let_def)
  next
    case False
    with v dynamic_conflict [OF assms False] c createMatcher_some [OF False, of pattern] show ?thesis
      by (auto simp: addRoute_def valid_registration_def Let_def)
  qed
qed

lemma addRoute_accepted_eq:
  assumes "dispatch_inv d" "valid_registration methods pattern svl" "\<not> registered_conflict methods pattern d"
  shows "addRoute methods pattern svl d =
    (\<lparr>rr_status = RouteOk, rr_id = next_route_id d, rr_message = []\<rparr>,
     (if routeKind pattern = Exact
      then d\<lparr>exact_routes := (exact_routes d)(pattern \<mapsto> bucket d pattern @ [make_entry methods pattern svl d])\<rparr>
      else d\<lparr>dynamic_routes := dynamic_routes d @ [make_entry methods pattern svl d]\<rparr>)
       \<lparr>next_route_id := next_route_id d + 1, next_priority := next_priority d + 1\<rparr>)"
proof -
  from assms(2) obtain sv where v: "pattern \<noteq> []" "svl = Some sv" "methods AND mask_All \<noteq> mask_None"
    "methods AND NOT mask_All = 0" by (auto simp: valid_registration_def)
  show ?thesis
  proof (cases "routeKind pattern = Exact")
    case True
    from exact_conflict [OF assms(1) True, of methods] assms(3) True v show ?thesis
      unfolding addRoute_def by (simp add: Let_def make_entry_def new_entry_def del: mask_values)
  next
    case False
    from dynamic_conflict [OF assms(1) False, of methods] assms(3) False v createMatcher_some [OF False, of pattern]
    show ?thesis unfolding addRoute_def by (auto simp: Let_def make_entry_def new_entry_def simp del: mask_values)
  qed
qed

lemma addRoute_accepted:
  assumes "dispatch_inv d" "valid_registration methods pattern svl" "\<not> registered_conflict methods pattern d"
  defines "e \<equiv> make_entry methods pattern svl d"
  shows "fst (addRoute methods pattern svl d) = \<lparr>rr_status = RouteOk, rr_id = next_route_id d, rr_message = []\<rparr>"
    and "exact_routes (snd (addRoute methods pattern svl d)) =
      (if routeKind pattern = Exact then (exact_routes d)(pattern \<mapsto> bucket d pattern @ [e]) else exact_routes d)"
    and "dynamic_routes (snd (addRoute methods pattern svl d)) =
      (if routeKind pattern = Exact then dynamic_routes d else dynamic_routes d @ [e])"
    and "next_route_id (snd (addRoute methods pattern svl d)) = next_route_id d + 1"
  unfolding e_def by (simp_all add: addRoute_accepted_eq [OF assms(1-3)])

lemma addRoute_entries:
  assumes "dispatch_inv d" "valid_registration methods pattern svl" "\<not> registered_conflict methods pattern d"
  shows "entries (snd (addRoute methods pattern svl d)) = insert (make_entry methods pattern svl d) (entries d)"
proof (cases "routeKind pattern = Exact")
  case True
  have "(\<Union>es\<in>ran ((exact_routes d)(pattern \<mapsto> bucket d pattern @ [e])). set es) =
      insert e (\<Union>es\<in>ran (exact_routes d). set es)" (is "?l = ?r") for e
  proof (intro set_eqI iffI)
    fix x assume "x \<in> ?l"
    then show "x \<in> ?r" by (auto simp: ran_def bucket_def split: option.splits if_splits)
  next
    fix x assume "x \<in> ?r"
    moreover have "x \<in> ?l" if "exact_routes d p = Some es" "x \<in> set es" for p es
      using that by (cases "p = pattern") (auto simp: ran_def bucket_def)
    moreover have "e \<in> ?l" by (auto simp: ran_def)
    moreover have "(\<exists>p es. exact_routes d p = Some es \<and> x \<in> set es) \<or> x = e"
      using calculation(1) by (auto simp: ran_def)
    ultimately show "x \<in> ?l" by blast
  qed
  with True addRoute_accepted [OF assms] show ?thesis by (simp add: entries_def)
next
  case False
  with addRoute_accepted [OF assms] show ?thesis by (auto simp: entries_def)
qed

lemma bucket_inv:
  "dispatch_inv d \<Longrightarrow> vec_ok (bucket d p)
     \<and> (\<forall>x\<in>set (bucket d p). x \<in> entries d \<and> rpattern x = p \<and> rkind x = Exact)"
  by (cases "exact_routes d p") (auto simp: bucket_def dispatch_inv_def vec_ok_def dest: in_bucket)

lemma vec_ok_snoc:
  assumes "vec_ok es" and "\<And>x. x \<in> set es \<Longrightarrow> rid x < rid e"
    and "\<And>x. x \<in> set es \<Longrightarrow> rpattern x = rpattern e \<Longrightarrow> rmethods x AND rmethods e = 0"
  shows "vec_ok (es @ [e])"
  using assms by (auto simp: vec_ok_def sorted_wrt_append)

lemma next_id_less: "next_route_id d \<noteq> - 1 \<Longrightarrow> next_route_id d < next_route_id d + 1"
  using inc_less_eq_triv_imp [of "next_route_id d"] by force

lemma addRoute_inv [inv_pres]:
  assumes d: "dispatch_inv d" and room: "next_route_id d \<noteq> - 1"
  shows "dispatch_inv (snd (addRoute methods pattern svl d))"
proof (cases "valid_registration methods pattern svl \<and> \<not> registered_conflict methods pattern d")
  case False
  then have "snd (addRoute methods pattern svl d) = d"
    using addRoute_refused [OF d, of methods pattern svl] by (cases "valid_registration methods pattern svl") auto
  with d show ?thesis by simp
next
  case True
  let ?d = "snd (addRoute methods pattern svl d)" and ?e = "make_entry methods pattern svl d"
  from True have v: "valid_registration methods pattern svl" and nc: "\<not> registered_conflict methods pattern d" by auto
  note acc = addRoute_accepted [OF d v nc] and ent = addRoute_entries [OF d v nc]
  have e: "rid ?e = next_route_id d" "rpattern ?e = pattern" "rmethods ?e = methods" "rkind ?e = routeKind pattern"
    by (simp_all add: make_entry_def new_entry_def)
  have next_gt: "next_route_id d < next_route_id d + 1" using room by (rule next_id_less)
  have ok: "entry_ok ?e" using v by (simp add: entry_ok_def make_entry_def new_entry_def valid_registration_def)
  have old: "rid x < next_route_id d" "rpattern x = pattern \<Longrightarrow> rmethods x AND methods = 0" if "x \<in> entries d" for x
    using that nc dispatch_invD(7) [OF d] by (auto simp: registered_conflict_def)
  have all: "\<forall>x\<in>entries ?d. entry_ok x \<and> 0 < rid x \<and> rid x < next_route_id ?d"
    using d next_gt ok e acc(4) unfolding ent dispatch_inv_def by (auto intro: less_trans)
  have inj: "inj_on rid (entries ?d)"
  proof -
    have "rid ?e \<notin> rid ` entries d" using old(1) e(1) by (metis imageE less_irrefl)
    then show ?thesis unfolding ent using dispatch_invD(4) [OF d] by (auto simp: inj_on_insert)
  qed
  have dyn: "vec_ok (dynamic_routes ?d) \<and> (\<forall>x\<in>set (dynamic_routes ?d). rkind x \<noteq> Exact)"
  proof (cases "routeKind pattern = Exact")
    case False
    have "vec_ok (dynamic_routes d @ [?e])"
      using dispatch_invD(3) [OF d] old e in_dynamic by (intro vec_ok_snoc) auto
    with False acc(3) d e show ?thesis by (auto simp: dispatch_inv_def)
  qed (use acc(3) d in \<open>auto simp: dispatch_inv_def\<close>)
  have b: "vec_ok (bucket d pattern)" "\<And>x. x \<in> set (bucket d pattern) \<Longrightarrow> x \<in> entries d \<and> rpattern x = pattern \<and> rkind x = Exact"
    using bucket_inv [OF d] by auto
  have ex: "es \<noteq> [] \<and> vec_ok es \<and> (\<forall>x\<in>set es. rpattern x = p \<and> rkind x = Exact)"
    if "exact_routes ?d p = Some es" for p es
  proof (cases "routeKind pattern = Exact \<and> p = pattern")
    case True
    with that acc(2) have es: "es = bucket d pattern @ [?e]" by simp
    have "vec_ok es" unfolding es using b old e by (intro vec_ok_snoc) auto
    with es True b e show ?thesis by auto
  next
    case False
    with that acc(2) have "exact_routes d p = Some es" by (auto split: if_splits)
    with d show ?thesis by (auto simp: dispatch_inv_def)
  qed
  have "0 < next_route_id ?d" unfolding acc(4) using next_gt word_zero_le by (rule le_less_trans [rotated])
  with all inj dyn ex show ?thesis unfolding dispatch_inv_def by blast
qed

lemma new_dispatcher_inv [inv_pres]: "dispatch_inv new_dispatcher"
  by (simp add: dispatch_inv_def new_dispatcher_def entries_def vec_ok_def)

section \<open>Removal\<close>

lemma enumerates_iff: "enumerates iter m \<Longrightarrow> (k, es) \<in> set (iter m) \<longleftrightarrow> m k = Some es"
  by (auto simp: enumerates_def map_of_eq_Some_iff [symmetric])

lemma remove_first_filter:
  "vec_ok es \<Longrightarrow> remove_first (\<lambda>e. rid e = i) es = filter (\<lambda>e. rid e \<noteq> i) es"
proof (induction es)
  case (Cons e es)
  then have "rid e = i \<Longrightarrow> \<forall>x\<in>set es. rid x \<noteq> i" by (auto simp: vec_ok_def)
  with Cons show ?case by (auto simp: vec_ok_def filter_id_conv)
qed simp

lemma keep_bucket_id: "(\<And>es. b = Some es \<Longrightarrow> es \<noteq> [] \<and> (\<forall>e\<in>set es. P e)) \<Longrightarrow> keep_bucket P b = b"
  by (cases b) (simp_all add: keep_bucket_def)

text \<open>A removal that rewrites one bucket and the dynamic vector keeps what a predicate keeps.\<close>

lemma keep_one_bucket:
  assumes "dispatch_inv d" and "\<And>e. e \<in> entries d \<Longrightarrow> rkind e = Exact \<Longrightarrow> rpattern e \<noteq> p \<Longrightarrow> P e"
  shows "keep P d = d\<lparr>exact_routes := (exact_routes d)(p := keep_bucket P (exact_routes d p)),
                      dynamic_routes := filter P (dynamic_routes d)\<rparr>"
proof -
  have "keep_bucket P (exact_routes d q) = exact_routes d q" if "q \<noteq> p" for q
  proof (intro keep_bucket_id conjI ballI)
    fix es assume es: "exact_routes d q = Some es"
    then show "es \<noteq> []" by (rule dispatch_invD(2) [OF assms(1)])
    fix e assume e: "e \<in> set es"
    with es assms(1) have "rpattern e = q" "rkind e = Exact" by (auto simp: dispatch_inv_def)
    with assms(2) in_bucket [OF es e] that show "P e" by simp
  qed
  then have "(\<lambda>q. keep_bucket P (exact_routes d q)) = (exact_routes d)(p := keep_bucket P (exact_routes d p))"
    by auto
  then show ?thesis by (simp add: keep_def)
qed

lemma set_bucket_keep:
  assumes "exact_routes d p = Some es"
  shows "set_bucket p (filter P es) d = d\<lparr>exact_routes := (exact_routes d)(p := keep_bucket P (exact_routes d p))\<rparr>"
  using assms by (simp add: set_bucket_def keep_bucket_def Let_def)

lemma removeRoute_id_keep:
  assumes d: "dispatch_inv d" and iter: "enumerates iter (exact_routes d)"
  shows "removeRoute_id iter i d = (i \<in> rid ` entries d, keep (\<lambda>e. rid e \<noteq> i) d)"
proof (cases "find (\<lambda>(k, es). list_ex (\<lambda>e. rid e = i) es) (iter (exact_routes d))")
  case (Some kes)
  obtain k es where kes: "kes = (k, es)" by (cases kes)
  with Some have "(k, es) \<in> set (iter (exact_routes d))" and ex: "list_ex (\<lambda>e. rid e = i) es"
    by (auto simp: find_Some_iff in_set_conv_nth)
  with iter have b: "exact_routes d k = Some es" by (simp add: enumerates_iff)
  from ex obtain e where e: "e \<in> set es" "rid e = i" by (auto simp: list_ex_iff)
  with b have eE: "e \<in> entries d" by (blast intro: in_bucket)
  have ek: "rpattern e = k" "rkind e = Exact" using d b e by (auto simp: dispatch_inv_def)
  have uniq: "x = e" if "x \<in> entries d" "rid x = i" for x
    using dispatch_invD(4) [OF d] that eE e by (auto dest: inj_onD)
  have "filter (\<lambda>e. rid e \<noteq> i) (dynamic_routes d) = dynamic_routes d"
  proof (intro filter_True ballI)
    fix x assume "x \<in> set (dynamic_routes d)"
    then have "x \<in> entries d" "rkind x \<noteq> Exact" using entries_dynamic [OF d, of x] by auto
    with uniq [of x] ek show "rid x \<noteq> i" by auto
  qed
  then have "keep (\<lambda>e. rid e \<noteq> i) d =
      d\<lparr>exact_routes := (exact_routes d)(k := keep_bucket (\<lambda>e. rid e \<noteq> i) (exact_routes d k))\<rparr>"
    using keep_one_bucket [OF d, of k "\<lambda>e. rid e \<noteq> i"] uniq ek by auto
  also have "\<dots> = set_bucket k (remove_first (\<lambda>e. rid e = i) es) d"
    using set_bucket_keep [OF b, of "\<lambda>e. rid e \<noteq> i"] remove_first_filter dispatch_invD(1) [OF d b] by metis
  finally show ?thesis using Some kes eE e by (auto simp: removeRoute_id_def)
next
  case None
  have no: "rid e \<noteq> i" if "exact_routes d k = Some es" "e \<in> set es" for k es e
    using that None enumerates_iff [OF iter, of k es] by (auto simp: find_None_iff list_ex_iff)
  have "keep_bucket (\<lambda>e. rid e \<noteq> i) (exact_routes d p) = exact_routes d p" for p
    using d no by (intro keep_bucket_id) (auto simp: dispatch_inv_def)
  then have k: "keep (\<lambda>e. rid e \<noteq> i) d = d\<lparr>dynamic_routes := filter (\<lambda>e. rid e \<noteq> i) (dynamic_routes d)\<rparr>"
    by (simp add: keep_def)
  have hit: "i \<in> rid ` entries d \<longleftrightarrow> list_ex (\<lambda>e. rid e = i) (dynamic_routes d)"
    using no by (auto simp: list_ex_iff intro: in_dynamic elim!: entries_cases)
  have "filter (\<lambda>e. rid e \<noteq> i) (dynamic_routes d) = dynamic_routes d"
    if "\<not> list_ex (\<lambda>e. rid e = i) (dynamic_routes d)"
    using that by (auto simp: filter_id_conv list_ex_iff)
  with None k hit remove_first_filter [OF dispatch_invD(3) [OF d]] show ?thesis
    by (auto simp: removeRoute_id_def)
qed

lemma removeRoute_methods_keep:
  assumes d: "dispatch_inv d"
  shows "snd (removeRoute_methods p ms d) = keep (\<lambda>e. \<not> (rpattern e = p \<and> rmethods e = ms)) d"
proof -
  let ?P = "\<lambda>e. \<not> (rpattern e = p \<and> rmethods e = ms)"
  have k: "keep ?P d = d\<lparr>exact_routes := (exact_routes d)(p := keep_bucket ?P (exact_routes d p)),
                      dynamic_routes := filter ?P (dynamic_routes d)\<rparr>"
    by (rule keep_one_bucket [OF d]) simp
  show ?thesis
  proof (cases "exact_routes d p")
    case None
    then have "(exact_routes d)(p := keep_bucket ?P (exact_routes d p)) = exact_routes d"
      by (auto simp: keep_bucket_def)
    with k None show ?thesis by (simp add: removeRoute_methods_def)
  next
    case (Some es)
    have "filter (\<lambda>e. rmethods e \<noteq> ms) es = filter ?P es"
      using d Some by (intro filter_cong) (auto simp: dispatch_inv_def)
    with k Some set_bucket_keep [OF Some, of ?P] show ?thesis
      by (simp add: removeRoute_methods_def)
  qed
qed

lemma removeRoute_pattern_keep:
  assumes d: "dispatch_inv d"
  shows "snd (removeRoute_pattern p d) = keep (\<lambda>e. rpattern e \<noteq> p) d"
proof -
  have k: "keep (\<lambda>e. rpattern e \<noteq> p) d =
      d\<lparr>exact_routes := (exact_routes d)(p := keep_bucket (\<lambda>e. rpattern e \<noteq> p) (exact_routes d p)),
        dynamic_routes := filter (\<lambda>e. rpattern e \<noteq> p) (dynamic_routes d)\<rparr>"
    by (rule keep_one_bucket [OF d]) simp
  show ?thesis
  proof (cases "exact_routes d p")
    case None
    then have "(exact_routes d)(p := keep_bucket (\<lambda>e. rpattern e \<noteq> p) (exact_routes d p)) = exact_routes d"
      by (auto simp: keep_bucket_def)
    with k None show ?thesis by (simp add: removeRoute_pattern_def)
  next
    case (Some es)
    then have "\<forall>e\<in>set es. rpattern e = p" using d by (auto simp: dispatch_inv_def)
    then have "filter (\<lambda>e. rpattern e \<noteq> p) es = []" by (simp add: filter_empty_conv)
    with k Some show ?thesis by (simp add: removeRoute_pattern_def keep_bucket_def)
  qed
qed

text \<open>The counts the two pattern removals return.\<close>

lemma vec_ok_distinct: "vec_ok es \<Longrightarrow> distinct es"
proof (induction es)
  case (Cons e es)
  then have "\<forall>x\<in>set es. rid e < rid x" by (simp add: vec_ok_def)
  with Cons show ?case by (auto simp: vec_ok_def)
qed simp

lemma count_pattern:
  assumes d: "dispatch_inv d" and Q: "\<And>e. Q e \<Longrightarrow> rpattern e = p"
  shows "card {e \<in> entries d. Q e} = length (filter Q (bucket d p)) + length (filter Q (dynamic_routes d))"
proof -
  have "{e \<in> entries d. Q e} = set (filter Q (bucket d p)) \<union> set (filter Q (dynamic_routes d))"
  proof (intro set_eqI iffI)
    fix e assume e: "e \<in> {e \<in> entries d. Q e}"
    show "e \<in> set (filter Q (bucket d p)) \<union> set (filter Q (dynamic_routes d))"
    proof (cases "rkind e = Exact")
      case True
      with e entries_exact [OF d, of e] Q show ?thesis by (auto simp: bucket_def)
    next
      case False
      with e entries_dynamic [OF d, of e] show ?thesis by auto
    qed
  qed (use bucket_inv [OF d] in_dynamic in auto)
  moreover have "set (filter Q (bucket d p)) \<inter> set (filter Q (dynamic_routes d)) = {}"
    using bucket_inv [OF d, of p] d by (auto simp: dispatch_inv_def)
  moreover have "distinct (bucket d p)" "distinct (dynamic_routes d)"
    using bucket_inv [OF d] dispatch_invD(3) [OF d] by (auto intro: vec_ok_distinct)
  ultimately show ?thesis by (simp add: card_Un_disjoint distinct_card [symmetric] distinct_filter)
qed

lemma removeRoute_methods_count:
  assumes d: "dispatch_inv d"
  shows "fst (removeRoute_methods p ms d) = card {e \<in> entries d. rpattern e = p \<and> rmethods e = ms}"
proof -
  have "filter (\<lambda>e. rpattern e = p \<and> rmethods e = ms) (bucket d p) = filter (\<lambda>e. rmethods e = ms) (bucket d p)"
    using bucket_inv [OF d, of p] by (intro filter_cong) auto
  with count_pattern [OF d, of "\<lambda>e. rpattern e = p \<and> rmethods e = ms" p] show ?thesis
    by (simp add: removeRoute_methods_def bucket_def set_bucket_def split: option.splits)
qed

lemma removeRoute_pattern_count:
  assumes d: "dispatch_inv d"
  shows "fst (removeRoute_pattern p d) = card {e \<in> entries d. rpattern e = p}"
proof -
  have "filter (\<lambda>e. rpattern e = p) (bucket d p) = bucket d p"
    using bucket_inv [OF d, of p] by (auto simp: filter_id_conv)
  with count_pattern [OF d, of "\<lambda>e. rpattern e = p" p] show ?thesis
    by (simp add: removeRoute_pattern_def bucket_def split: option.splits)
qed

section \<open>Matching\<close>

text \<open>The routes that compete for a path: the exact ones of that path if there are any, else the
  dynamic ones whose matcher accepts it.\<close>

definition accepts :: "(bytes \<Rightarrow> bytes \<Rightarrow> bool) \<Rightarrow> bytes \<Rightarrow> 'c route_entry \<Rightarrow> bool" where
  "accepts fnm url e = (case rmatcher e of None \<Rightarrow> False | Some mt \<Rightarrow> MatchPath fnm mt url)"

definition competing :: "(bytes \<Rightarrow> bytes \<Rightarrow> bool) \<Rightarrow> 'c dispatcher \<Rightarrow> bytes \<Rightarrow> 'c route_entry set" where
  "competing fnm d url =
     (let exact = {e \<in> entries d. rkind e = Exact \<and> rpattern e = url} in
      if exact \<noteq> {} then exact else {e \<in> entries d. rkind e \<noteq> Exact \<and> accepts fnm url e})"

text \<open>What a result \<open>r\<close> says about a set of competing routes.\<close>

definition first_allowed :: "http_method \<Rightarrow> 'c route_entry set \<Rightarrow> 'c route_entry \<Rightarrow> bool" where
  "first_allowed meth H e \<longleftrightarrow> e \<in> H \<and> MethodAllowed (rmethods e) meth
     \<and> (\<forall>x\<in>H. MethodAllowed (rmethods x) meth \<longrightarrow> rid e \<le> rid x)"

definition methods_of :: "'c route_entry set \<Rightarrow> http_method set" where
  "methods_of H = {m. \<exists>e\<in>H. MethodAllowed (rmethods e) m}"

definition result_of :: "http_method \<Rightarrow> 'c route_entry set \<Rightarrow> 'c match_result \<Rightarrow> bool" where
  "result_of meth H r =
     (case mr_status r of
        Found \<Rightarrow> (\<exists>e. first_allowed meth H e \<and> mr_servlet r = rservlet e \<and> mr_allowed r = rmethods e)
      | PathFoundMethodNotAllowed \<Rightarrow> H \<noteq> {} \<and> meth \<notin> methods_of H
          \<and> {m. MethodAllowed (mr_allowed r) m} = methods_of H
      | NotFound \<Rightarrow> H = {})"

lemma match_exact_result:
  assumes "vec_ok es"
  shows "(mr_status (match_exact meth a es) = Found \<and>
          (\<exists>e. first_allowed meth (set es) e \<and> mr_servlet (match_exact meth a es) = rservlet e
             \<and> mr_allowed (match_exact meth a es) = rmethods e))
    \<or> (mr_status (match_exact meth a es) = PathFoundMethodNotAllowed \<and> meth \<notin> methods_of (set es)
       \<and> mr_servlet (match_exact meth a es) = None
       \<and> mr_allowed (match_exact meth a es) = fold (\<lambda>e c. c OR rmethods e) es a)"
  using assms
proof (induction es arbitrary: a)
  case Nil
  then show ?case by (simp add: methods_of_def)
next
  case (Cons e es)
  show ?case
  proof (cases "MethodAllowed (rmethods e) meth")
    case True
    have "first_allowed meth (set (e # es)) e"
      using Cons.prems True by (auto simp: first_allowed_def vec_ok_def intro: less_imp_le)
    with True show ?thesis by auto
  next
    case False
    have "first_allowed meth (set es) x \<Longrightarrow> first_allowed meth (set (e # es)) x" for x
      using False by (auto simp: first_allowed_def)
    moreover have "meth \<notin> methods_of (set es) \<Longrightarrow> meth \<notin> methods_of (set (e # es))"
      using False by (simp add: methods_of_def)
    moreover have "vec_ok es" using Cons.prems by (simp add: vec_ok_def)
    ultimately show ?thesis using Cons.IH [of "a OR rmethods e"] False by auto
  qed
qed

lemma fold_or_methods:
  "MethodAllowed (fold (\<lambda>e c. c OR rmethods e) es a) m \<longleftrightarrow> MethodAllowed a m \<or> m \<in> methods_of (set es)"
  by (induction es arbitrary: a) (auto simp: methods_of_def MethodAllowed_or)

lemma fold_or_zero:
  "fold (\<lambda>e c. c OR rmethods e) es a = 0 \<longleftrightarrow> a = 0 \<and> (\<forall>e\<in>set es. rmethods e = 0)"
  by (induction es arbitrary: a) (auto simp: or_eq_0_iff)

text \<open>The dynamic scan is the exact scan over the entries that accept the path.\<close>

lemma match_dynamic_exact:
  assumes "\<forall>e\<in>set es. rservlet e \<noteq> None"
  shows "fst (match_dynamic fnm url ctx a es) =
    (let r = match_exact (req_method (ctx_request ctx)) a (filter (accepts fnm url) es)
     in if mr_status r = PathFoundMethodNotAllowed \<and> mr_allowed r = 0 then r\<lparr>mr_status := NotFound\<rparr> else r)"
  using assms
proof (induction es arbitrary: a)
  case (Cons e es)
  show ?case
  proof (cases "rmatcher e")
    case None
    with Cons show ?thesis by (simp add: accepts_def)
  next
    case (Some mt)
    with Cons show ?thesis by (cases "MatchPath fnm mt url") (auto simp: accepts_def Let_def)
  qed
qed simp

lemma vec_ok_filter: "vec_ok es \<Longrightarrow> vec_ok (filter P es)"
  by (simp add: vec_ok_def sorted_wrt_filter)

lemma scan_result:
  assumes "vec_ok es" and "es \<noteq> []"
  shows "result_of meth (set es) (match_exact meth 0 es)"
proof -
  from match_exact_result [OF assms(1), of meth 0] show ?thesis
  proof (elim disjE conjE)
    assume "mr_allowed (match_exact meth 0 es) = fold (\<lambda>e c. c OR rmethods e) es 0"
    then have "{m. MethodAllowed (mr_allowed (match_exact meth 0 es)) m} = methods_of (set es)"
      by (simp add: fold_or_methods) (simp add: MethodAllowed_def)
    then show ?thesis if "mr_status (match_exact meth 0 es) = PathFoundMethodNotAllowed"
      "meth \<notin> methods_of (set es)"
      using that assms(2) by (simp add: result_of_def)
  qed (simp add: result_of_def)
qed

lemma competing_exact:
  assumes d: "dispatch_inv d" and "exact_routes d url = Some es"
  shows "competing fnm d url = set es"
proof -
  have "{e \<in> entries d. rkind e = Exact \<and> rpattern e = url} = set es"
  proof (intro set_eqI iffI)
    fix e assume "e \<in> {e \<in> entries d. rkind e = Exact \<and> rpattern e = url}"
    with entries_exact [OF d, of e] assms(2) show "e \<in> set es" by auto
  next
    fix e assume e: "e \<in> set es"
    with assms have "rpattern e = url" "rkind e = Exact" by (auto simp: dispatch_inv_def)
    with e in_bucket [OF assms(2)] show "e \<in> {e \<in> entries d. rkind e = Exact \<and> rpattern e = url}" by simp
  qed
  with dispatch_invD(2) [OF assms] show ?thesis by (simp add: competing_def)
qed

lemma competing_dynamic:
  assumes d: "dispatch_inv d" and "exact_routes d url = None"
  shows "competing fnm d url = set (filter (accepts fnm url) (dynamic_routes d))"
proof -
  have "{e \<in> entries d. rkind e = Exact \<and> rpattern e = url} = {}"
  proof -
    have False if "e \<in> entries d" "rkind e = Exact" "rpattern e = url" for e
      using that assms(2) entries_exact [OF d, of e] by simp
    then show ?thesis by blast
  qed
  moreover have "{e \<in> entries d. rkind e \<noteq> Exact \<and> accepts fnm url e}
      = set (filter (accepts fnm url) (dynamic_routes d))"
    using entries_dynamic [OF d] by auto
  ultimately show ?thesis by (simp add: competing_def)
qed

lemma match_dynamic_ctx:
  "snd (match_dynamic fnm url ctx a es) = ctx \<or> (\<exists>mt. snd (match_dynamic fnm url ctx a es) = snd (Match fnm mt ctx))"
  by (induction es arbitrary: a) (auto split: option.splits)

section \<open>Reachable dispatchers\<close>

text \<open>What any sequence of the public operations can produce, with fewer than \<open>2^64 - 1\<close> registrations.\<close>

inductive dispatch_reach :: "'c dispatcher \<Rightarrow> bool" where
  start: "dispatch_reach new_dispatcher"
| add: "dispatch_reach d \<Longrightarrow> next_route_id d \<noteq> - 1 \<Longrightarrow> dispatch_reach (snd (addRoute methods pattern svl d))"
| remove_id: "dispatch_reach d \<Longrightarrow> enumerates iter (exact_routes d) \<Longrightarrow> dispatch_reach (snd (removeRoute_id iter i d))"
| remove_methods: "dispatch_reach d \<Longrightarrow> dispatch_reach (snd (removeRoute_methods p ms d))"
| remove_pattern: "dispatch_reach d \<Longrightarrow> dispatch_reach (snd (removeRoute_pattern p d))"

lemma reach_inv: "dispatch_reach d \<Longrightarrow> dispatch_inv d"
  by (induction rule: dispatch_reach.induct)
    (simp_all add: inv_pres removeRoute_id_keep removeRoute_methods_keep removeRoute_pattern_keep)

definition sample_dispatcher :: "unit dispatcher" where
  "sample_dispatcher =
     snd (addRoute mask_Post ''/u/:id'' (Some StaticFileServlet)
       (snd (addRoute (mask_Get OR mask_Head) ''/u/*'' (Some HelloServlet)
         (snd (addRoute mask_Get ''/u/me'' (Some HelloServlet) new_dispatcher)))))"

lemma addRoute_finite:
  "finite (dom (exact_routes d)) \<Longrightarrow> finite (dom (exact_routes (snd (addRoute ms p s d))))"
  by (simp add: addRoute_def Let_def)

lemma sample_reach: "dispatch_reach sample_dispatcher"
proof -
  have id: "next_route_id (snd (addRoute ms p s d)) \<in> {next_route_id d, next_route_id d + 1}"
    for ms p s and d :: "unit dispatcher"
    by (auto simp: addRoute_def Let_def)
  have n: "next_route_id (new_dispatcher :: unit dispatcher) = 1" by (simp add: new_dispatcher_def)
  let ?d1 = "snd (addRoute mask_Get ''/u/me'' (Some HelloServlet) (new_dispatcher :: unit dispatcher))"
  let ?d2 = "snd (addRoute (mask_Get OR mask_Head) ''/u/*'' (Some HelloServlet) ?d1)"
  have i1: "next_route_id ?d1 \<in> {1, 2}" using id [of mask_Get "''/u/me''" "Some HelloServlet" new_dispatcher] n by auto
  have i2: "next_route_id ?d2 \<in> {1, 2, 3}" using id [of "mask_Get OR mask_Head" "''/u/*''" "Some HelloServlet" ?d1] i1 by auto
  have "dispatch_reach ?d1" using n by (intro dispatch_reach.add dispatch_reach.start) simp
  moreover have "next_route_id ?d1 \<noteq> - 1" "next_route_id ?d2 \<noteq> - 1" using i1 i2 by auto
  ultimately show ?thesis unfolding sample_dispatcher_def by (metis dispatch_reach.add)
qed

text \<open>The outcome of a match, for any reachable dispatcher.\<close>

lemma match_result_reach:
  assumes "dispatch_reach d"
  shows "result_of (req_method (ctx_request ctx)) (competing fnm d (req_path (ctx_request ctx)))
           (fst (dispatch_match fnm d ctx))
    \<and> (\<exists>ps. snd (dispatch_match fnm d ctx) = ctx\<lparr>ctx_request := (ctx_request ctx)\<lparr>req_route_params := ps\<rparr>\<rparr>)"
proof -
  let ?url = "req_path (ctx_request ctx)" and ?meth = "req_method (ctx_request ctx)"
  from assms have d: "dispatch_inv d" by (rule reach_inv)
  have id: "\<exists>ps. ctx = ctx\<lparr>ctx_request := (ctx_request ctx)\<lparr>req_route_params := ps\<rparr>\<rparr>"
    by (rule exI [of _ "req_route_params (ctx_request ctx)"]) simp
  show ?thesis
  proof (cases "exact_routes d ?url")
    case (Some es)
    with scan_result [of es ?meth] dispatch_invD(1,2) [OF d Some] competing_exact [OF d Some, of fnm] id
    show ?thesis by (simp add: dispatch_match_def Let_def)
  next
    case None
    let ?es = "filter (accepts fnm ?url) (dynamic_routes d)"
    have sv: "\<forall>e\<in>set (dynamic_routes d). rservlet e \<noteq> None \<and> rmethods e \<noteq> 0"
    proof
      fix e assume "e \<in> set (dynamic_routes d)"
      then have "entry_ok e" using dispatch_invD(5) [OF d] in_dynamic by blast
      then show "rservlet e \<noteq> None \<and> rmethods e \<noteq> 0" by (auto simp: entry_ok_def)
    qed
    have c: "competing fnm d ?url = set ?es" by (rule competing_dynamic [OF d None])
    have ctx: "\<exists>ps. snd (match_dynamic fnm ?url ctx 0 (dynamic_routes d))
        = ctx\<lparr>ctx_request := (ctx_request ctx)\<lparr>req_route_params := ps\<rparr>\<rparr>"
    proof -
      consider "snd (match_dynamic fnm ?url ctx 0 (dynamic_routes d)) = ctx"
        | mt where "snd (match_dynamic fnm ?url ctx 0 (dynamic_routes d)) = snd (Match fnm mt ctx)"
        using match_dynamic_ctx by blast
      then show ?thesis
      proof cases
        case 1
        show ?thesis unfolding 1 by (rule id)
      next
        case (2 mt)
        show ?thesis unfolding 2 by (rule rm.only_params)
      qed
    qed
    have "result_of ?meth (set ?es) (fst (match_dynamic fnm ?url ctx 0 (dynamic_routes d)))"
    proof (cases "?es = []")
      case True
      with sv show ?thesis by (subst match_dynamic_exact) (auto simp: result_of_def)
    next
      case False
      have v: "vec_ok ?es" using dispatch_invD(3) [OF d] by (rule vec_ok_filter)
      have "mr_allowed (match_exact ?meth 0 ?es) \<noteq> 0"
        if "mr_status (match_exact ?meth 0 ?es) = PathFoundMethodNotAllowed"
        using match_exact_result [OF v, of ?meth 0] that False sv
        by (auto simp: fold_or_zero filter_empty_conv)
      with scan_result [OF v False, of ?meth] sv show ?thesis
        by (subst match_dynamic_exact) (auto simp: Let_def)
    qed
    with None c ctx show ?thesis by (simp add: dispatch_match_def Let_def)
  qed
qed

section \<open>Properties\<close>

text \<open>C30. Whatever sequence of registrations and removals produced a dispatcher, matching a request picks
  the route registered first among those that compete for the path (the exact routes of the path
  if there is one, else the dynamic routes that accept it) and allow the method; it answers
  "method not allowed" exactly when routes compete but none allows the method, naming exactly the
  methods they allow, and "not found" exactly when none competes.\<close>

theorem match_first_registered:
  assumes "dispatch_reach d"
  shows "result_of (req_method (ctx_request ctx)) (competing fnm d (req_path (ctx_request ctx)))
           (fst (dispatch_match fnm d ctx))
    \<and> (\<exists>ps. snd (dispatch_match fnm d ctx) = ctx\<lparr>ctx_request := (ctx_request ctx)\<lparr>req_route_params := ps\<rparr>\<rparr>)"
  by (rule match_result_reach [OF assms])

theorem match_first_registered_witness:
  "result_of kPost (competing (\<lambda>_ _. True) sample_dispatcher ''/u/7'')
     (fst (dispatch_match (\<lambda>_ _. True) sample_dispatcher (sample_ctx kPost ''/u/7'')))"
  using match_first_registered [OF sample_reach, of "sample_ctx kPost ''/u/7''" "\<lambda>_ _. True"] by simp

text \<open>Removing by id, by pattern and methods, or by pattern removes exactly the routes asked for,
  reports whether and how many there were, and leaves every other route in place.\<close>

theorem removal_exact:
  assumes "dispatch_reach d" and "enumerates iter (exact_routes d)"
  shows "entries (snd (removeRoute_id iter i d)) = {e \<in> entries d. rid e \<noteq> i}
    \<and> fst (removeRoute_id iter i d) = (\<exists>e\<in>entries d. rid e = i)
    \<and> entries (snd (removeRoute_methods p ms d)) = {e \<in> entries d. \<not> (rpattern e = p \<and> rmethods e = ms)}
    \<and> fst (removeRoute_methods p ms d) = card {e \<in> entries d. rpattern e = p \<and> rmethods e = ms}
    \<and> entries (snd (removeRoute_pattern p d)) = {e \<in> entries d. rpattern e \<noteq> p}
    \<and> fst (removeRoute_pattern p d) = card {e \<in> entries d. rpattern e = p}"
proof -
  from assms(1) have d: "dispatch_inv d" by (rule reach_inv)
  show ?thesis
    unfolding removeRoute_id_keep [OF d assms(2)] removeRoute_methods_keep [OF d] removeRoute_pattern_keep [OF d]
      removeRoute_methods_count [OF d] removeRoute_pattern_count [OF d]
    by (auto simp: entries_keep)
qed

theorem removal_exact_witness:
  "fst (removeRoute_pattern ''/u/:id'' sample_dispatcher) = card {e \<in> entries sample_dispatcher. rpattern e = ''/u/:id''}"
proof -
  have fin: "finite (dom (exact_routes sample_dispatcher))"
    unfolding sample_dispatcher_def by (intro addRoute_finite) (simp add: new_dispatcher_def)
  then obtain kvs where "map_of kvs = exact_routes sample_dispatcher" "distinct (map fst kvs)"
    using finite_enumeration by metis
  then have "enumerates (\<lambda>_. kvs) (exact_routes sample_dispatcher)" by (simp add: enumerates_def)
  from removal_exact [OF sample_reach this, of 0 "''/u/:id''" 0] show ?thesis by simp
qed

text \<open>A registration is accepted exactly when pattern, servlet and method mask are valid and no
  registered route of that pattern shares a method with it; it then adds one route under a fresh
  id, and a refused one changes nothing.\<close>

theorem addRoute_outcome:
  assumes "dispatch_reach d" and "next_route_id d \<noteq> - 1"
  shows "rr_status (fst (addRoute methods pattern svl d)) =
      (if \<not> valid_registration methods pattern svl then RouteInvalidArgument
       else if registered_conflict methods pattern d then RouteConflict else RouteOk)
    \<and> (rr_status (fst (addRoute methods pattern svl d)) = RouteOk \<longrightarrow>
        entries (snd (addRoute methods pattern svl d)) = insert (make_entry methods pattern svl d) (entries d)
        \<and> rr_id (fst (addRoute methods pattern svl d)) = rid (make_entry methods pattern svl d)
        \<and> rid (make_entry methods pattern svl d) \<notin> rid ` entries d)
    \<and> (rr_status (fst (addRoute methods pattern svl d)) \<noteq> RouteOk \<longrightarrow>
        snd (addRoute methods pattern svl d) = d \<and> rr_id (fst (addRoute methods pattern svl d)) = 0)"
proof -
  from assms(1) have d: "dispatch_inv d" by (rule reach_inv)
  have fresh: "next_route_id d \<notin> rid ` entries d" using dispatch_invD(7) [OF d] by (metis imageE less_irrefl)
  have rid: "rid (make_entry methods pattern svl d) = next_route_id d" by (simp add: make_entry_def new_entry_def)
  show ?thesis
  proof (cases "valid_registration methods pattern svl")
    case False
    then have "rr_id (fst (addRoute methods pattern svl d)) = 0"
      by (auto simp: addRoute_def valid_registration_def invalid_route_def)
    with addRoute_refused(1) [OF d False] False show ?thesis by simp
  next
    case True
    show ?thesis
    proof (cases "registered_conflict methods pattern d")
      case c: True
      with addRoute_refused(2) [OF d True] True show ?thesis by (simp add: conflict_route_def)
    next
      case nc: False
      with addRoute_accepted(1) [OF d True] addRoute_entries [OF d True] fresh rid True show ?thesis by simp
    qed
  qed
qed

theorem addRoute_outcome_witness:
  "rr_status (fst (addRoute mask_Get ''/u/me'' (Some HelloServlet) (new_dispatcher :: unit dispatcher))) = RouteOk"
proof -
  have "next_route_id (new_dispatcher :: unit dispatcher) \<noteq> - 1" by (simp add: new_dispatcher_def)
  from addRoute_outcome [OF dispatch_reach.start this, of mask_Get "''/u/me''" "Some HelloServlet"]
  have "rr_status (fst (addRoute mask_Get ''/u/me'' (Some HelloServlet) (new_dispatcher :: unit dispatcher))) =
      (if \<not> valid_registration mask_Get ''/u/me'' (Some HelloServlet :: unit servlet option) then RouteInvalidArgument
       else if registered_conflict mask_Get ''/u/me'' (new_dispatcher :: unit dispatcher) then RouteConflict else RouteOk)"
    by blast
  then show ?thesis
    by (simp add: valid_registration_def registered_conflict_def entries_def) (simp add: new_dispatcher_def)
qed

fun join :: "bytes \<Rightarrow> bytes list \<Rightarrow> bytes" where
  "join sep [] = []"
| "join sep [x] = x"
| "join sep (x # y # xs) = x @ sep @ join sep (y # xs)"

lemma join_snoc: "join sep (xs @ [x]) = (if xs = [] then x else join sep xs @ sep @ x)"
  by (induction sep xs rule: join.induct) auto

definition all_methods :: "http_method list" where
  "all_methods = [kGet, kPost, kHead, kPut, kDelete]"

lemma join_nonempty: "\<forall>x\<in>set xs. x \<noteq> [] \<Longrightarrow> join sep xs = [] \<longleftrightarrow> xs = []"
  by (induction sep xs rule: join.induct) auto

lemma allow_append_join:
  "\<forall>x\<in>set xs. x \<noteq> [] \<Longrightarrow> allow_append m (join '', '' xs) = join '', '' (xs @ [m])"
  by (auto simp: allow_append_def join_snoc join_nonempty)

lemma allow_fold:
  assumes "\<forall>x\<in>set xs. x \<noteq> []" "\<forall>m\<in>set ms. m \<noteq> kInvaild"
  shows "fold (\<lambda>(bit, name) allow. if a AND bit \<noteq> 0 then allow_append name allow else allow)
      (map (\<lambda>m. (ToMethodMask m, Method_toString m)) ms) (join '', '' xs)
    = join '', '' (xs @ map Method_toString (filter (MethodAllowed a) ms))"
  using assms
proof (induction ms arbitrary: xs)
  case (Cons m ms)
  have "ToMethodMask m \<noteq> 0" "Method_toString m \<noteq> []" using Cons.prems by (cases m; simp)+
  with Cons show ?case by (auto simp: allow_append_join MethodAllowed_def)
qed simp

lemma BuildAllowHeader_join:
  "BuildAllowHeader a = join '', '' (map Method_toString (filter (MethodAllowed a) all_methods))"
  using allow_fold [of "[]" all_methods a] by (simp add: BuildAllowHeader_def all_methods_def)

text \<open>A request whose path has routes but none for its method is answered, without running any
  servlet, by status 405 with an Allow header that lists, comma separated and in a fixed order,
  exactly the methods those routes accept, and an announced empty body.\<close>

theorem method_not_allowed_answer:
  assumes "dispatch_reach d" and "H = competing fnm d (req_path (ctx_request ctx))"
    and "H \<noteq> {}" and "req_method (ctx_request ctx) \<notin> methods_of H"
  shows "fst (dispatch_handle fnm files d conn ctx) = conn
    \<and> (\<exists>resp. ctx_response (snd (dispatch_handle fnm files d conn ctx)) = resp
        \<and> resp_state_code resp = 405 \<and> resp_version resp = kHttp11
        \<and> resp_getHeader resp ''Allow'' = join '', '' (map Method_toString (filter (\<lambda>m. m \<in> methods_of H) all_methods))
        \<and> resp_getHeader resp ''Content-Length'' = ''0''
        \<and> resp_body resp = resp_body (ctx_response ctx))"
proof -
  obtain r ctx' where m: "dispatch_match fnm d ctx = (r, ctx')" by fastforce
  from match_result_reach [OF assms(1), of ctx fnm] m assms
  have "mr_status r = PathFoundMethodNotAllowed" and A: "{m. MethodAllowed (mr_allowed r) m} = methods_of H"
    and same: "ctx_response ctx' = ctx_response ctx"
    by (auto simp: result_of_def first_allowed_def methods_of_def split: match_status.splits)
  moreover have "filter (MethodAllowed (mr_allowed r)) all_methods = filter (\<lambda>m. m \<in> methods_of H) all_methods"
    unfolding A [symmetric] by simp
  ultimately show ?thesis using m
    by (simp add: dispatch_handle_def MethodNotAllowed_response_def resp_addHeader_def resp_getHeader_def
        lookup_or_empty_def BuildAllowHeader_join)
qed

lemma one_route:
  defines "d \<equiv> snd (addRoute mask_Get ''/u/me'' (Some HelloServlet) (new_dispatcher :: unit dispatcher))"
  shows "dispatch_reach d"
    and "competing fnm d ''/u/me'' = {make_entry mask_Get ''/u/me'' (Some HelloServlet) new_dispatcher}"
proof -
  let ?n = "new_dispatcher :: unit dispatcher"
  have v: "valid_registration mask_Get ''/u/me'' (Some HelloServlet :: unit servlet option)"
    and c: "\<not> registered_conflict mask_Get ''/u/me'' ?n"
    by (simp_all add: valid_registration_def registered_conflict_def entries_def) (simp add: new_dispatcher_def)
  have k: "routeKind ''/u/me'' = Exact" by code_simp
  have n: "next_route_id ?n \<noteq> - 1" by (simp add: new_dispatcher_def)
  then show r: "dispatch_reach d" unfolding d_def by (intro dispatch_reach.add dispatch_reach.start)
  have "exact_routes d ''/u/me'' = Some [make_entry mask_Get ''/u/me'' (Some HelloServlet) ?n]"
    using addRoute_accepted(2) [OF new_dispatcher_inv v c] k
    by (simp add: d_def bucket_def) (simp add: new_dispatcher_def)
  from competing_exact [OF reach_inv [OF r] this]
  show "competing fnm d ''/u/me'' = {make_entry mask_Get ''/u/me'' (Some HelloServlet) ?n}" by simp
qed

theorem method_not_allowed_answer_witness:
  "resp_getHeader (ctx_response (snd (dispatch_handle (\<lambda>_ _. False) (\<lambda>_. None)
       (snd (addRoute mask_Get ''/u/me'' (Some HelloServlet) (new_dispatcher :: unit dispatcher))) ()
       (sample_ctx kPost ''/u/me'')))) ''Allow'' = ''GET''"
proof -
  let ?d = "snd (addRoute mask_Get ''/u/me'' (Some HelloServlet) (new_dispatcher :: unit dispatcher))"
  let ?H = "competing (\<lambda>_ _. False) ?d ''/u/me''"
  have "methods_of ?H = {m. MethodAllowed mask_Get m}"
    unfolding one_route(2) by (simp add: methods_of_def make_entry_def new_entry_def)
  moreover have "filter (MethodAllowed mask_Get) all_methods = [kGet]" by code_simp
  moreover have "\<not> MethodAllowed mask_Get kPost" by code_simp
  ultimately have H: "?H \<noteq> {}" "kPost \<notin> methods_of ?H"
    "filter (\<lambda>m. m \<in> methods_of ?H) all_methods = [kGet]"
    using one_route(2) [of "\<lambda>_ _. False"] by auto
  from method_not_allowed_answer [OF one_route(1) _ H(1), where ctx = "sample_ctx kPost ''/u/me''" and files = "\<lambda>_. None" and conn = "()"] H
  show ?thesis by simp
qed

text \<open>Queries.\<close>

lemma iter_entries:
  assumes "enumerates iter (exact_routes d)"
  shows "entries d = set (concat (map snd (iter (exact_routes d)))) \<union> set (dynamic_routes d)"
proof -
  have "(\<Union>es\<in>ran (exact_routes d). set es) = (\<Union>kv\<in>set (iter (exact_routes d)). set (snd kv))"
    using enumerates_iff [OF assms] by (force simp: ran_def)
  then show ?thesis by (auto simp: entries_def)
qed

lemma find_SomeD: "find P xs = Some x \<Longrightarrow> x \<in> set xs \<and> P x"
  by (auto simp: find_Some_iff in_set_conv_nth)

lemma find_NoneD: "find P xs = None \<Longrightarrow> x \<in> set xs \<Longrightarrow> \<not> P x"
  by (auto simp: find_None_iff)

text \<open>The queries agree with the table: looking a route up by id returns its snapshot exactly when
  it is registered, and otherwise the snapshot with id 0 that no route has; the listing holds the
  snapshots of all routes, and the listing of a pattern those of that pattern.\<close>

theorem queries_agree:
  assumes "dispatch_reach d" and "enumerates iter (exact_routes d)"
  shows "(\<forall>e\<in>entries d. getRoute iter (rid e) d = info_of e \<and> ri_id (getRoute iter (rid e) d) \<noteq> 0)
    \<and> (i \<notin> rid ` entries d \<longrightarrow> getRoute iter i d = no_info)
    \<and> set (listRoutes iter d) = info_of ` entries d
    \<and> set (listRoutes_pattern p d) = info_of ` {e \<in> entries d. rpattern e = p}"
proof (intro conjI ballI impI)
  from assms(1) have d: "dispatch_inv d" by (rule reach_inv)
  note ents = iter_entries [OF assms(2)]
  let ?xs = "concat (map snd (iter (exact_routes d)))"
  show none: "getRoute iter i d = no_info" if "i \<notin> rid ` entries d" for i
  proof -
    have "find (\<lambda>e. rid e = i) ?xs = None" "find (\<lambda>e. rid e = i) (dynamic_routes d) = None"
      using that unfolding ents by (auto simp: find_None_iff)
    then show ?thesis by (simp add: getRoute_def)
  qed
  fix e assume e: "e \<in> entries d"
  have uniq: "x = e" if "x \<in> entries d" "rid x = rid e" for x
    using dispatch_invD(4) [OF d] that e by (auto dest: inj_onD)
  show g: "getRoute iter (rid e) d = info_of e"
  proof (cases "find (\<lambda>x. rid x = rid e) ?xs")
    case (Some x)
    then have "x \<in> entries d" "rid x = rid e" using find_SomeD [OF Some] unfolding ents by auto
    then have "x = e" by (rule uniq)
    with Some show ?thesis by (simp add: getRoute_def)
  next
    case None
    then have "e \<in> set (dynamic_routes d)" using find_NoneD [OF None, of e] e unfolding ents by auto
    then obtain x where x: "find (\<lambda>x. rid x = rid e) (dynamic_routes d) = Some x"
      by (cases "find (\<lambda>x. rid x = rid e) (dynamic_routes d)") (auto simp: find_None_iff)
    then have "x \<in> entries d" "rid x = rid e" using find_SomeD [OF x] unfolding ents by auto
    then have "x = e" by (rule uniq)
    with None x show ?thesis by (simp add: getRoute_def)
  qed
  show "ri_id (getRoute iter (rid e) d) \<noteq> 0"
    using g dispatch_invD(6) [OF d e] by (simp add: info_of_def)
next
  from assms(1) have d: "dispatch_inv d" by (rule reach_inv)
  show "set (listRoutes iter d) = info_of ` entries d"
    unfolding iter_entries [OF assms(2)] by (auto simp: listRoutes_def)
  have "{e \<in> entries d. rpattern e = p} = set (bucket d p) \<union> {e \<in> set (dynamic_routes d). rpattern e = p}"
  proof (intro set_eqI iffI)
    fix e assume e: "e \<in> {e \<in> entries d. rpattern e = p}"
    show "e \<in> set (bucket d p) \<union> {e \<in> set (dynamic_routes d). rpattern e = p}"
      using e entries_exact [OF d, of e] entries_dynamic [OF d, of e] by (cases "rkind e = Exact") (auto simp: bucket_def)
  qed (use bucket_inv [OF d] in_dynamic in auto)
  then show "set (listRoutes_pattern p d) = info_of ` {e \<in> entries d. rpattern e = p}"
    by (auto simp: listRoutes_pattern_def)
qed

theorem queries_agree_witness: "\<exists>iter. \<forall>e\<in>entries sample_dispatcher. getRoute iter (rid e) sample_dispatcher = info_of e"
proof -
  have "finite (dom (exact_routes sample_dispatcher))"
    unfolding sample_dispatcher_def by (intro addRoute_finite) (simp add: new_dispatcher_def)
  then obtain kvs where "map_of kvs = exact_routes sample_dispatcher" "distinct (map fst kvs)"
    using finite_enumeration by metis
  then have "enumerates (\<lambda>_. kvs) (exact_routes sample_dispatcher)" by (simp add: enumerates_def)
  from queries_agree [OF sample_reach this] show ?thesis by blast
qed

text \<open>A colon inside a segment is no parameter for the classification of a pattern but is one for the
  regular expression built from it.\<close>

text \<open>In a parameterised pattern a colon inside a segment also starts a parameter: a segment
  \<^verbatim>\<open>a:b\<close>, which by itself makes a pattern exact, then accepts \<open>a\<close> followed by any non-empty
  slash-free text in place of the literal colon and \<open>b\<close>.\<close>

theorem inner_colon_is_parameter:
  assumes "segment v" and "segment w"
  shows "routeKind ''/a:b'' = Exact \<and> routeKind ''/a:b/:id'' = Regex
    \<and> (\<exists>m. createMatcher Regex ''/a:b/:id'' = Some m \<and> MatchPath fnm m (''/a'' @ v @ ''/'' @ w))"
proof -
  have parts: "pattern_parts ''/a:b/:id'' =
      [Lit (CHR ''/''), Lit (CHR ''a''), Par ''b'', Lit (CHR ''/''), Par ''id'']" by code_simp
  have "fill (pattern_parts ''/a:b/:id'') [v, w] = Some (''/a'' @ v @ ''/'' @ w)" by (simp add: parts)
  moreover have "list_all segment [v, w]" using assms by simp
  ultimately have "\<exists>m. createMatcher Regex ''/a:b/:id'' = Some m \<and> MatchPath fnm m (''/a'' @ v @ ''/'' @ w)"
    using MatchPath_regex [OF new_regex_matcher_eq] new_regex_matcher_eq by (metis createMatcher.simps(1))
  moreover have "routeKind ''/a:b'' = Exact" "routeKind ''/a:b/:id'' = Regex" by code_simp+
  ultimately show ?thesis by simp
qed

theorem inner_colon_is_parameter_witness:
  "\<exists>m. createMatcher Regex ''/a:b/:id'' = Some m \<and> MatchPath (\<lambda>_ _. False) m ''/aX/7''"
proof -
  have "segment ''X''" "segment ''7''" by code_simp+
  from inner_colon_is_parameter [OF this, of "\<lambda>_ _. False"] show ?thesis by simp
qed

end
