(* ===== verification/LlParser.thy ===== *)
theory LlParser
  imports HttpCtx
begin

text \<open>
  \<^verbatim>\<open>LLhttpParser\<close> (src/net/http/http_llhttp_parser.cpp, include/net/http/http_parser.h) and the parse
  entry points of \<^verbatim>\<open>HttpContext\<close> (src/net/http/http_context.cpp). The vendored llhttp is a
  parameter: a function from its state and the bytes it is given to its new state, the callbacks it
  makes (\<open>ll_event\<close>, in order), its error number and the offset of its error position. The callbacks,
  the URL decoding and the treatment of the outcome are the code's.
\<close>

section \<open>URL decoding\<close>

definition char_nat :: "char \<Rightarrow> nat" where
  "char_nat c = of_char c"

definition IsHexDigit :: "char \<Rightarrow> bool" where
  "IsHexDigit ch \<longleftrightarrow> (48 \<le> char_nat ch \<and> char_nat ch \<le> 57)
     \<or> (97 \<le> char_nat ch \<and> char_nat ch \<le> 102) \<or> (65 \<le> char_nat ch \<and> char_nat ch \<le> 70)"

definition HexToInt :: "char \<Rightarrow> nat" where
  "HexToInt ch =
     (if 48 \<le> char_nat ch \<and> char_nat ch \<le> 57 then char_nat ch - 48
      else if 97 \<le> char_nat ch \<and> char_nat ch \<le> 102 then char_nat ch - 97 + 10
      else if 65 \<le> char_nat ch \<and> char_nat ch \<le> 70 then char_nat ch - 65 + 10
      else 0)"

definition decode_plain :: "char \<Rightarrow> char" where
  "decode_plain c = (if c = CHR ''+'' then CHR '' '' else c)"

fun UrlDecode :: "bytes \<Rightarrow> bytes" where
  "UrlDecode (c # a # b # s) =
     (if c = CHR ''%'' \<and> IsHexDigit a \<and> IsHexDigit b
      then char_of (HexToInt a * 16 + HexToInt b) # UrlDecode s
      else decode_plain c # UrlDecode (a # b # s))"
| "UrlDecode (c # s) = decode_plain c # UrlDecode s"
| "UrlDecode [] = []"

text \<open>One part of a query string, between two ampersands.\<close>

definition add_query_part :: "bytes \<Rightarrow> http_request \<Rightarrow> http_request" where
  "add_query_part part req =
     (if part = [] then req
      else let raw_key = takeWhile (\<lambda>c. c \<noteq> CHR ''='') part;
               val = drop (length raw_key + 1) part;
               key = UrlDecode raw_key
           in if key \<noteq> [] then addQureyParam key (UrlDecode val) req else req)"

function parseQueryParams :: "bytes \<Rightarrow> http_request \<Rightarrow> http_request" where
  "parseQueryParams query req =
     (let part = takeWhile (\<lambda>c. c \<noteq> CHR ''&'') query;
          req' = add_query_part part req
      in if length part = length query then req'
         else parseQueryParams (drop (length part + 1) query) req')"
  by pat_completeness auto
termination
proof (relation "measure (\<lambda>(q, r). length q)")
  show "((drop (length part + 1) query, r'), (query, r)) \<in> measure (\<lambda>(q, r). length q)"
    if "part = takeWhile (\<lambda>c. c \<noteq> CHR ''&'') query" "length part \<noteq> length query"
    for query part :: bytes and r r' :: http_request
    using that by (cases query) auto
qed simp

declare parseQueryParams.simps [simp del]

definition parseUrl :: "bytes \<Rightarrow> http_request \<Rightarrow> http_request" where
  "parseUrl url req =
     (case search ''?'' url of
        Some query_pos \<Rightarrow> parseQueryParams (drop (query_pos + 1) url) (req\<lparr>req_path := take query_pos url\<rparr>)
      | None \<Rightarrow> req\<lparr>req_path := url\<rparr>)"

section \<open>Callbacks\<close>

datatype ll_event =
    OnMethod bytes
  | OnStatus int        \<comment> \<open>with the status code llhttp holds\<close>
  | OnStatusComplete
  | OnUrl bytes
  | OnUrlComplete
  | OnVersion bytes
  | OnHeaderField bytes
  | OnHeaderValue bytes
  | OnHeadersComplete
  | OnBody bytes
  | OnMessageComplete

record header_context =
  cur_header :: bytes
  hc_url :: bytes
  hc_headers :: header_map

definition new_header_context :: header_context where
  "new_header_context = \<lparr>cur_header = [], hc_url = [], hc_headers = Map.empty\<rparr>"

record 's ll_parser =
  lp_type :: parser_type
  lp_llhttp :: 's
  lp_hctx :: header_context
  lp_paused :: bool
  lp_ctx :: http_context

definition new_ll_parser :: "'s \<Rightarrow> http_context \<Rightarrow> 's ll_parser" where
  "new_ll_parser s ctx =
     \<lparr>lp_type = ReqType, lp_llhttp = s, lp_hctx = new_header_context, lp_paused = False, lp_ctx = ctx\<rparr>"

definition upd_req :: "(http_request \<Rightarrow> http_request) \<Rightarrow> 's ll_parser \<Rightarrow> 's ll_parser" where
  "upd_req f p = p\<lparr>lp_ctx := (lp_ctx p)\<lparr>ctx_request := f (ctx_request (lp_ctx p))\<rparr>\<rparr>"

definition upd_resp :: "(http_response \<Rightarrow> http_response) \<Rightarrow> 's ll_parser \<Rightarrow> 's ll_parser" where
  "upd_resp f p = p\<lparr>lp_ctx := (lp_ctx p)\<lparr>ctx_response := f (ctx_response (lp_ctx p))\<rparr>\<rparr>"

definition set_state :: "parse_state \<Rightarrow> 's ll_parser \<Rightarrow> 's ll_parser" where
  "set_state st p = p\<lparr>lp_ctx := (lp_ctx p)\<lparr>ctx_state := st\<rparr>\<rparr>"

lemmas upd_defs = upd_req_def upd_resp_def set_state_def

definition onMethod :: "bytes \<Rightarrow> 's ll_parser \<Rightarrow> 's ll_parser" where
  "onMethod d p = upd_req (\<lambda>r. r\<lparr>req_method := Method_FromString d\<rparr>) p"

definition onStatus :: "int \<Rightarrow> 's ll_parser \<Rightarrow> 's ll_parser" where
  "onStatus code p = upd_resp (\<lambda>r. r\<lparr>resp_state_code := code\<rparr>) p"

definition onStatusComplete :: "'s ll_parser \<Rightarrow> 's ll_parser" where
  "onStatusComplete p = (if lp_type p = RespType then set_state kExpectHeaders p else p)"

definition onUrl :: "bytes \<Rightarrow> 's ll_parser \<Rightarrow> 's ll_parser" where
  "onUrl d p = p\<lparr>lp_hctx := (lp_hctx p)\<lparr>hc_url := hc_url (lp_hctx p) @ d\<rparr>\<rparr>"

definition onUrlComplete :: "'s ll_parser \<Rightarrow> 's ll_parser" where
  "onUrlComplete p = upd_req (parseUrl (hc_url (lp_hctx p))) p"

definition onVersion :: "bytes \<Rightarrow> 's ll_parser \<Rightarrow> 's ll_parser" where
  "onVersion d p =
     (if lp_type p = ReqType
      then upd_req (\<lambda>r. r\<lparr>req_version := Version_FromString (''HTTP/'' @ d)\<rparr>) p
      else upd_resp (\<lambda>r. r\<lparr>resp_version := Version_FromString (''HTTP/'' @ d)\<rparr>) p)"

definition onHeaderField :: "bytes \<Rightarrow> 's ll_parser \<Rightarrow> 's ll_parser" where
  "onHeaderField d p = p\<lparr>lp_hctx := (lp_hctx p)\<lparr>cur_header := d\<rparr>\<rparr>"

definition onHeaderValue :: "bytes \<Rightarrow> 's ll_parser \<Rightarrow> 's ll_parser" where
  "onHeaderValue d p =
     (let ctx = lp_hctx p; k = cur_header ctx in
      if k \<noteq> [] then p\<lparr>lp_hctx := ctx\<lparr>hc_headers := (hc_headers ctx)(k \<mapsto> lookup_or_empty (hc_headers ctx) k @ d)\<rparr>\<rparr>
      else p)"

definition onHeadersComplete :: "'s ll_parser \<Rightarrow> 's ll_parser" where
  "onHeadersComplete p =
     set_state kExpectBody
       (if lp_type p = ReqType then upd_req (\<lambda>r. r\<lparr>req_headers := hc_headers (lp_hctx p)\<rparr>) p
        else upd_resp (\<lambda>r. r\<lparr>resp_headers := hc_headers (lp_hctx p)\<rparr>) p)"

definition body_type :: "bytes \<Rightarrow> content_type" where
  "body_type s = (if s = [] then kOctetStream else ContentType_FromString s)"

definition onBody :: "bytes \<Rightarrow> 's ll_parser \<Rightarrow> 's ll_parser" where
  "onBody d p =
     (if lp_type p = ReqType
      then upd_req (\<lambda>r. req_append_body d (req_set_type (body_type (req_getHeader r ''Content-Type'')) r)) p
      else upd_resp (\<lambda>r. resp_append_body d (resp_set_type (body_type (resp_getHeader r ''Content-Type'')) r)) p)"

definition onMessageComplete :: "'s ll_parser \<Rightarrow> 's ll_parser" where
  "onMessageComplete p = set_state kGotAll (p\<lparr>lp_hctx := new_header_context\<rparr>)"

fun on_event :: "ll_event \<Rightarrow> 's ll_parser \<Rightarrow> 's ll_parser" where
  "on_event (OnMethod d) p = onMethod d p"
| "on_event (OnStatus code) p = onStatus code p"
| "on_event OnStatusComplete p = onStatusComplete p"
| "on_event (OnUrl d) p = onUrl d p"
| "on_event OnUrlComplete p = onUrlComplete p"
| "on_event (OnVersion d) p = onVersion d p"
| "on_event (OnHeaderField d) p = onHeaderField d p"
| "on_event (OnHeaderValue d) p = onHeaderValue d p"
| "on_event OnHeadersComplete p = onHeadersComplete p"
| "on_event (OnBody d) p = onBody d p"
| "on_event OnMessageComplete p = onMessageComplete p"

section \<open>Parsing a buffer\<close>

datatype ll_errno = HPE_OK | HPE_PAUSED | HPE_PAUSED_UPGRADE | HPE_ERROR

text \<open>llhttp as the code calls it. The error position is an offset from the data it was last given,
  \<^const>\<open>None\<close> for a null pointer.\<close>

record 's llhttp =
  ll_execute :: "'s \<Rightarrow> bytes \<Rightarrow> 's \<times> ll_event list \<times> ll_errno \<times> int option"
  ll_resume :: "'s \<Rightarrow> 's"

definition consumed_len :: "int option \<Rightarrow> nat \<Rightarrow> nat" where
  "consumed_len err_pos len =
     (case err_pos of Some pos \<Rightarrow> if 0 \<le> pos \<and> pos \<le> int len then nat pos else len | None \<Rightarrow> len)"

definition ll_parse :: "'s llhttp \<Rightarrow> 's ll_parser \<Rightarrow> byte_buffer \<Rightarrow> bool \<times> 's ll_parser \<times> byte_buffer" where
  "ll_parse L p buf =
     (let data = contents buf; len = readableBytes buf;
          p1 = (if lp_paused p then p\<lparr>lp_paused := False, lp_llhttp := ll_resume L (lp_llhttp p)\<rparr> else p);
          (s, events, err, err_pos) = ll_execute L (lp_llhttp p1) data;
          p2 = fold on_event events (p1\<lparr>lp_llhttp := s\<rparr>);
          n = consumed_len err_pos len
      in case err of
           HPE_OK \<Rightarrow> (True, p2, reset n buf)
         | HPE_PAUSED \<Rightarrow> (True, p2\<lparr>lp_paused := True\<rparr>, reset n buf)
         | HPE_PAUSED_UPGRADE \<Rightarrow> (True, p2\<lparr>lp_paused := True\<rparr>, reset n buf)
         | HPE_ERROR \<Rightarrow> (False, p2, reset n buf))"

definition ll_parse_string :: "'s llhttp \<Rightarrow> 's ll_parser \<Rightarrow> bytes \<Rightarrow> bool \<times> 's ll_parser \<times> byte_buffer" where
  "ll_parse_string L p data = ll_parse L p (buf_append data (mk_buffer kInitSize))"

text \<open>The entry points of \<^verbatim>\<open>HttpContext\<close>, which stamp the message with the receive time.\<close>

definition parseRequest :: "'s llhttp \<Rightarrow> int \<Rightarrow> 's ll_parser \<Rightarrow> byte_buffer \<Rightarrow> bool \<times> 's ll_parser \<times> byte_buffer" where
  "parseRequest L receiveTime p buf =
     (case ll_parse L (p\<lparr>lp_type := ReqType\<rparr>) buf of
        (ok, p', buf') \<Rightarrow> (ok, if ok then upd_req (\<lambda>r. r\<lparr>req_receive_time := receiveTime\<rparr>) p' else p', buf'))"

definition parseResponse :: "'s llhttp \<Rightarrow> int \<Rightarrow> 's ll_parser \<Rightarrow> byte_buffer \<Rightarrow> bool \<times> 's ll_parser \<times> byte_buffer" where
  "parseResponse L receiveTime p buf =
     (case ll_parse L (p\<lparr>lp_type := RespType\<rparr>) buf of
        (ok, p', buf') \<Rightarrow> (ok, if ok then upd_resp (\<lambda>r. r\<lparr>resp_receive_time := receiveTime\<rparr>) p' else p', buf'))"

section \<open>Decoding undoes encoding\<close>

definition hex_digit :: "nat \<Rightarrow> char" where
  "hex_digit n = (if n < 10 then char_of (48 + n) else char_of (55 + n))"

definition encode_char :: "char \<Rightarrow> bytes" where
  "encode_char c = [CHR ''%'', hex_digit (char_nat c div 16), hex_digit (char_nat c mod 16)]"

definition UrlEncode :: "bytes \<Rightarrow> bytes" where
  "UrlEncode s = concat (map encode_char s)"

lemma char_nat_less: "char_nat c < 256"
  by (simp add: char_nat_def)

lemma hex_digit_nat: "n < 16 \<Longrightarrow> char_nat (hex_digit n) = (if n < 10 then 48 + n else 55 + n)"
  by (simp add: hex_digit_def char_nat_def)

lemma hex_digit_ok: "n < 16 \<Longrightarrow> IsHexDigit (hex_digit n) \<and> HexToInt (hex_digit n) = n"
  by (auto simp: IsHexDigit_def HexToInt_def hex_digit_nat)

lemma UrlDecode_char: "UrlDecode (encode_char c @ s) = c # UrlDecode s"
proof -
  have d: "char_nat c div 16 < 16" using char_nat_less [of c] by (simp add: less_mult_imp_div_less)
  have "char_of (char_nat c div 16 * 16 + char_nat c mod 16) = c" by (simp add: char_nat_def)
  with hex_digit_ok [OF d] hex_digit_ok [of "char_nat c mod 16"] show ?thesis by (simp add: encode_char_def)
qed

lemma UrlDecode_UrlEncode: "UrlDecode (UrlEncode s) = s"
proof (induction s)
  case (Cons c s)
  have "UrlEncode (c # s) = encode_char c @ UrlEncode s" by (simp add: UrlEncode_def)
  with Cons show ?case by (simp add: UrlDecode_char)
qed (simp add: UrlEncode_def)

lemma UrlEncode_Nil_iff: "UrlEncode s = [] \<longleftrightarrow> s = []"
  by (cases s) (simp_all add: UrlEncode_def encode_char_def)

lemma encode_char_set: "x \<in> set (encode_char c) \<Longrightarrow> x = CHR ''%'' \<or> IsHexDigit x"
proof -
  have "char_nat c div 16 < 16" using char_nat_less [of c] by (simp add: less_mult_imp_div_less)
  then show "x \<in> set (encode_char c) \<Longrightarrow> x = CHR ''%'' \<or> IsHexDigit x"
    using hex_digit_ok [of "char_nat c div 16"] hex_digit_ok [of "char_nat c mod 16"] by (auto simp: encode_char_def)
qed

lemma UrlEncode_set: "x \<in> set (UrlEncode s) \<Longrightarrow> x \<noteq> CHR ''&'' \<and> x \<noteq> CHR ''=''"
  using encode_char_set by (fastforce simp: UrlEncode_def IsHexDigit_def char_nat_def)

text \<open>A query string spelled from a list of parameters.\<close>

definition encode_part :: "bytes \<times> bytes \<Rightarrow> bytes" where
  "encode_part kv = UrlEncode (fst kv) @ ''='' @ UrlEncode (snd kv)"

fun encode_query :: "(bytes \<times> bytes) list \<Rightarrow> bytes" where
  "encode_query [] = []"
| "encode_query [kv] = encode_part kv"
| "encode_query (kv # kvs) = encode_part kv @ ''&'' @ encode_query kvs"

lemma takeWhile_stop: "c \<notin> set xs \<Longrightarrow> takeWhile (\<lambda>x. x \<noteq> c) (xs @ c # ys) = xs"
  by (induction xs) auto

lemma takeWhile_none: "c \<notin> set xs \<Longrightarrow> takeWhile (\<lambda>x. x \<noteq> c) xs = xs"
  by (induction xs) auto

lemma encode_part_no_amp: "CHR ''&'' \<notin> set (encode_part kv)"
  using UrlEncode_set by (auto simp: encode_part_def)

lemma add_query_part_encode:
  assumes "k \<noteq> []" shows "add_query_part (encode_part (k, v)) req = addQureyParam k v req"
proof -
  have "takeWhile (\<lambda>c. c \<noteq> CHR ''='') (encode_part (k, v)) = UrlEncode k"
    using UrlEncode_set takeWhile_stop [of "CHR ''=''" "UrlEncode k"] by (auto simp: encode_part_def)
  with assms show ?thesis
    by (simp add: add_query_part_def Let_def encode_part_def UrlDecode_UrlEncode)
qed

lemma parseQueryParams_step:
  assumes "CHR ''&'' \<notin> set part"
  shows "parseQueryParams (part @ CHR ''&'' # rest) req = parseQueryParams rest (add_query_part part req)"
    and "parseQueryParams part req = add_query_part part req"
  using assms by (subst parseQueryParams.simps, simp add: takeWhile_stop takeWhile_none Let_def)+

lemma parse_encode_query:
  assumes "\<forall>(k, v)\<in>set kvs. k \<noteq> []"
  shows "parseQueryParams (encode_query kvs) req = fold (\<lambda>(k, v). addQureyParam k v) kvs req"
  using assms
proof (induction kvs arbitrary: req rule: encode_query.induct)
  case 1
  then show ?case by (subst parseQueryParams.simps) (simp add: add_query_part_def Let_def)
next
  case (2 kv)
  then show ?case using parseQueryParams_step(2) [OF encode_part_no_amp]
    by (cases kv) (simp add: add_query_part_encode)
next
  case (3 kv kv' kvs)
  then show ?case using parseQueryParams_step(1) [OF encode_part_no_amp]
    by (cases kv) (simp add: add_query_part_encode)
qed

text \<open>Query parameters survive the trip through a URL: the percent-encoded parameters of any bytes,
  joined by ampersands behind a path and a question mark, are parsed back one by one, in order
  (a later one replaces an earlier one of the same name), and the path is what stands before.\<close>

theorem query_roundtrip:
  assumes "CHR ''?'' \<notin> set path" and "\<forall>(k, v)\<in>set kvs. k \<noteq> []"
  shows "parseUrl (path @ ''?'' @ encode_query kvs) req
    = fold (\<lambda>(k, v). addQureyParam k v) kvs (req\<lparr>req_path := path\<rparr>)"
proof -
  have "search ''?'' (path @ ''?'' @ encode_query kvs) = Some (length path)"
    using search_char_append [OF assms(1)] by simp
  then show ?thesis by (simp add: parseUrl_def parse_encode_query [OF assms(2)])
qed

theorem query_roundtrip_witness:
  "getQureyParam (parseUrl (''/s'' @ ''?'' @ encode_query [(''q'', ''a&b=c''), (''n'', ''1 %'')]) new_request) ''q'' = ''a&b=c''"
  using query_roundtrip [of "''/s''" "[(''q'', ''a&b=c''), (''n'', ''1 %'')]" new_request]
  by (simp add: getQureyParam_def addQureyParam_def lookup_or_empty_def)

section \<open>Assembling a message\<close>

text \<open>What llhttp reports for one request: the URL, each header value and the body may come in any
  number of spans, the method, the version and each header name in one.\<close>

definition header_events :: "bytes \<times> bytes list \<Rightarrow> ll_event list" where
  "header_events h = OnHeaderField (fst h) # map OnHeaderValue (snd h)"

definition request_events ::
  "bytes \<Rightarrow> bytes list \<Rightarrow> bytes \<Rightarrow> (bytes \<times> bytes list) list \<Rightarrow> bytes list \<Rightarrow> ll_event list" where
  "request_events meth urls ver hs bodies =
     [OnMethod meth] @ map OnUrl urls @ [OnUrlComplete, OnVersion ver]
     @ concat (map header_events hs) @ [OnHeadersComplete] @ map OnBody bodies @ [OnMessageComplete]"

text \<open>The table a list of headers spells: values of one name are concatenated.\<close>

definition add_header_spans :: "bytes \<times> bytes list \<Rightarrow> header_map \<Rightarrow> header_map" where
  "add_header_spans h m = m(fst h \<mapsto> lookup_or_empty m (fst h) @ concat (snd h))"

definition header_table :: "(bytes \<times> bytes list) list \<Rightarrow> header_map" where
  "header_table hs = fold add_header_spans hs Map.empty"

lemma fold_OnUrl: "fold on_event (map OnUrl us) p = p\<lparr>lp_hctx := (lp_hctx p)\<lparr>hc_url := hc_url (lp_hctx p) @ concat us\<rparr>\<rparr>"
  by (induction us arbitrary: p) (simp_all add: onUrl_def)

definition add_value :: "bytes \<Rightarrow> header_context \<Rightarrow> header_context" where
  "add_value d h = (if cur_header h \<noteq> []
     then h\<lparr>hc_headers := (hc_headers h)(cur_header h \<mapsto> lookup_or_empty (hc_headers h) (cur_header h) @ d)\<rparr> else h)"

lemma fold_values: "fold on_event (map OnHeaderValue vs) p = p\<lparr>lp_hctx := fold add_value vs (lp_hctx p)\<rparr>"
proof (induction vs arbitrary: p)
  case (Cons v vs)
  have "onHeaderValue v p = p\<lparr>lp_hctx := add_value v (lp_hctx p)\<rparr>"
    by (simp add: onHeaderValue_def add_value_def Let_def)
  with Cons.IH [of "p\<lparr>lp_hctx := add_value v (lp_hctx p)\<rparr>"] show ?case by simp
qed simp

lemma lookup_upd [simp]: "lookup_or_empty (m(k \<mapsto> v)) k = v"
  by (simp add: lookup_or_empty_def)

lemma fold_add_value:
  "k \<noteq> [] \<Longrightarrow> vs \<noteq> [] \<Longrightarrow> fold add_value vs \<lparr>cur_header = k, hc_url = u, hc_headers = m\<rparr>
     = \<lparr>cur_header = k, hc_url = u, hc_headers = m(k \<mapsto> lookup_or_empty m k @ concat vs)\<rparr>"
proof (induction vs arbitrary: m)
  case (Cons v vs)
  have "add_value v \<lparr>cur_header = k, hc_url = u, hc_headers = m\<rparr>
      = \<lparr>cur_header = k, hc_url = u, hc_headers = m(k \<mapsto> lookup_or_empty m k @ v)\<rparr>"
    using Cons.prems by (simp add: add_value_def)
  with Cons show ?case by (cases "vs = []") (simp_all del: fun_upd_apply)
qed simp

lemma fold_OnHeaderValue:
  assumes "cur_header (lp_hctx p) = k" "k \<noteq> []" "vs \<noteq> []"
  shows "fold on_event (map OnHeaderValue vs) p = p\<lparr>lp_hctx := \<lparr>cur_header = k, hc_url = hc_url (lp_hctx p),
     hc_headers = (hc_headers (lp_hctx p))(k \<mapsto> lookup_or_empty (hc_headers (lp_hctx p)) k @ concat vs)\<rparr>\<rparr>"
proof -
  have "lp_hctx p = \<lparr>cur_header = k, hc_url = hc_url (lp_hctx p), hc_headers = hc_headers (lp_hctx p)\<rparr>"
    using assms(1) by simp
  with fold_add_value [OF assms(2,3)] show ?thesis by (metis fold_values)
qed

lemma fold_header_events:
  "\<forall>h\<in>set hs. fst h \<noteq> [] \<and> snd h \<noteq> [] \<Longrightarrow>
   \<exists>k. fold on_event (concat (map header_events hs)) p
     = p\<lparr>lp_hctx := (lp_hctx p)\<lparr>cur_header := k, hc_headers := fold add_header_spans hs (hc_headers (lp_hctx p))\<rparr>\<rparr>"
proof (induction hs arbitrary: p)
  case Nil
  show ?case by (rule exI [of _ "cur_header (lp_hctx p)"]) simp
next
  case (Cons h hs)
  let ?q = "p\<lparr>lp_hctx := (lp_hctx p)\<lparr>cur_header := fst h, hc_headers := add_header_spans h (hc_headers (lp_hctx p))\<rparr>\<rparr>"
  have q: "fold on_event (header_events h) p = ?q"
    using Cons.prems by (simp add: header_events_def onHeaderField_def fold_OnHeaderValue add_header_spans_def)
  from Cons.IH [of ?q] Cons.prems obtain k where
    "fold on_event (concat (map header_events hs)) ?q = ?q\<lparr>lp_hctx := (lp_hctx ?q)
       \<lparr>cur_header := k, hc_headers := fold add_header_spans hs (hc_headers (lp_hctx ?q))\<rparr>\<rparr>" by auto
  with q show ?case by (intro exI [of _ k]) simp
qed

lemma fold_OnBody:
  assumes "lp_type p = ReqType"
  shows "fold on_event (map OnBody bs) p = upd_req (\<lambda>r. if bs = [] then r
      else req_append_body (concat bs) (req_set_type (body_type (req_getHeader r ''Content-Type'')) r)) p"
  using assms
proof (induction bs arbitrary: p)
  case Nil
  then show ?case by (simp add: upd_req_def)
next
  case (Cons b bs)
  have "lp_type (onBody b p) = ReqType" using Cons.prems by (simp add: onBody_def upd_req_def)
  from Cons.IH [OF this] Cons.prems show ?case
    by (cases "bs = []") (auto simp: onBody_def upd_req_def message_defs)
qed

lemma parseUrl_frame:
  "req_method (parseUrl u r) = req_method r" "req_body (parseUrl u r) = req_body r"
  "req_path (parseUrl u r) = takeWhile (\<lambda>c. c \<noteq> CHR ''?'') u"
proof -
  have a: "req_method (add_query_part p r) = req_method r \<and> req_body (add_query_part p r) = req_body r
      \<and> req_path (add_query_part p r) = req_path r" for p r
    by (simp add: add_query_part_def Let_def addQureyParam_def)
  have q: "req_method (parseQueryParams q r) = req_method r \<and> req_body (parseQueryParams q r) = req_body r
      \<and> req_path (parseQueryParams q r) = req_path r" for q r
  proof (induction q r rule: parseQueryParams.induct)
    case (1 q r)
    let ?p = "takeWhile (\<lambda>c. c \<noteq> CHR ''&'') q"
    have e: "parseQueryParams q r = (if length ?p = length q then add_query_part ?p r
        else parseQueryParams (drop (length ?p + 1) q) (add_query_part ?p r))"
      by (subst parseQueryParams.simps) (simp add: Let_def)
    show ?case
    proof (cases "length ?p = length q")
      case True
      then show ?thesis using a unfolding e by simp
    next
      case False
      from 1 [OF refl refl False] a False show ?thesis unfolding e by simp
    qed
  qed
  show "req_method (parseUrl u r) = req_method r" "req_body (parseUrl u r) = req_body r"
    using q by (simp_all add: parseUrl_def split: option.splits)
  show "req_path (parseUrl u r) = takeWhile (\<lambda>c. c \<noteq> CHR ''?'') u"
    using q by (auto simp: parseUrl_def search_char takeWhile_none takeWhile_eq_take [symmetric] split: option.splits)
qed

text \<open>C32. However llhttp cuts the URL, the header values and the body of a request into spans, a fresh
  parser assembles the same message: method and version as named, the path before the question
  mark, each header's values concatenated, the body spans appended in order; the context is then
  complete and the header context is clean for the next message.\<close>

theorem request_assembled:
  assumes "lp_type p = ReqType" and "lp_hctx p = new_header_context"
    and "\<forall>h\<in>set hs. fst h \<noteq> [] \<and> snd h \<noteq> []"
    and "p' = fold on_event (request_events meth urls ver hs bodies) p"
  shows "req_method (ctx_request (lp_ctx p')) = Method_FromString meth
    \<and> req_path (ctx_request (lp_ctx p')) = takeWhile (\<lambda>c. c \<noteq> CHR ''?'') (concat urls)
    \<and> req_version (ctx_request (lp_ctx p')) = Version_FromString (''HTTP/'' @ ver)
    \<and> req_headers (ctx_request (lp_ctx p')) = header_table hs
    \<and> body_data (req_body (ctx_request (lp_ctx p'))) = body_data (req_body (ctx_request (lp_ctx p))) @ concat bodies
    \<and> gotAll (lp_ctx p') \<and> lp_hctx p' = new_header_context"
proof -
  let ?p1 = "fold on_event ([OnMethod meth] @ map OnUrl urls) p"
  have h0: "hc_url (lp_hctx p) = []" "hc_headers (lp_hctx p) = Map.empty" using assms(2) by (simp_all add: new_header_context_def)
  have p1: "?p1 = (upd_req (\<lambda>r. r\<lparr>req_method := Method_FromString meth\<rparr>) p)
      \<lparr>lp_hctx := (lp_hctx p)\<lparr>hc_url := concat urls\<rparr>\<rparr>"
    using h0 by (simp add: fold_OnUrl onMethod_def upd_req_def)
  let ?r = "\<lambda>r. (parseUrl (concat urls) (r\<lparr>req_method := Method_FromString meth\<rparr>))
      \<lparr>req_version := Version_FromString (''HTTP/'' @ ver)\<rparr>"
  let ?p2 = "fold on_event [OnUrlComplete, OnVersion ver] ?p1"
  have p2: "?p2 = (upd_req ?r p)\<lparr>lp_hctx := (lp_hctx p)\<lparr>hc_url := concat urls\<rparr>\<rparr>"
    using assms(1) unfolding p1 by (simp add: onUrlComplete_def onVersion_def upd_req_def)
  obtain k where p3: "fold on_event (concat (map header_events hs)) ?p2 = ?p2\<lparr>lp_hctx := (lp_hctx ?p2)
      \<lparr>cur_header := k, hc_headers := fold add_header_spans hs (hc_headers (lp_hctx ?p2))\<rparr>\<rparr>"
    using fold_header_events [OF assms(3), of ?p2] by blast
  let ?p3 = "fold on_event (concat (map header_events hs)) ?p2"
  let ?p4 = "onHeadersComplete ?p3"
  let ?r4 = "\<lambda>r. (?r r)\<lparr>req_headers := header_table hs\<rparr>"
  have "?p2\<lparr>lp_hctx := (lp_hctx ?p2)\<lparr>cur_header := k, hc_headers := fold add_header_spans hs (hc_headers (lp_hctx ?p2))\<rparr>\<rparr>
      = (upd_req ?r p)\<lparr>lp_hctx := \<lparr>cur_header = k, hc_url = concat urls, hc_headers = header_table hs\<rparr>\<rparr>"
    unfolding p2 using h0 by (simp add: header_table_def)
  with p3 have q3: "?p3 = (upd_req ?r p)\<lparr>lp_hctx := \<lparr>cur_header = k, hc_url = concat urls, hc_headers = header_table hs\<rparr>\<rparr>"
    by (rule trans)
  have p4: "lp_type ?p4 = ReqType" "ctx_request (lp_ctx ?p4) = ?r4 (ctx_request (lp_ctx p))"
    unfolding q3 using assms(1) by (simp_all add: onHeadersComplete_def upd_req_def set_state_def)
  have p': "p' = onMessageComplete (fold on_event (map OnBody bodies) ?p4)"
    unfolding assms(4) request_events_def by (simp add: fold_append del: fold_Cons_rev)
  have "ctx_request (lp_ctx p') = (if bodies = [] then ?r4 (ctx_request (lp_ctx p))
      else req_append_body (concat bodies) (req_set_type (body_type (req_getHeader (?r4 (ctx_request (lp_ctx p))) ''Content-Type''))
        (?r4 (ctx_request (lp_ctx p)))))"
    unfolding p' fold_OnBody [OF p4(1)] using p4(2)
    by (simp add: onMessageComplete_def set_state_def upd_req_def)
  moreover have "gotAll (lp_ctx p') \<and> lp_hctx p' = new_header_context"
    unfolding p' by (simp add: onMessageComplete_def set_state_def gotAll_def)
  ultimately show ?thesis
    by (auto simp: parseUrl_frame req_append_body_def req_set_type_def appendData_def setContentType_def)
qed

theorem request_assembled_witness:
  "body_data (req_body (ctx_request (lp_ctx (fold on_event
     (request_events ''POST'' [''/a'', ''?x=1''] ''1.1'' [(''Host'', [''h'', ''ost''])] [''bo'', ''dy''])
     (new_ll_parser () new_context))))) = ''body''"
  using request_assembled [of "new_ll_parser () new_context" "[(''Host'', [''h'', ''ost''])]" _
      "''POST''" "[''/a'', ''?x=1'']" "''1.1''" "[''bo'', ''dy'']"]
  by (simp add: new_ll_parser_def new_context_def new_request_def new_body_def)

text \<open>A header name that llhttp reports in two spans, as it does when a read ends inside the name, is
  not assembled: the value is filed under the second span alone, and the table has no entry for
  the name that was sent.\<close>

theorem split_header_name_lost:
  assumes "b \<noteq> []" and "a \<noteq> []"
    and "hc_headers (lp_hctx p) = Map.empty"
    and "p' = fold on_event [OnHeaderField a, OnHeaderField b, OnHeaderValue v] p"
  shows "lookup_or_empty (hc_headers (lp_hctx p')) b = v
    \<and> hc_headers (lp_hctx p') (a @ b) = None"
  using assms by (simp add: onHeaderField_def onHeaderValue_def Let_def) (simp add: lookup_or_empty_def)

theorem split_header_name_lost_witness:
  "hc_headers (lp_hctx (fold on_event [OnHeaderField ''Content-'', OnHeaderField ''Length'', OnHeaderValue ''5'']
     (new_ll_parser () new_context))) ''Content-Length'' = None"
  using split_header_name_lost [of "''Length''" "''Content-''" "new_ll_parser () new_context" _ "''5''"]
  by (simp add: new_ll_parser_def new_header_context_def)

end
