(* ===== verification/HttpServer.thy ===== *)
theory HttpServer
  imports Dispatch LlParser
begin

text \<open>
  \<^verbatim>\<open>HttpServer\<close> (include/net/http/http_server.h, src/net/http/http_server.cpp): the registration
  interface over the dispatcher, and what happens to the bytes of a connection: \<^verbatim>\<open>onMessage\<close> parses
  message after message with a fresh context each, \<^verbatim>\<open>handleRequest\<close> decides about keep-alive, runs
  the dispatcher inline or hands the work to the thread pool, and sends the rendered response.
  A connection is seen as the sequence of \<^verbatim>\<open>send\<close> and \<^verbatim>\<open>shutdown\<close> calls made on it. llhttp,
  \<^verbatim>\<open>fnmatch\<close>, the static files, the header iteration order and the pool's answers are parameters.
\<close>

section \<open>State\<close>

datatype conn_action = Send bytes | Shutdown

record 's http_env =
  env_fnmatch :: "bytes \<Rightarrow> bytes \<Rightarrow> bool"
  env_files :: "bytes \<Rightarrow> bytes option"
  env_iter :: header_iter
  env_llhttp :: "'s llhttp"
  env_init :: 's                \<comment> \<open>the state \<^verbatim>\<open>llhttp_init\<close> produces\<close>
  env_accept :: "nat \<Rightarrow> bool"    \<comment> \<open>the answer of the pool to the n-th submission\<close>

text \<open>What a servlet can do with the connection is to append to the calls made on it.\<close>

type_synonym conn_trace = "conn_action list"

record http_server =
  sv_dispatch :: "conn_trace dispatcher"
  sv_isPool :: bool
  sv_threadMaxThreshold :: int
  sv_taskQueueMaxThreshold :: int
  sv_threadMaxIdleInterval :: int
  sv_submitTimeoutMs :: int

definition new_http_server :: "int \<Rightarrow> bool \<Rightarrow> http_server" where
  "new_http_server hardware_concurrency isPool =
     \<lparr>sv_dispatch = new_dispatcher, sv_isPool = isPool,
      sv_threadMaxThreshold = 3 * hardware_concurrency,
      sv_taskQueueMaxThreshold = 30 * hardware_concurrency,
      sv_threadMaxIdleInterval = 2, sv_submitTimeoutMs = 300\<rparr>"

definition setBusinessThreadPoolConfig :: "int \<times> int \<times> int \<times> int \<Rightarrow> http_server \<Rightarrow> http_server" where
  "setBusinessThreadPoolConfig config s = (case config of (tm, qm, idle, timeout) \<Rightarrow>
     s\<lparr>sv_threadMaxThreshold := tm, sv_taskQueueMaxThreshold := qm, sv_threadMaxIdleInterval := idle,
       sv_submitTimeoutMs := timeout\<rparr>)"

text \<open>A connection: its context with the parser inside, the calls made on it, the requests handed to the
  pool in order of submission, the number of submissions tried, and the static code table.\<close>

record 's http_conn =
  cn_context :: "'s ll_parser option"
  cn_out :: conn_trace
  cn_tasks :: "http_context list"
  cn_submits :: nat
  cn_codes :: code_table

section \<open>Registration\<close>

definition srv_addRoute ::
  "uint32 \<Rightarrow> bytes \<Rightarrow> conn_trace servlet option \<Rightarrow> http_server \<Rightarrow> route_result \<times> http_server" where
  "srv_addRoute methods url svl s =
     (let (r, d) = addRoute methods url svl (sv_dispatch s) in (r, s\<lparr>sv_dispatch := d\<rparr>))"

definition srv_addRoute_method ::
  "http_method \<Rightarrow> bytes \<Rightarrow> (conn_trace \<Rightarrow> http_context \<Rightarrow> conn_trace \<times> http_context) \<Rightarrow> http_server
    \<Rightarrow> route_result \<times> http_server" where
  "srv_addRoute_method meth url cb s = srv_addRoute (ToMethodMask meth) url (Some (FunctionServlet cb)) s"

definition registered :: "route_result \<times> http_server \<Rightarrow> bool \<times> http_server" where
  "registered rs = (if rr_status (fst rs) \<noteq> RouteOk then (False, snd rs) else (True, snd rs))"

definition srv_Get :: "bytes \<Rightarrow> conn_trace servlet option \<Rightarrow> http_server \<Rightarrow> bool \<times> http_server" where
  "srv_Get url svl s = registered (srv_addRoute mask_Get url svl s)"

definition srv_Post :: "bytes \<Rightarrow> conn_trace servlet option \<Rightarrow> http_server \<Rightarrow> bool \<times> http_server" where
  "srv_Post url svl s = registered (srv_addRoute mask_Post url svl s)"

definition srv_GetAndPost :: "bytes \<Rightarrow> conn_trace servlet option \<Rightarrow> http_server \<Rightarrow> bool \<times> http_server" where
  "srv_GetAndPost url svl s = registered (srv_addRoute (mask_Get OR mask_Post) url svl s)"

definition srv_Delete :: "bytes \<Rightarrow> conn_trace servlet option \<Rightarrow> http_server \<Rightarrow> bool \<times> http_server" where
  "srv_Delete url svl s = registered (srv_addRoute mask_Delete url svl s)"

definition srv_removeRoute_id :: "conn_trace bucket_iter \<Rightarrow> uint64 \<Rightarrow> http_server \<Rightarrow> bool \<times> http_server" where
  "srv_removeRoute_id iter i s = (let (b, d) = removeRoute_id iter i (sv_dispatch s) in (b, s\<lparr>sv_dispatch := d\<rparr>))"

definition srv_removeRoute_methods :: "bytes \<Rightarrow> uint32 \<Rightarrow> http_server \<Rightarrow> nat \<times> http_server" where
  "srv_removeRoute_methods p ms s = (let (n, d) = removeRoute_methods p ms (sv_dispatch s) in (n, s\<lparr>sv_dispatch := d\<rparr>))"

definition srv_removeRoute_pattern :: "bytes \<Rightarrow> http_server \<Rightarrow> nat \<times> http_server" where
  "srv_removeRoute_pattern p s = (let (n, d) = removeRoute_pattern p (sv_dispatch s) in (n, s\<lparr>sv_dispatch := d\<rparr>))"

section \<open>Connections\<close>

definition fresh_context :: "'s http_env \<Rightarrow> 's ll_parser" where
  "fresh_context env = new_ll_parser (env_init env) new_context"

definition http_onConnect :: "'s http_env \<Rightarrow> bool \<Rightarrow> 's http_conn \<Rightarrow> 's http_conn" where
  "http_onConnect env connected c = (if connected then c\<lparr>cn_context := Some (fresh_context env)\<rparr> else c)"

text \<open>\<^verbatim>\<open>conn->send(resp->toString())\<close>: rendering may extend the code table.\<close>

definition send_response :: "'s http_env \<Rightarrow> http_context \<Rightarrow> 's http_conn \<Rightarrow> 's http_conn" where
  "send_response env ctx c =
     (let (text_out, _, codes) = resp_toString (env_iter env) (cn_codes c) (ctx_response ctx)
      in c\<lparr>cn_out := cn_out c @ [Send text_out], cn_codes := codes\<rparr>)"

definition conn_shutdown :: "'s http_conn \<Rightarrow> 's http_conn" where
  "conn_shutdown c = c\<lparr>cn_out := cn_out c @ [Shutdown]\<rparr>"

definition should_close :: "http_request \<Rightarrow> bool" where
  "should_close req = (let connection = req_getHeader req ''Connection'' in
     connection = ''close'' \<or> (req_version req = kHttp10 \<and> connection \<noteq> ''keep-alive''))"

text \<open>The lambda \<^verbatim>\<open>work_func\<close>, run inline or by a pool thread.\<close>

definition work_func :: "'s http_env \<Rightarrow> http_server \<Rightarrow> http_context \<Rightarrow> 's http_conn \<Rightarrow> 's http_conn" where
  "work_func env s ctx c =
     (let closed = should_close (ctx_request ctx);
          ctx1 = ctx\<lparr>ctx_response := (ctx_response ctx)\<lparr>resp_connection_closed := closed\<rparr>\<rparr>;
          (out, ctx2) = dispatch_handle (env_fnmatch env) (env_files env) (sv_dispatch s) (cn_out c) ctx1;
          c2 = send_response env ctx2 (c\<lparr>cn_out := out\<rparr>)
      in if resp_connection_closed (ctx_response ctx2) then conn_shutdown c2 else c2)"

definition handleRequest :: "'s http_env \<Rightarrow> http_server \<Rightarrow> http_context \<Rightarrow> 's http_conn \<Rightarrow> 's http_conn" where
  "handleRequest env s ctx c =
     (if sv_isPool s then
        (let c1 = c\<lparr>cn_submits := cn_submits c + 1\<rparr> in
         if \<not> env_accept env (cn_submits c)
         then conn_shutdown (send_response env (ServiceUnavailable503_Handle ctx) c1)
         else c1\<lparr>cn_tasks := cn_tasks c @ [ctx]\<rparr>)
      else work_func env s ctx c)"

text \<open>The loop of \<^verbatim>\<open>onMessage\<close>, with fuel: \<^const>\<open>None\<close> is a loop that is still running.\<close>

fun onMessage_loop ::
  "'s http_env \<Rightarrow> http_server \<Rightarrow> int \<Rightarrow> nat \<Rightarrow> 's ll_parser \<Rightarrow> 's http_conn \<Rightarrow> byte_buffer
    \<Rightarrow> ('s http_conn \<times> byte_buffer) option" where
  "onMessage_loop env s t 0 context c buf = None"
| "onMessage_loop env s t (Suc fuel) context c buf =
     (if readableBytes buf \<le> 0 then Some (c\<lparr>cn_context := Some context\<rparr>, buf)
      else (case parseRequest (env_llhttp env) t context buf of (ok, context', buf') \<Rightarrow>
        if \<not> ok then
          (let ctx = BadRequest400_Handle (lp_ctx context') in
           Some ((conn_shutdown (send_response env ctx c))\<lparr>cn_context := Some (context'\<lparr>lp_ctx := ctx\<rparr>)\<rparr>, buf'))
        else if \<not> gotAll (lp_ctx context') then Some (c\<lparr>cn_context := Some context'\<rparr>, buf')
        else onMessage_loop env s t fuel (fresh_context env)
               ((handleRequest env s (lp_ctx context') c)\<lparr>cn_context := Some (fresh_context env)\<rparr>) buf'))"

definition http_onMessage ::
  "'s http_env \<Rightarrow> http_server \<Rightarrow> int \<Rightarrow> nat \<Rightarrow> 's http_conn \<Rightarrow> byte_buffer \<Rightarrow> ('s http_conn \<times> byte_buffer) option" where
  "http_onMessage env s t fuel c buf =
     (case cn_context c of None \<Rightarrow> Some (c, buf) | Some context \<Rightarrow> onMessage_loop env s t fuel context c buf)"

section \<open>Parsing one message\<close>

lemma contents_length: "buf_inv buf \<Longrightarrow> length (contents buf) = readableBytes buf"
  by (rule length_contents)

text \<open>What the code relies on of llhttp: a message that completes has consumed input.\<close>

definition makes_progress :: "'s llhttp \<Rightarrow> bool" where
  "makes_progress L \<longleftrightarrow> (\<forall>s data s' ev err pos. data \<noteq> [] \<longrightarrow> ll_execute L s data = (s', ev, err, pos)
     \<longrightarrow> OnMessageComplete \<in> set ev \<longrightarrow> 0 < consumed_len pos (length data))"

lemma upd_gotAll [simp]:
  "gotAll (lp_ctx (upd_req f p)) = gotAll (lp_ctx p)" "gotAll (lp_ctx (upd_resp g p)) = gotAll (lp_ctx p)"
  "gotAll (lp_ctx (set_state st p)) = (st = kGotAll)"
  by (simp_all add: upd_defs gotAll_def)

lemma state_of_event:
  "e \<noteq> OnMessageComplete \<Longrightarrow> \<not> gotAll (lp_ctx p) \<Longrightarrow> \<not> gotAll (lp_ctx (on_event e p))"
  by (cases e) (simp_all add: onMethod_def onStatus_def onStatusComplete_def onUrl_def onUrlComplete_def
      onVersion_def onHeaderField_def onHeaderValue_def Let_def onHeadersComplete_def onBody_def)

lemma gotAll_needs_complete:
  "\<not> gotAll (lp_ctx p) \<Longrightarrow> OnMessageComplete \<notin> set ev \<Longrightarrow> \<not> gotAll (lp_ctx (fold on_event ev p))"
proof (induction ev arbitrary: p)
  case (Cons e ev)
  then have "\<not> gotAll (lp_ctx (on_event e p))" by (intro state_of_event) auto
  with Cons show ?case by simp
qed simp

lemma consumed_len_le: "consumed_len pos len \<le> len"
  by (auto simp: consumed_len_def split: option.splits)

text \<open>Parsing keeps the buffer invariant and consumes a prefix.\<close>

lemma parseRequest_buffer:
  assumes "parseRequest L t p buf = (ok, p', buf')" and "buf_inv buf"
  shows "\<exists>n. n \<le> readableBytes buf \<and> buf' = reset n buf \<and> buf_inv buf'
    \<and> (makes_progress L \<longrightarrow> readableBytes buf \<noteq> 0 \<longrightarrow> \<not> gotAll (lp_ctx p) \<longrightarrow> gotAll (lp_ctx p') \<longrightarrow> 0 < n)"
proof -
  let ?p = "p\<lparr>lp_type := ReqType\<rparr>"
  let ?p1 = "if lp_paused ?p then ?p\<lparr>lp_paused := False, lp_llhttp := ll_resume L (lp_llhttp ?p)\<rparr> else ?p"
  obtain s ev err pos where x: "ll_execute L (lp_llhttp ?p1) (contents buf) = (s, ev, err, pos)"
    using prod_cases4 by blast
  let ?n = "consumed_len pos (readableBytes buf)"
  have b: "buf' = reset ?n buf" and c: "gotAll (lp_ctx p') = gotAll (lp_ctx (fold on_event ev (?p1\<lparr>lp_llhttp := s\<rparr>)))"
    using assms(1) x unfolding parseRequest_def ll_parse_def
    by (auto simp: Let_def gotAll_def upd_req_def split: ll_errno.splits prod.splits if_splits)
  have "0 < ?n" if "makes_progress L" "readableBytes buf \<noteq> 0" "\<not> gotAll (lp_ctx p)" "gotAll (lp_ctx p')"
  proof -
    have "\<not> gotAll (lp_ctx (?p1\<lparr>lp_llhttp := s\<rparr>))" using that(3) by simp
    with gotAll_needs_complete that(4) c have m: "OnMessageComplete \<in> set ev" by blast
    have len: "length (contents buf) = readableBytes buf" by (rule length_contents [OF assms(2)])
    with that(2) have "contents buf \<noteq> []" by auto
    with that(1) x m len show ?thesis unfolding makes_progress_def by metis
  qed
  moreover have "buf_inv (reset ?n buf)" using assms(2) by (rule reset_inv)
  ultimately show ?thesis using b consumed_len_le by blast
qed

lemma fresh_not_gotAll: "\<not> gotAll (lp_ctx (fresh_context env))"
  by (simp add: fresh_context_def new_ll_parser_def new_context_def gotAll_def)

text \<open>C40. As long as llhttp never reports a complete message without having consumed input, the loop of
  \<^verbatim>\<open>onMessage\<close> ends after at most one more round than there are readable bytes: a burst of
  requests, valid or not, cannot keep the event loop in it.\<close>

theorem onMessage_returns:
  assumes "makes_progress (env_llhttp env)" and "buf_inv buf" and "\<not> gotAll (lp_ctx ctx0)"
    and "readableBytes buf < fuel"
  shows "\<exists>c' buf'. onMessage_loop env s t fuel ctx0 c buf = Some (c', buf') \<and> buf_inv buf'
    \<and> readableBytes buf' \<le> readableBytes buf"
  using assms(2-)
proof (induction fuel arbitrary: ctx0 c buf)
  case (Suc fuel)
  show ?case
  proof (cases "readableBytes buf = 0")
    case True
    with Suc.prems show ?thesis by simp
  next
    case False
    obtain ok ctx0' buf' where p: "parseRequest (env_llhttp env) t ctx0 buf = (ok, ctx0', buf')"
      using prod_cases3 by blast
    from parseRequest_buffer [OF p Suc.prems(1)] obtain n where n: "n \<le> readableBytes buf" "buf' = reset n buf"
      "buf_inv buf'" "gotAll (lp_ctx ctx0') \<longrightarrow> 0 < n"
      using assms(1) False Suc.prems(2) by blast
    have r: "readableBytes buf' = readableBytes buf - n"
      using length_contents [OF Suc.prems(1)] length_contents [OF n(3)] contents_reset [OF Suc.prems(1)] n(2)
      by (metis length_drop)
    show ?thesis
    proof (cases "ok \<and> gotAll (lp_ctx ctx0')")
      case True
      let ?c = "(handleRequest env s (lp_ctx ctx0') c)\<lparr>cn_context := Some (fresh_context env)\<rparr>"
      have "readableBytes buf' < fuel" using r n(1,4) True Suc.prems(3) False by simp
      from Suc.IH [OF n(3) fresh_not_gotAll this] obtain c2 buf2 where
        "onMessage_loop env s t fuel (fresh_context env) ?c buf' = Some (c2, buf2)" "buf_inv buf2"
        "readableBytes buf2 \<le> readableBytes buf'" by blast
      with p True False r show ?thesis by simp
    next
      case stop: False
      with p False r n(3) show ?thesis by (auto simp: Let_def)
    qed
  qed
qed simp

definition one_shot_llhttp :: "bytes \<Rightarrow> ll_event list \<Rightarrow> unit llhttp" where
  "one_shot_llhttp msg ev = \<lparr>ll_execute = (\<lambda>s data. if prefix msg data then (s, ev, HPE_PAUSED, Some (int (length msg)))
      else (s, [], HPE_OK, None)), ll_resume = id\<rparr>"

definition get_slash :: bytes where "get_slash = ''GET / HTTP/1.1'' @ CRLF @ CRLF"

definition get_slash_events :: "ll_event list" where
  "get_slash_events = request_events ''GET'' [''/''] ''1.1'' [] []"

definition sample_env :: "unit http_env" where
  "sample_env = \<lparr>env_fnmatch = (\<lambda>_ _. False), env_files = (\<lambda>_. None), env_iter = (\<lambda>_. []),
     env_llhttp = one_shot_llhttp get_slash get_slash_events, env_init = (), env_accept = (\<lambda>_. True)\<rparr>"

definition sample_conn :: "unit http_conn" where
  "sample_conn = \<lparr>cn_context = Some (fresh_context sample_env), cn_out = [], cn_tasks = [], cn_submits = 0,
     cn_codes = initial_codes\<rparr>"

lemma one_shot_progress: "msg \<noteq> [] \<Longrightarrow> makes_progress (one_shot_llhttp msg ev)"
  by (auto simp: makes_progress_def one_shot_llhttp_def consumed_len_def dest: prefix_length_le split: if_splits)

theorem onMessage_returns_witness:
  "\<exists>c' buf'. onMessage_loop sample_env (new_http_server 4 False) 0 30 (fresh_context sample_env) sample_conn
     (buf_append get_slash (mk_buffer 1024)) = Some (c', buf')"
proof -
  let ?b = "buf_append get_slash (mk_buffer 1024)"
  have b: "buf_inv ?b" by (simp add: inv_pres)
  have "readableBytes ?b < 30"
    using length_contents [OF b] by (simp add: abs_simps) (simp add: get_slash_def)
  moreover have "makes_progress (env_llhttp sample_env)"
    by (simp add: sample_env_def one_shot_progress get_slash_def)
  ultimately show ?thesis using onMessage_returns [OF _ b fresh_not_gotAll] by blast
qed

section \<open>Pipelining\<close>

text \<open>What llhttp reports of one complete message \<open>data\<close>, whatever follows it: the callbacks \<open>ev\<close>, a
  pause, and the end of the message as error position.\<close>

definition recognises :: "'s http_env \<Rightarrow> bytes \<times> ll_event list \<Rightarrow> bool" where
  "recognises env m \<longleftrightarrow> fst m \<noteq> [] \<and> snd m \<noteq> [] \<and> last (snd m) = OnMessageComplete
     \<and> (\<forall>rest. \<exists>s'. ll_execute (env_llhttp env) (env_init env) (fst m @ rest)
          = (s', snd m, HPE_PAUSED, Some (int (length (fst m)))))"

text \<open>The context such a message leaves, stamped with the receive time.\<close>

definition message_context :: "'s http_env \<Rightarrow> int \<Rightarrow> ll_event list \<Rightarrow> http_context" where
  "message_context env t ev =
     lp_ctx (upd_req (\<lambda>r. r\<lparr>req_receive_time := t\<rparr>) (fold on_event ev (fresh_context env)))"

lemma on_event_llhttp: "on_event e (p\<lparr>lp_llhttp := s\<rparr>) = (on_event e p)\<lparr>lp_llhttp := s\<rparr>"
  by (cases e) (simp_all add: upd_defs onMethod_def onStatus_def onStatusComplete_def onUrl_def onUrlComplete_def
      onVersion_def onHeaderField_def onHeaderValue_def Let_def onHeadersComplete_def onBody_def onMessageComplete_def)

lemma fold_event_llhttp: "fold on_event ev (p\<lparr>lp_llhttp := s\<rparr>) = (fold on_event ev p)\<lparr>lp_llhttp := s\<rparr>"
  by (induction ev arbitrary: p) (simp_all add: on_event_llhttp)

lemma last_complete_gotAll:
  "ev \<noteq> [] \<Longrightarrow> last ev = OnMessageComplete \<Longrightarrow> gotAll (lp_ctx (fold on_event ev p))"
  by (cases ev rule: rev_cases) (simp_all add: onMessageComplete_def)

lemma fresh_type: "(fresh_context env)\<lparr>lp_type := ReqType\<rparr> = fresh_context env"
    "\<not> lp_paused (fresh_context env)" "lp_llhttp (fresh_context env) = env_init env"
  by (simp_all add: fresh_context_def new_ll_parser_def)

lemma parse_message:
  assumes "recognises env m" and b: "buf_inv buf" and "contents buf = fst m @ rest"
  shows "\<exists>p'. parseRequest (env_llhttp env) t (fresh_context env) buf = (True, p', reset (length (fst m)) buf)
    \<and> lp_ctx p' = message_context env t (snd m) \<and> gotAll (lp_ctx p')"
proof -
  from assms(1) obtain s' where x: "ll_execute (env_llhttp env) (env_init env) (contents buf)
      = (s', snd m, HPE_PAUSED, Some (int (length (fst m))))"
    unfolding recognises_def assms(3) by blast
  have len: "readableBytes buf = length (fst m) + length rest"
    using length_contents [OF b] assms(3) by simp
  have n: "consumed_len (Some (int (length (fst m)))) (readableBytes buf) = length (fst m)"
    by (simp add: consumed_len_def len)
  let ?p' = "upd_req (\<lambda>r. r\<lparr>req_receive_time := t\<rparr>) ((fold on_event (snd m) ((fresh_context env)\<lparr>lp_llhttp := s'\<rparr>))\<lparr>lp_paused := True\<rparr>)"
  have "parseRequest (env_llhttp env) t (fresh_context env) buf = (True, ?p', reset (length (fst m)) buf)"
    unfolding parseRequest_def ll_parse_def fresh_type by (simp add: x n Let_def fresh_type)
  moreover have "lp_ctx ?p' = message_context env t (snd m)"
    by (simp add: message_context_def fold_event_llhttp upd_req_def)
  moreover have "gotAll (lp_ctx ?p')"
    using assms(1) last_complete_gotAll by (auto simp: recognises_def gotAll_def upd_req_def)
  ultimately show ?thesis by blast
qed

definition handle_all :: "'s http_env \<Rightarrow> http_server \<Rightarrow> int \<Rightarrow> (bytes \<times> ll_event list) list \<Rightarrow> 's http_conn \<Rightarrow> 's http_conn" where
  "handle_all env s t ms c = fold (\<lambda>m c. (handleRequest env s (message_context env t (snd m)) c)
     \<lparr>cn_context := Some (fresh_context env)\<rparr>) ms c"

text \<open>C8. A buffer that holds several complete requests back to back is emptied by one \<^verbatim>\<open>onMessage\<close>: each
  request is handled exactly once, in the order of arrival, in a context of its own that nothing of
  the other requests reaches, and the connection ends with a fresh context.\<close>

theorem pipelined_requests:
  assumes "list_all (recognises env) ms" and "buf_inv buf" and "contents buf = concat (map fst ms)"
    and "cn_context c = Some (fresh_context env)"
  shows "\<exists>buf'. http_onMessage env s t (Suc (length ms)) c buf = Some (handle_all env s t ms c, buf') \<and> contents buf' = []"
proof -
  have "\<exists>buf'. onMessage_loop env s t (Suc (length ms)) (fresh_context env) c buf = Some (handle_all env s t ms c, buf')
      \<and> contents buf' = []"
    using assms
  proof (induction ms arbitrary: c buf)
    case Nil
    then have "readableBytes buf = 0" using length_contents [OF Nil.prems(2)] by simp
    moreover have "c\<lparr>cn_context := Some (fresh_context env)\<rparr> = c" using Nil.prems(4) by simp
    ultimately show ?case using Nil.prems(3) by (simp add: handle_all_def)
  next
    case (Cons m ms)
    have r: "recognises env m" "list_all (recognises env) ms" using Cons.prems(1) by simp_all
    have c: "contents buf = fst m @ concat (map fst ms)" using Cons.prems(3) by simp
    from parse_message [OF r(1) Cons.prems(2) c, of t] obtain p' where
      p: "parseRequest (env_llhttp env) t (fresh_context env) buf = (True, p', reset (length (fst m)) buf)"
        "lp_ctx p' = message_context env t (snd m)" "gotAll (lp_ctx p')" by blast
    have "0 < length (fst m)" using r(1) by (simp add: recognises_def)
    moreover have "readableBytes buf = length (fst m) + length (concat (map fst ms))"
      using length_contents [OF Cons.prems(2)] c by simp
    ultimately have nz: "\<not> readableBytes buf \<le> 0" by linarith
    let ?c = "(handleRequest env s (message_context env t (snd m)) c)\<lparr>cn_context := Some (fresh_context env)\<rparr>"
    have b: "buf_inv (reset (length (fst m)) buf)" "contents (reset (length (fst m)) buf) = concat (map fst ms)"
      using Cons.prems(2) c by (simp_all add: reset_inv contents_reset)
    have "cn_context ?c = Some (fresh_context env)" by simp
    from Cons.IH [OF r(2) b this] p nz show ?case by (simp add: handle_all_def)
  qed
  with assms(4) show ?thesis by (simp add: http_onMessage_def)
qed

theorem pipelined_requests_witness:
  "\<exists>buf'. http_onMessage sample_env (new_http_server 4 True) 0 3 sample_conn
       (buf_append (get_slash @ get_slash) (mk_buffer 1024)) =
     Some (handle_all sample_env (new_http_server 4 True) 0
       [(get_slash, get_slash_events), (get_slash, get_slash_events)] sample_conn, buf') \<and> contents buf' = []"
proof -
  let ?m = "(get_slash, get_slash_events)"
  have "recognises sample_env ?m"
    by (simp add: recognises_def sample_env_def one_shot_llhttp_def)
       (simp add: get_slash_def get_slash_events_def request_events_def)
  then have "list_all (recognises sample_env) [?m, ?m]" by simp
  moreover have "buf_inv (buf_append (get_slash @ get_slash) (mk_buffer 1024))" by (simp add: inv_pres)
  moreover have "contents (buf_append (get_slash @ get_slash) (mk_buffer 1024)) = concat (map fst [?m, ?m])"
    by (simp add: abs_simps)
  ultimately show ?thesis
    using pipelined_requests [of sample_env "[?m, ?m]" _ sample_conn "new_http_server 4 True" 0]
    by (simp add: sample_conn_def numeral_3_eq_3)
qed

section \<open>Answers\<close>

text \<open>The built-in servlets and the dispatcher's own answers leave an HTTP/1.1 response.\<close>

definition builtin :: "'c servlet \<Rightarrow> bool" where
  "builtin svl \<longleftrightarrow> (case svl of FunctionServlet cb \<Rightarrow> False | _ \<Rightarrow> True)"

lemmas handle_defs = Hello_Handle_def NotFound404_Handle_def BadRequest400_Handle_def ServerErr500_Handle_def
  ServiceUnavailable503_Handle_def StaticFile_handle_def MethodNotAllowed_response_def
  resp_append_body_def resp_addHeader_def resp_set_type_def appendData_def setContentType_def

lemma builtin_answer:
  assumes "builtin svl" "servlet_handle files svl conn ctx = (conn', ctx')"
  shows "conn' = conn \<and> resp_version (ctx_response ctx') = kHttp11
    \<and> (resp_connection_closed (ctx_response ctx) \<longrightarrow> resp_connection_closed (ctx_response ctx'))"
  using assms by (cases svl) (auto simp: builtin_def handle_defs Let_def split: option.splits)

lemma dispatch_handle_builtin:
  assumes d: "dispatch_reach d" and "builtin (defaultSvl d)" and "\<forall>e\<in>entries d. \<exists>svl. rservlet e = Some svl \<and> builtin svl"
    and h: "dispatch_handle fnm files d conn ctx = (conn', ctx')"
  shows "conn' = conn \<and> resp_version (ctx_response ctx') = kHttp11
    \<and> (resp_connection_closed (ctx_response ctx) \<longrightarrow> resp_connection_closed (ctx_response ctx'))"
proof -
  obtain r ctx1 where m: "dispatch_match fnm d ctx = (r, ctx1)" by fastforce
  from match_result_reach [OF d, of ctx fnm] m
  have res: "result_of (req_method (ctx_request ctx)) (competing fnm d (req_path (ctx_request ctx))) r"
    and same: "ctx_response ctx1 = ctx_response ctx" by auto
  have sub: "competing fnm d url \<subseteq> entries d" for url by (auto simp: competing_def Let_def)
  show ?thesis
  proof (cases "mr_status r")
    case Found
    with res obtain e where e: "first_allowed (req_method (ctx_request ctx)) (competing fnm d (req_path (ctx_request ctx))) e"
      "mr_servlet r = rservlet e" by (auto simp: result_of_def)
    then have "e \<in> entries d" using sub by (auto simp: first_allowed_def)
    with assms(3) obtain svl where svl: "rservlet e = Some svl" "builtin svl" by blast
    with h m Found e have "servlet_handle files svl conn ctx1 = (conn', ctx')" by (simp add: dispatch_handle_def)
    from builtin_answer [OF svl(2) this] same show ?thesis by simp
  next
    case PathFoundMethodNotAllowed
    with h m same show ?thesis by (auto simp: dispatch_handle_def handle_defs)
  next
    case NotFound
    with h m have "servlet_handle files (defaultSvl d) conn ctx1 = (conn', ctx')" by (simp add: dispatch_handle_def)
    from builtin_answer [OF assms(2) this] same show ?thesis by simp
  qed
qed

lemma resp_toString_connection:
  "resp_toString iter codes r = (out, r', codes') \<Longrightarrow>
   resp_headers r' ''Connection'' = Some (if resp_version r = kHttp11 \<and> \<not> resp_connection_closed r then ''keep-alive'' else ''close'')"
  by (auto simp: resp_toString_def Let_def split: prod.splits)

text \<open>On a server with built-in servlets every request is answered with exactly one response, and what the
  response announces is what happens: its Connection header says close exactly when the connection
  is shut down behind it, and it is whenever the client asked for it, by Connection: close or by
  speaking HTTP/1.0 without keep-alive.\<close>

theorem answer_matches_connection:
  assumes "dispatch_reach (sv_dispatch s)" and "builtin (defaultSvl (sv_dispatch s))"
    and "\<forall>e\<in>entries (sv_dispatch s). \<exists>svl. rservlet e = Some svl \<and> builtin svl"
    and "\<not> sv_isPool s"
  shows "\<exists>text_out resp'. cn_out (handleRequest env s ctx c) = cn_out c @ [Send text_out]
        @ (if resp_headers resp' ''Connection'' = Some ''close'' then [Shutdown] else [])
    \<and> (\<exists>resp codes codes'. resp_toString (env_iter env) codes resp = (text_out, resp', codes'))
    \<and> (should_close (ctx_request ctx) \<longrightarrow> resp_headers resp' ''Connection'' = Some ''close'')"
proof -
  let ?ctx1 = "ctx\<lparr>ctx_response := (ctx_response ctx)\<lparr>resp_connection_closed := should_close (ctx_request ctx)\<rparr>\<rparr>"
  obtain out ctx2 where h: "dispatch_handle (env_fnmatch env) (env_files env) (sv_dispatch s) (cn_out c) ?ctx1 = (out, ctx2)"
    by fastforce
  obtain text_out resp' codes' where t: "resp_toString (env_iter env) (cn_codes c) (ctx_response ctx2) = (text_out, resp', codes')"
    using prod_cases3 by blast
  from dispatch_handle_builtin [OF assms(1-3) h]
  have b: "out = cn_out c" "resp_version (ctx_response ctx2) = kHttp11"
    "should_close (ctx_request ctx) \<longrightarrow> resp_connection_closed (ctx_response ctx2)" by simp_all
  have "cn_out (handleRequest env s ctx c) = cn_out c @ [Send text_out]
        @ (if resp_connection_closed (ctx_response ctx2) then [Shutdown] else [])"
    using assms(4) h t b(1) by (simp add: handleRequest_def work_func_def send_response_def conn_shutdown_def Let_def)
  moreover have "(resp_headers resp' ''Connection'' = Some ''close'') = resp_connection_closed (ctx_response ctx2)"
    using resp_toString_connection [OF t] b(2) by simp
  ultimately show ?thesis using t b(3) by auto
qed

theorem answer_matches_connection_witness:
  "\<exists>text_out. cn_out (handleRequest sample_env (new_http_server 4 False)
      (sample_ctx kGet ''/x''\<lparr>ctx_request := new_request\<lparr>req_version := kHttp10\<rparr>\<rparr>) sample_conn) = [Send text_out, Shutdown]"
proof -
  let ?s = "new_http_server 4 False"
  have d: "sv_dispatch ?s = new_dispatcher" by (simp add: new_http_server_def)
  have "entries (new_dispatcher :: conn_trace dispatcher) = {}" by (simp add: new_dispatcher_def entries_def)
  moreover have "builtin (defaultSvl (new_dispatcher :: conn_trace dispatcher))" by (simp add: new_dispatcher_def builtin_def)
  moreover have "\<not> sv_isPool ?s" by (simp add: new_http_server_def)
  moreover have "should_close (new_request\<lparr>req_version := kHttp10\<rparr>)"
    by (simp add: should_close_def req_getHeader_def lookup_or_empty_def new_request_def)
  ultimately show ?thesis
    using answer_matches_connection [of ?s sample_env "sample_ctx kGet ''/x''\<lparr>ctx_request := new_request\<lparr>req_version := kHttp10\<rparr>\<rparr>" sample_conn]
    unfolding d by (auto simp: dispatch_reach.start sample_conn_def)
qed

text \<open>A request that does not parse is answered by one 400 response with an empty body and
  Connection: close, the connection is shut down behind it, and nothing behind the bad request is
  handled; a request the full thread pool refuses is answered by 503 and shut down, and never runs.\<close>

theorem refused_requests:
  assumes "readableBytes buf \<noteq> 0"
    and "parseRequest (env_llhttp env) t ctx0 buf = (False, ctx1, buf1)"
    and "sv_isPool s" and "\<not> env_accept env (cn_submits c)"
  shows "(\<exists>text_out codes. onMessage_loop env s t (Suc fuel) ctx0 c buf
        = Some (c\<lparr>cn_context := Some (ctx1\<lparr>lp_ctx := BadRequest400_Handle (lp_ctx ctx1)\<rparr>),
                  cn_out := cn_out c @ [Send text_out, Shutdown], cn_codes := codes\<rparr>, buf1)
        \<and> text_out = fst (resp_toString (env_iter env) (cn_codes c) (ctx_response (BadRequest400_Handle (lp_ctx ctx1))))
        \<and> resp_state_code (ctx_response (BadRequest400_Handle (lp_ctx ctx1))) = 400
        \<and> body_data (resp_body (ctx_response (BadRequest400_Handle (lp_ctx ctx1)))) = [])
    \<and> (\<exists>text_out. cn_out (handleRequest env s ctx c) = cn_out c @ [Send text_out, Shutdown]
        \<and> text_out = fst (resp_toString (env_iter env) (cn_codes c) (ctx_response (ServiceUnavailable503_Handle ctx)))
        \<and> resp_state_code (ctx_response (ServiceUnavailable503_Handle ctx)) = 503
        \<and> cn_tasks (handleRequest env s ctx c) = cn_tasks c)"
proof
  obtain text_out resp' codes where t: "resp_toString (env_iter env) (cn_codes c)
      (ctx_response (BadRequest400_Handle (lp_ctx ctx1))) = (text_out, resp', codes)"
    using prod_cases3 by blast
  show "\<exists>text_out codes. onMessage_loop env s t (Suc fuel) ctx0 c buf
        = Some (c\<lparr>cn_context := Some (ctx1\<lparr>lp_ctx := BadRequest400_Handle (lp_ctx ctx1)\<rparr>),
                  cn_out := cn_out c @ [Send text_out, Shutdown], cn_codes := codes\<rparr>, buf1)
        \<and> text_out = fst (resp_toString (env_iter env) (cn_codes c) (ctx_response (BadRequest400_Handle (lp_ctx ctx1))))
        \<and> resp_state_code (ctx_response (BadRequest400_Handle (lp_ctx ctx1))) = 400
        \<and> body_data (resp_body (ctx_response (BadRequest400_Handle (lp_ctx ctx1)))) = []"
    using assms(1,2) t
    by (intro exI [of _ text_out] exI [of _ codes])
      (simp add: send_response_def conn_shutdown_def Let_def BadRequest400_Handle_def body_reset_def)
  show "\<exists>text_out. cn_out (handleRequest env s ctx c) = cn_out c @ [Send text_out, Shutdown]
        \<and> text_out = fst (resp_toString (env_iter env) (cn_codes c) (ctx_response (ServiceUnavailable503_Handle ctx)))
        \<and> resp_state_code (ctx_response (ServiceUnavailable503_Handle ctx)) = 503
        \<and> cn_tasks (handleRequest env s ctx c) = cn_tasks c"
    using assms(3,4)
    by (auto simp: handleRequest_def Let_def send_response_def conn_shutdown_def handle_defs split: prod.splits)
qed

definition failing_env :: "unit http_env" where
  "failing_env = sample_env\<lparr>env_llhttp := \<lparr>ll_execute = (\<lambda>s data. (s, [], HPE_ERROR, Some 0)), ll_resume = id\<rparr>,
     env_accept := (\<lambda>n. n \<noteq> 0)\<rparr>"

theorem refused_requests_witness:
  "\<exists>c'. onMessage_loop failing_env (new_http_server 4 True) 0 (Suc 0) (fresh_context failing_env) sample_conn
     (buf_append ''xyz'' (mk_buffer 1024)) = Some c' \<and> (\<exists>text_out. cn_out (fst c') = [Send text_out, Shutdown])"
proof -
  let ?b = "buf_append ''xyz'' (mk_buffer 1024)"
  have b: "buf_inv ?b" by (simp add: inv_pres)
  have n: "readableBytes ?b \<noteq> 0" using length_contents [OF b] by (simp add: abs_simps)
  obtain ok ctx1 b1 where p: "parseRequest (env_llhttp failing_env) 0 (fresh_context failing_env) ?b = (ok, ctx1, b1)"
    using prod_cases3 by blast
  then have "ok = False"
    by (auto simp: parseRequest_def ll_parse_def failing_env_def fresh_context_def new_ll_parser_def Let_def)
  with p have "parseRequest (env_llhttp failing_env) 0 (fresh_context failing_env) ?b = (False, ctx1, b1)" by simp
  from refused_requests [OF n this, of "new_http_server 4 True" sample_conn]
  show ?thesis by (fastforce simp: new_http_server_def failing_env_def sample_conn_def)
qed

end
