(* ===== verification/Multipart.thy ===== *)
theory Multipart
  imports CppStrings
begin

text \<open>
  multipart/form-data (include/base/content_parser.h, src/base/content_parser.cpp): \<^verbatim>\<open>FormPart\<close>, the
  parser \<^verbatim>\<open>MultiFormParser\<close> that works on raw bytes, and its predecessor \<^verbatim>\<open>MultiFormConvert\<close>. A
  pointer into the text is the rest of the text behind it. The converter templates over the
  vendored JSON library are not modelled.
\<close>

section \<open>Parts\<close>

record form_part =
  fp_name :: bytes
  fp_filename :: bytes
  fp_content_type :: bytes
  fp_data :: bytes
  fp_headers :: "bytes \<rightharpoonup> bytes"

definition new_part :: form_part where
  "new_part = \<lparr>fp_name = [], fp_filename = [], fp_content_type = [], fp_data = [], fp_headers = Map.empty\<rparr>"

definition is_file :: "form_part \<Rightarrow> bool" where
  "is_file p \<longleftrightarrow> fp_filename p \<noteq> []"

type_synonym part_map = "bytes \<rightharpoonup> form_part"

abbreviation CR :: char where "CR \<equiv> CHR 0x0D"
abbreviation LF :: char where "LF \<equiv> CHR 0x0A"
abbreviation QUOTE :: char where "QUOTE \<equiv> CHR 0x22"

definition k2CRLF :: bytes where "k2CRLF = [CR, LF, CR, LF]"
definition k2LF :: bytes where "k2LF = [LF, LF]"

section \<open>MultiFormParser\<close>

definition is_blank :: "char \<Rightarrow> bool" where
  "is_blank c \<longleftrightarrow> c = CHR '' '' \<or> c = CHR 0x09"

definition is_trimmed_char :: "char \<Rightarrow> bool" where
  "is_trimmed_char c \<longleftrightarrow> is_blank c \<or> c = CR \<or> c = LF"

definition trim :: "bytes \<Rightarrow> bytes" where
  "trim s = (case find_first_not_of is_trimmed_char s of
     None \<Rightarrow> []
   | Some first \<Rightarrow> (case find_last_not_of is_trimmed_char s of
       None \<Rightarrow> drop first s
     | Some last_pos \<Rightarrow> take (last_pos - first + 1) (drop first s)))"

definition skip_crlf :: "bytes \<Rightarrow> bytes" where
  "skip_crlf p =
     (let p = (if p \<noteq> [] \<and> hd p = CR then tl p else p)
      in if p \<noteq> [] \<and> hd p = LF then tl p else p)"

definition skip_boundary_suffix :: "bytes \<Rightarrow> bytes \<times> bool" where
  "skip_boundary_suffix p =
     (let p = dropWhile is_blank p in
      if prefix ''--'' p then (skip_crlf (dropWhile is_blank (drop 2 p)), True)
      else (skip_crlf p, False))"

definition quoted_or_to_semicolon :: "(bytes \<Rightarrow> bytes) \<Rightarrow> bytes \<Rightarrow> bytes" where
  "quoted_or_to_semicolon unquoted rest =
     (if rest \<noteq> [] \<and> hd rest = QUOTE
      then (if QUOTE \<in> set (tl rest) then takeWhile (\<lambda>c. c \<noteq> QUOTE) (tl rest) else [])
      else unquoted (takeWhile (\<lambda>c. c \<noteq> CHR '';'') rest))"

definition extract_boundary :: "bytes \<Rightarrow> bytes" where
  "extract_boundary content_type =
     (case search ''boundary='' content_type of
        None \<Rightarrow> []
      | Some pos \<Rightarrow> (let rest = drop (pos + 9) content_type in
          if rest = [] then [] else quoted_or_to_semicolon trim rest))"

definition extract_quoted :: "bytes \<Rightarrow> bytes \<Rightarrow> bytes option" where
  "extract_quoted attr line =
     (case search attr line of
        None \<Rightarrow> None
      | Some pos \<Rightarrow> (let rest = drop (pos + length attr) line in
          if QUOTE \<in> set rest then Some (takeWhile (\<lambda>c. c \<noteq> QUOTE) rest) else None))"

definition NAME_ATTR :: bytes where "NAME_ATTR = ''name='' @ [QUOTE]"
definition FILENAME_ATTR :: bytes where "FILENAME_ATTR = ''filename='' @ [QUOTE]"

definition parse_content_disposition :: "bytes \<Rightarrow> form_part \<Rightarrow> form_part" where
  "parse_content_disposition line part =
     part\<lparr>fp_name := (case extract_quoted NAME_ATTR line of None \<Rightarrow> [] | Some s \<Rightarrow> s),
          fp_filename := (case extract_quoted FILENAME_ATTR line of None \<Rightarrow> [] | Some s \<Rightarrow> s)\<rparr>"

definition parse_custom_header :: "bytes \<Rightarrow> form_part \<Rightarrow> form_part" where
  "parse_custom_header line part =
     (case search '':'' line of
        None \<Rightarrow> part
      | Some colon \<Rightarrow>
          if colon = 0 then part
          else (let key = trim (take colon line); value = trim (drop (colon + 1) line) in
                if key \<noteq> [] then part\<lparr>fp_headers := (fp_headers part)(key \<mapsto> value)\<rparr> else part))"

definition parse_header :: "bytes \<Rightarrow> form_part \<Rightarrow> form_part" where
  "parse_header line part =
     (if line = [] then part
      else let line = (if last line = CR then butlast line else line) in
        if prefix ''Content-Disposition:'' line then parse_content_disposition line part
        else if prefix ''Content-Type:'' line then part\<lparr>fp_content_type := trim (drop 13 line)\<rparr>
        else parse_custom_header line part)"

text \<open>Where the header section ends and the body begins.\<close>

definition split_part :: "bytes \<Rightarrow> bytes \<times> bytes" where
  "split_part data =
     (case search k2CRLF data of
        Some sep \<Rightarrow> (take sep data, drop (sep + 4) data)
      | None \<Rightarrow> (case search k2LF data of
          Some sep \<Rightarrow> (take sep data, drop (sep + 2) data)
        | None \<Rightarrow> (data, [])))"

definition parse_part :: "bytes \<Rightarrow> form_part" where
  "parse_part data =
     (let (headers_section, body) = split_part data
      in (fold parse_header (getlines headers_section) new_part)\<lparr>fp_data := body\<rparr>)"

definition is_valid_boundary_suffix_char :: "char \<Rightarrow> bool" where
  "is_valid_boundary_suffix_char c \<longleftrightarrow> c = CR \<or> c = LF \<or> c = CHR ''-'' \<or> c = CHR '' '' \<or> c = CHR 0x09"

text \<open>The scan for the next real boundary: false matches inside binary data are stepped over.\<close>

fun next_boundary :: "bytes \<Rightarrow> bytes \<Rightarrow> nat option" where
  "next_boundary marker [] = None"
| "next_boundary marker (c # s) =
     (if prefix marker (c # s)
         \<and> (let after = drop (length marker) (c # s) in after = [] \<or> is_valid_boundary_suffix_char (hd after))
      then Some 0 else map_option Suc (next_boundary marker s))"

lemma next_boundary_less: "next_boundary marker s = Some k \<Longrightarrow> k < length s"
  by (induction s arbitrary: k) (auto split: if_splits)

definition store_part :: "form_part \<Rightarrow> part_map \<Rightarrow> part_map" where
  "store_part part parts = (if fp_name part \<noteq> [] then parts(fp_name part \<mapsto> part) else parts)"

definition part_body :: "bytes \<Rightarrow> bytes" where
  "part_body body = (if body \<noteq> [] \<and> last body = CR then butlast body else body)"

lemma skip_crlf_length: "length (skip_crlf p) \<le> length p"
  by (auto simp: skip_crlf_def Let_def)

lemma skip_boundary_suffix_length: "length (fst (skip_boundary_suffix p)) \<le> length p"
proof -
  have a: "length (dropWhile is_blank q) \<le> length q" for q by (rule length_dropWhile_le)
  have b: "length (skip_crlf (dropWhile is_blank (drop 2 q))) \<le> length q" for q
    using skip_crlf_length [of "dropWhile is_blank (drop 2 q)"] a [of "drop 2 q"] by simp
  show ?thesis
    using a [of p] b [of "dropWhile is_blank p"] skip_crlf_length [of "dropWhile is_blank p"]
    by (simp add: skip_boundary_suffix_def Let_def)
qed

function parse_loop :: "bytes \<Rightarrow> bytes \<Rightarrow> part_map \<Rightarrow> part_map" where
  "parse_loop marker p parts =
     (if marker = [] then parts
      else case next_boundary marker p of
        None \<Rightarrow> parts
      | Some k \<Rightarrow>
          (let parts' = store_part (parse_part (part_body (take k p))) parts;
               (p', is_final) = skip_boundary_suffix (drop (k + length marker) p)
           in if is_final then parts' else parse_loop marker p' parts'))"
  by pat_completeness auto
termination
proof (relation "measure (\<lambda>(m, p, ps). length p)")
  fix marker p k parts' x p' final and parts :: part_map
  assume "next_boundary marker p = Some k" "x = skip_boundary_suffix (drop (k + length marker) p)" "(p', final) = x"
    and "marker \<noteq> []"
  then have "length p' \<le> length (drop (k + length marker) p)" "k < length p"
    using skip_boundary_suffix_length [of "drop (k + length marker) p"] next_boundary_less by (metis fst_conv, blast)
  with \<open>marker \<noteq> []\<close> show "((marker, p', parts'), (marker, p, parts)) \<in> measure (\<lambda>(m, p, ps). length p)"
    by (cases marker) auto
qed simp

declare parse_loop.simps [simp del]

definition MultiFormParser_parse :: "bytes \<Rightarrow> bytes \<Rightarrow> part_map" where
  "MultiFormParser_parse data content_type =
     (let boundary = extract_boundary content_type in
      if boundary = [] then Map.empty
      else let bstr = ''--'' @ boundary in
        case search bstr data of
          None \<Rightarrow> Map.empty
        | Some first \<Rightarrow>
            (let (p, is_final) = skip_boundary_suffix (drop (first + length bstr) data)
             in if is_final then Map.empty else parse_loop (LF # bstr) p Map.empty))"

section \<open>MultiFormConvert\<close>

definition trim_blank :: "bytes \<Rightarrow> bytes" where
  "trim_blank s =
     (let s = (case find_first_not_of is_blank s of None \<Rightarrow> [] | Some a \<Rightarrow> drop a s)
      in case find_last_not_of is_blank s of None \<Rightarrow> [] | Some l \<Rightarrow> take (l + 1) s)"

definition old_extract_boundary :: "bytes \<Rightarrow> bytes" where
  "old_extract_boundary content_type =
     (case search ''boundary='' content_type of
        None \<Rightarrow> []
      | Some pos \<Rightarrow> quoted_or_to_semicolon id (drop (pos + 9) content_type))"

definition old_content_disposition :: "bytes \<Rightarrow> form_part \<Rightarrow> form_part" where
  "old_content_disposition line part =
     (let part = (case extract_quoted NAME_ATTR line of None \<Rightarrow> part | Some s \<Rightarrow> part\<lparr>fp_name := s\<rparr>)
      in case extract_quoted FILENAME_ATTR line of None \<Rightarrow> part | Some s \<Rightarrow> part\<lparr>fp_filename := s\<rparr>)"

definition old_header_line :: "bytes \<Rightarrow> form_part \<Rightarrow> form_part" where
  "old_header_line line part =
     (case search '':'' line of
        None \<Rightarrow> part
      | Some colon_pos \<Rightarrow>
          if colon_pos = 0 then part
          else part\<lparr>fp_headers := (fp_headers part)
            (trim_blank (take colon_pos line) \<mapsto> trim_blank (drop (colon_pos + 1) line))\<rparr>)"

definition old_parse_header :: "bytes \<Rightarrow> form_part \<Rightarrow> form_part" where
  "old_parse_header line part =
     (if line = [] then part
      else if prefix ''Content-Disposition:'' line then old_content_disposition line part
      else if prefix ''Content-Type:'' line then part\<lparr>fp_content_type := trim_blank (drop 13 line)\<rparr>
      else old_header_line line part)"

definition old_parse_part :: "bytes \<Rightarrow> form_part" where
  "old_parse_part part_data =
     (let header_end = (case search k2CRLF part_data of Some i \<Rightarrow> Some i | None \<Rightarrow> search k2LF part_data)
      in case header_end of
           None \<Rightarrow> new_part
         | Some i \<Rightarrow>
             fold old_parse_header (getlines (take i part_data))
               (new_part\<lparr>fp_data := drop (i + (if part_data ! i = CR then 4 else 2)) part_data\<rparr>))"

text \<open>The loop, entered with the text from a delimiter on.\<close>

function old_loop :: "bytes \<Rightarrow> bytes \<Rightarrow> part_map \<Rightarrow> part_map" where
  "old_loop delimiter p parts =
     (let q = drop (length delimiter) p in
      if q = [] \<or> delimiter = [] then parts
      else let r = skip_crlf q in
        case (case search delimiter r of Some e \<Rightarrow> Some e | None \<Rightarrow> search (delimiter @ ''--'') r) of
          None \<Rightarrow> parts
        | Some end_pos \<Rightarrow>
            old_loop delimiter (drop end_pos r) (store_part (old_parse_part (take end_pos r)) parts))"
  by pat_completeness auto
termination
proof (relation "measure (\<lambda>(d, p, ps). length p)")
  fix delimiter p q r e and parts :: part_map
  assume "q = drop (length delimiter) p" "\<not> (q = [] \<or> delimiter = [])" "r = skip_crlf q"
  then have "length (drop e r) < length p" using skip_crlf_length [of q] by (cases delimiter) auto
  then show "((delimiter, drop e r, store_part (old_parse_part (take e r)) parts), (delimiter, p, parts))
      \<in> measure (\<lambda>(d, p, ps). length p)" by simp
qed simp

declare old_loop.simps [simp del]

definition MultiFormConvert_parse :: "bytes \<Rightarrow> bytes \<Rightarrow> part_map" where
  "MultiFormConvert_parse content content_type =
     (let boundary = old_extract_boundary content_type in
      if boundary = [] then Map.empty
      else let delimiter = ''--'' @ boundary in
        case search delimiter content of
          None \<Rightarrow> Map.empty
        | Some start_pos \<Rightarrow> old_loop delimiter (drop start_pos content) Map.empty)"

section \<open>Writing a form\<close>

text \<open>The text a client sends for a form: name, optional file name, optional type, data.\<close>

record form_field =
  ff_name :: bytes
  ff_filename :: bytes
  ff_type :: bytes
  ff_data :: bytes

definition disposition_line :: "form_field \<Rightarrow> bytes" where
  "disposition_line f = ''Content-Disposition: form-data; '' @ NAME_ATTR @ ff_name f @ [QUOTE]
     @ (if ff_filename f = [] then [] else ''; '' @ FILENAME_ATTR @ ff_filename f @ [QUOTE])"

definition field_lines :: "form_field \<Rightarrow> bytes list" where
  "field_lines f = disposition_line f # (if ff_type f = [] then [] else [''Content-Type: '' @ ff_type f])"

definition lines_text :: "bytes list \<Rightarrow> bytes" where
  "lines_text ls = concat (map (\<lambda>l. l @ [CR, LF]) ls)"

definition field_text :: "form_field \<Rightarrow> bytes" where
  "field_text f = lines_text (field_lines f) @ [CR, LF] @ ff_data f"

fun form_tail :: "bytes \<Rightarrow> form_field list \<Rightarrow> bytes" where
  "form_tail bstr [] = ''--'' @ [CR, LF]"
| "form_tail bstr (f # fs) = [CR, LF] @ field_text f @ [CR, LF] @ bstr @ form_tail bstr fs"

definition encode_form :: "bytes \<Rightarrow> form_field list \<Rightarrow> bytes" where
  "encode_form boundary fs = ''--'' @ boundary @ form_tail (''--'' @ boundary) fs"

definition plain :: "bytes \<Rightarrow> bool" where
  "plain s \<longleftrightarrow> QUOTE \<notin> set s \<and> CR \<notin> set s \<and> LF \<notin> set s"

text \<open>The one thing the data must not contain: the boundary line itself. A boundary text followed by
  any character that cannot end a boundary line is allowed.\<close>

definition clean :: "bytes \<Rightarrow> bytes \<Rightarrow> bool" where
  "clean marker s \<longleftrightarrow> next_boundary marker ((s @ [CR]) @ marker @ [CR]) = Some (length (s @ [CR]))"

definition field_ok :: "bytes \<Rightarrow> form_field \<Rightarrow> bool" where
  "field_ok marker f \<longleftrightarrow> plain (ff_name f) \<and> ff_name f \<noteq> [] \<and> plain (ff_filename f) \<and> plain (ff_type f)
     \<and> \<not> suffix ''filename='' (ff_name f) \<and> trim (ff_type f) = ff_type f \<and> clean marker (field_text f)"

definition field_part :: "form_field \<Rightarrow> form_part" where
  "field_part f = \<lparr>fp_name = ff_name f, fp_filename = ff_filename f, fp_content_type = ff_type f,
     fp_data = ff_data f, fp_headers = Map.empty\<rparr>"

section \<open>Reading it back\<close>

lemma search_skip: "c \<notin> set l \<Longrightarrow> search (c # n) (l @ s) = map_option (\<lambda>i. length l + i) (search (c # n) s)"
proof (induction l)
  case Nil
  then show ?case by (simp add: option.map_ident)
next
  case (Cons x l)
  then show ?case by (simp add: option.map_comp comp_def)
qed

lemma search_sep:
  assumes "ls \<noteq> []" and "\<forall>l\<in>set ls. l \<noteq> [] \<and> CR \<notin> set l"
  shows "search k2CRLF (lines_text ls @ [CR, LF] @ d) = Some (length (lines_text ls) - 2)"
  using assms
proof (induction ls)
  case (Cons l ls)
  show ?case
  proof (cases "ls = []")
    case True
    with Cons.prems search_skip [of CR l "[LF, CR, LF]"] show ?thesis by (simp add: lines_text_def k2CRLF_def)
  next
    case False
    then obtain l2 ls2 where ls: "ls = l2 # ls2" by (cases ls) auto
    from Cons.prems ls obtain x xs where l2: "l2 = x # xs" "x \<noteq> CR" by (cases l2) auto
    let ?rest = "lines_text ls @ [CR, LF] @ d"
    have r: "?rest = x # xs @ [CR, LF] @ lines_text ls2 @ [CR, LF] @ d" by (simp add: ls l2 lines_text_def)
    have IH: "search k2CRLF ?rest = Some (length (lines_text ls) - 2)" using Cons False by auto
    have "search k2CRLF (l @ CR # LF # ?rest) = map_option (\<lambda>i. length l + i) (search k2CRLF (CR # LF # ?rest))"
      using Cons.prems search_skip [of CR l] by (simp add: k2CRLF_def)
    moreover have "search k2CRLF (CR # LF # ?rest) = map_option (\<lambda>i. Suc (Suc i)) (search k2CRLF ?rest)"
      using l2(2) unfolding r by (simp add: k2CRLF_def option.map_comp comp_def)
    moreover have "2 \<le> length (lines_text ls)" by (simp add: ls lines_text_def)
    ultimately show ?thesis using IH by (simp add: lines_text_def)
  qed
qed simp

lemma takeWhile_quote: "QUOTE \<notin> set s \<Longrightarrow> takeWhile (\<lambda>c. c \<noteq> QUOTE) (s @ QUOTE # v) = s"
  by (induction s) auto

text \<open>The first quoted attribute: a key ending in a quote is found where the text before the first quote
  ends in it, or behind that quote.\<close>

lemma search_quoted:
  assumes "QUOTE \<notin> set w" "w \<noteq> []" "QUOTE \<notin> set u"
  shows "search (w @ [QUOTE]) (u @ QUOTE # v) =
    (if suffix w u then Some (length u - length w)
     else map_option (\<lambda>i. length u + 1 + i) (search (w @ [QUOTE]) v))"
  using assms(3)
proof (induction u)
  case Nil
  from assms(1,2) have "\<not> prefix (w @ [QUOTE]) (QUOTE # v)" by (cases w) auto
  moreover have "(+) (Suc 0) = Suc" by (simp add: fun_eq_iff)
  ultimately show ?case using assms(2) by simp
next
  case (Cons x u)
  have p: "prefix (w @ [QUOTE]) ((x # u) @ QUOTE # v) \<longleftrightarrow> w = x # u"
  proof
    assume "prefix (w @ [QUOTE]) ((x # u) @ QUOTE # v)"
    then obtain z where "w @ QUOTE # z = (x # u) @ QUOTE # v" by (auto simp: prefix_def)
    then have "takeWhile (\<lambda>c. c \<noteq> QUOTE) (w @ QUOTE # z) = takeWhile (\<lambda>c. c \<noteq> QUOTE) ((x # u) @ QUOTE # v)" by simp
    with takeWhile_quote [OF assms(1)] takeWhile_quote [OF Cons.prems] show "w = x # u" by metis
  qed (simp add: prefix_def)
  show ?case
  proof (cases "w = x # u")
    case True
    with p show ?thesis by simp
  next
    case False
    then have s: "suffix w (x # u) \<longleftrightarrow> suffix w u" by (auto simp: suffix_Cons)
    have l: "suffix w u \<Longrightarrow> length w \<le> length u" by (rule suffix_length_le)
    have "search (w @ [QUOTE]) ((x # u) @ QUOTE # v) = map_option Suc (search (w @ [QUOTE]) (u @ QUOTE # v))"
      using p False by simp
    with Cons s l show ?thesis by (auto simp: option.map_comp comp_def Suc_diff_le)
  qed
qed

lemma name_of_disposition:
  assumes "plain (ff_name f)"
  shows "extract_quoted NAME_ATTR (disposition_line f) = Some (ff_name f)"
proof -
  let ?u = "''Content-Disposition: form-data; name=''"
  obtain v where d: "disposition_line f = ?u @ QUOTE # ff_name f @ QUOTE # v"
    by (simp add: disposition_line_def NAME_ATTR_def)
  have u: "QUOTE \<notin> set ?u" "suffix ''name='' ?u" by (simp, code_simp)
  have "search NAME_ATTR (disposition_line f) = Some (length ?u - 5)"
    unfolding d NAME_ATTR_def using search_quoted [of "''name=''" ?u "ff_name f @ QUOTE # v"] u by simp
  moreover have "drop (length ?u - 5 + length NAME_ATTR) (disposition_line f) = ff_name f @ QUOTE # v"
    unfolding d by (simp add: NAME_ATTR_def)
  ultimately show ?thesis using assms takeWhile_quote [of "ff_name f" v]
    by (simp add: extract_quoted_def plain_def Let_def)
qed

lemma filename_of_disposition:
  assumes "plain (ff_name f)" "plain (ff_filename f)" "\<not> suffix ''filename='' (ff_name f)"
  shows "(case extract_quoted FILENAME_ATTR (disposition_line f) of None \<Rightarrow> [] | Some s \<Rightarrow> s) = ff_filename f"
proof -
  let ?u = "''Content-Disposition: form-data; name=''" and ?w = "''filename=''"
  have u: "QUOTE \<notin> set ?u" "\<not> suffix ?w ?u" by (simp, code_simp)
  have w: "QUOTE \<notin> set ?w" "?w \<noteq> []" by simp_all
  have n: "QUOTE \<notin> set (ff_name f)" using assms(1) by (simp add: plain_def)
  define v where "v = (if ff_filename f = [] then [] else ''; '' @ FILENAME_ATTR @ ff_filename f @ [QUOTE])"
  have d: "disposition_line f = ?u @ QUOTE # ff_name f @ QUOTE # v"
    by (simp add: disposition_line_def NAME_ATTR_def v_def)
  have s: "search FILENAME_ATTR (disposition_line f)
      = map_option (\<lambda>i. length ?u + 1 + (length (ff_name f) + 1 + i)) (search FILENAME_ATTR v)"
    unfolding d FILENAME_ATTR_def
    using search_quoted [OF w u(1), of "ff_name f @ QUOTE # v"] search_quoted [OF w n, of v] u(2) assms(3)
    by (simp add: option.map_comp comp_def)
  show ?thesis
  proof (cases "ff_filename f = []")
    case True
    then have "v = []" by (simp add: v_def)
    with s True show ?thesis by (simp add: extract_quoted_def FILENAME_ATTR_def)
  next
    case False
    have v: "v = ''; filename='' @ QUOTE # ff_filename f @ [QUOTE]" using False by (simp add: v_def FILENAME_ATTR_def)
    have "suffix ?w ''; filename=''" by code_simp
    then have "search FILENAME_ATTR v = Some 2"
      unfolding v FILENAME_ATTR_def using search_quoted [OF w, of "''; filename=''" "ff_filename f @ [QUOTE]"] by simp
    with s have i: "search FILENAME_ATTR (disposition_line f) = Some (length ?u + 1 + (length (ff_name f) + 1 + 2))" by simp
    have "drop (length ?u + 1 + (length (ff_name f) + 1 + 2) + length FILENAME_ATTR) (disposition_line f)
        = ff_filename f @ [QUOTE]"
      unfolding d v by (simp add: FILENAME_ATTR_def)
    with i assms(2) takeWhile_quote [of "ff_filename f" "[]"] show ?thesis
      by (simp add: extract_quoted_def plain_def Let_def)
  qed
qed

lemma trim_skip: "is_trimmed_char c \<Longrightarrow> trim (c # s) = trim s"
proof (cases "\<forall>x\<in>set s. is_trimmed_char x")
  case True
  assume "is_trimmed_char c"
  with True find_first_not_of_all [of "c # s" is_trimmed_char] find_first_not_of_all [of s is_trimmed_char]
  show ?thesis by (simp add: trim_def)
next
  case False
  assume c: "is_trimmed_char c"
  have t: "takeWhile is_trimmed_char (rev s @ [c]) = takeWhile is_trimmed_char (rev s)"
  proof -
    from False obtain x where "x \<in> set (rev s)" "\<not> is_trimmed_char x" by auto
    then show ?thesis by (rule takeWhile_append1)
  qed
  let ?a = "length (takeWhile is_trimmed_char s)" and ?b = "length (takeWhile is_trimmed_char (rev s))"
  have a: "?a < length s" using False takeWhile_eq_all_conv [of is_trimmed_char s] length_takeWhile_le [of is_trimmed_char s]
    by (metis le_neq_implies_less takeWhile_eq_take take_all order_refl)
  have b: "?b < length s" using False takeWhile_eq_all_conv [of is_trimmed_char "rev s"] length_takeWhile_le [of is_trimmed_char "rev s"]
    by (metis le_neq_implies_less takeWhile_eq_take take_all order_refl length_rev set_rev)
  from a b c t show ?thesis
    by (simp add: trim_def find_first_not_of_def find_last_not_of_def Let_def Suc_diff_le)
qed

lemma field_lines_ok:
  assumes "plain (ff_name f)" "plain (ff_filename f)" "plain (ff_type f)"
  shows "\<forall>l\<in>set (field_lines f). l \<noteq> [] \<and> CR \<notin> set l \<and> LF \<notin> set l"
  using assms by (auto simp: field_lines_def disposition_line_def NAME_ATTR_def FILENAME_ATTR_def plain_def)

lemma parse_header_CR: "l \<noteq> [] \<Longrightarrow> CR \<notin> set l \<Longrightarrow> parse_header (l @ [CR]) part = parse_header l part"
proof -
  assume l: "l \<noteq> []" "CR \<notin> set l"
  then have "last l \<noteq> CR" using last_in_set by metis
  with l show ?thesis by (simp add: parse_header_def)
qed

lemma fold_field_lines:
  assumes "plain (ff_name f)" "plain (ff_filename f)" "plain (ff_type f)" "\<not> suffix ''filename='' (ff_name f)"
    and "trim (ff_type f) = ff_type f"
  shows "(fold parse_header (field_lines f) new_part)\<lparr>fp_data := ff_data f\<rparr> = field_part f"
proof -
  let ?d = "disposition_line f"
  have ne: "?d \<noteq> []" "last ?d \<noteq> CR" "prefix ''Content-Disposition:'' ?d"
    by (auto simp: disposition_line_def NAME_ATTR_def FILENAME_ATTR_def)
  have d: "parse_header ?d new_part = new_part\<lparr>fp_name := ff_name f, fp_filename := ff_filename f\<rparr>"
    using ne name_of_disposition [OF assms(1)] filename_of_disposition [OF assms(1,2,4)]
    by (simp add: parse_header_def parse_content_disposition_def)
  show ?thesis
  proof (cases "ff_type f = []")
    case True
    with d show ?thesis by (simp add: field_lines_def field_part_def new_part_def)
  next
    case False
    let ?t = "''Content-Type: '' @ ff_type f"
    have "last (ff_type f) \<noteq> CR" using False assms(3) last_in_set [of "ff_type f"] by (metis plain_def)
    then have "last ?t \<noteq> CR" using False by simp
    moreover have "drop 13 ?t = CHR '' '' # ff_type f" by simp
    moreover have "trim (CHR '' '' # ff_type f) = ff_type f"
      using trim_skip [of "CHR '' ''" "ff_type f"] assms(5) by (simp add: is_trimmed_char_def is_blank_def)
    ultimately have "parse_header ?t p = p\<lparr>fp_content_type := ff_type f\<rparr>" for p
      by (simp add: parse_header_def)
    with d False show ?thesis by (simp add: field_lines_def field_part_def new_part_def)
  qed
qed

lemma getlines_lines:
  assumes "ls \<noteq> []" "\<forall>l\<in>set ls. l \<noteq> [] \<and> LF \<notin> set l"
  shows "getlines (take (length (lines_text ls) - 2) (lines_text ls)) = map (\<lambda>l. l @ [CR]) (butlast ls) @ [last ls]"
  using assms
proof (induction ls)
  case (Cons l ls)
  show ?case
  proof (cases "ls = []")
    case True
    with Cons.prems getlines_last [of l] show ?thesis by (simp add: lines_text_def)
  next
    case False
    have len: "2 \<le> length (lines_text ls)" using False by (cases ls) (auto simp: lines_text_def)
    have t: "lines_text (l # ls) = (l @ [CR]) @ LF # lines_text ls" by (simp add: lines_text_def)
    have "take (length (lines_text (l # ls)) - 2) (lines_text (l # ls))
        = (l @ [CR]) @ LF # take (length (lines_text ls) - 2) (lines_text ls)"
    proof -
      have n: "length (lines_text (l # ls)) - 2 = length (l @ [CR]) + (1 + (length (lines_text ls) - 2))"
        unfolding t using len by simp
      show ?thesis unfolding n unfolding t take_add take_append by simp
    qed
    moreover have "LF \<notin> set (l @ [CR])" using Cons.prems(2) by simp
    ultimately show ?thesis using Cons False getlines_Cons [of "l @ [CR]"] by simp
  qed
qed simp

lemma fold_parse_CR:
  "\<forall>l\<in>set ls. l \<noteq> [] \<and> CR \<notin> set l \<Longrightarrow> fold parse_header (map (\<lambda>l. l @ [CR]) ls) p = fold parse_header ls p"
  by (induction ls arbitrary: p) (simp_all add: parse_header_CR)

lemma parse_part_field:
  assumes "plain (ff_name f)" "plain (ff_filename f)" "plain (ff_type f)" "\<not> suffix ''filename='' (ff_name f)"
    and "trim (ff_type f) = ff_type f"
  shows "parse_part (field_text f) = field_part f"
proof -
  let ?ls = "field_lines f"
  have ok: "\<forall>l\<in>set ?ls. l \<noteq> [] \<and> CR \<notin> set l \<and> LF \<notin> set l" by (rule field_lines_ok [OF assms(1-3)])
  have ne: "?ls \<noteq> []" by (simp add: field_lines_def)
  have len: "2 \<le> length (lines_text ?ls)" using ne by (cases ?ls) (auto simp: lines_text_def)
  have s: "search k2CRLF (field_text f) = Some (length (lines_text ?ls) - 2)"
    unfolding field_text_def using search_sep [OF ne, of "ff_data f"] ok by blast
  have h: "take (length (lines_text ?ls) - 2) (field_text f) = take (length (lines_text ?ls) - 2) (lines_text ?ls)"
    by (simp add: field_text_def)
  have b: "drop (length (lines_text ?ls) - 2 + 4) (field_text f) = ff_data f"
    using len by (simp add: field_text_def)
  have l: "map (\<lambda>l. l @ [CR]) (butlast ?ls) @ [last ?ls]
      = map (\<lambda>l. l @ [CR]) (butlast ?ls) @ [last ?ls]" ..
  have "fold parse_header (map (\<lambda>l. l @ [CR]) (butlast ?ls) @ [last ?ls]) new_part
      = fold parse_header (butlast ?ls @ [last ?ls]) new_part"
    using ok by (simp add: fold_parse_CR in_set_butlastD)
  then have "fold parse_header (getlines (take (length (lines_text ?ls) - 2) (field_text f))) new_part
      = fold parse_header ?ls new_part"
    unfolding h using getlines_lines [OF ne] ok ne by simp
  with s b fold_field_lines [OF assms] show ?thesis by (simp add: parse_part_def split_part_def)
qed

lemma next_boundary_real:
  assumes "next_boundary m (u @ m @ [CR]) = Some (length u)" and "m \<noteq> []"
    and "t \<noteq> []" "is_valid_boundary_suffix_char (hd t)"
  shows "next_boundary m (u @ m @ t) = Some (length u)"
  using assms(1)
proof (induction u)
  case Nil
  from assms(2) obtain c m' where "m = c # m'" by (cases m) auto
  with assms(3,4) show ?case by simp
next
  case (Cons c u)
  let ?v = "c # u @ m"
  have bad: "\<not> (prefix m (?v @ [CR]) \<and> (let after = drop (length m) (?v @ [CR])
      in after = [] \<or> is_valid_boundary_suffix_char (hd after)))"
    and IH: "next_boundary m (u @ m @ [CR]) = Some (length u)"
    using Cons.prems by (auto split: if_splits)
  have tk: "prefix m s \<longleftrightarrow> take (length m) s = m" for s
    by (metis append_eq_conv_conj prefix_def)
  have p: "prefix m (?v @ t) \<longleftrightarrow> prefix m (?v @ [CR])" for t
  proof -
    have "take (length m) (?v @ t) = take (length m) ?v" for t
      unfolding take_append by simp
    then show ?thesis unfolding tk by metis
  qed
  have d: "drop (length m) (?v @ t) = drop (length m) ?v @ t" "drop (length m) ?v \<noteq> []" for t
    unfolding drop_append by simp_all
  have "next_boundary m ((c # u) @ m @ t) = map_option Suc (next_boundary m (u @ m @ t))"
    using bad p [of t] d by (auto simp: Let_def)
  with Cons.IH [OF IH] show ?case by simp
qed

lemma form_tail_hd: "form_tail b fs \<noteq> [] \<and> is_valid_boundary_suffix_char (hd (form_tail b fs))"
  by (cases fs) (simp_all add: is_valid_boundary_suffix_char_def)

lemma skip_form_tail:
  "skip_boundary_suffix (form_tail b []) = ([], True)"
  "skip_boundary_suffix (form_tail b (f # fs)) = (field_text f @ [CR, LF] @ b @ form_tail b fs, False)"
proof -
  show "skip_boundary_suffix (form_tail b []) = ([], True)"
    by (simp add: skip_boundary_suffix_def is_blank_def skip_crlf_def)
  have "field_text f = CHR ''C'' # tl (field_text f)"
    by (simp add: field_text_def field_lines_def lines_text_def disposition_line_def)
  then obtain xs where "field_text f = CHR ''C'' # xs" by blast
  then show "skip_boundary_suffix (form_tail b (f # fs)) = (field_text f @ [CR, LF] @ b @ form_tail b fs, False)"
    by (simp add: skip_boundary_suffix_def is_blank_def skip_crlf_def)
qed

lemma parse_loop_form:
  assumes "\<forall>f\<in>set fs. field_ok (LF # b) f" "fs \<noteq> []"
  shows "parse_loop (LF # b) (fst (skip_boundary_suffix (form_tail b fs))) ps
    = fold (\<lambda>f ps. ps(ff_name f \<mapsto> field_part f)) fs ps"
  using assms
proof (induction fs arbitrary: ps)
  case (Cons f fs)
  let ?m = "LF # b" and ?u = "field_text f @ [CR]"
  have f: "field_ok ?m f" using Cons.prems(1) by simp
  have clean: "next_boundary ?m (?u @ ?m @ [CR]) = Some (length ?u)"
    using f unfolding field_ok_def clean_def by blast
  have p: "fst (skip_boundary_suffix (form_tail b (f # fs))) = ?u @ ?m @ form_tail b fs"
    unfolding skip_form_tail by simp
  have nb: "next_boundary ?m (?u @ ?m @ form_tail b fs) = Some (length ?u)"
    using next_boundary_real [OF clean] form_tail_hd by blast
  have part: "parse_part (part_body (take (length ?u) (?u @ ?m @ form_tail b fs))) = field_part f"
    using f parse_part_field [of f] by (simp add: part_body_def field_ok_def)
  have store: "store_part (field_part f) ps = ps(ff_name f \<mapsto> field_part f)"
    using f by (simp add: store_part_def field_part_def field_ok_def)
  have rest: "drop (length ?u + length ?m) (?u @ ?m @ form_tail b fs) = form_tail b fs" by simp
  have step: "parse_loop ?m (?u @ ?m @ form_tail b fs) ps =
      (if snd (skip_boundary_suffix (form_tail b fs)) then ps(ff_name f \<mapsto> field_part f)
       else parse_loop ?m (fst (skip_boundary_suffix (form_tail b fs))) (ps(ff_name f \<mapsto> field_part f)))"
    by (subst parse_loop.simps) (simp only: nb part store rest Let_def option.case prod.case_eq_if list.distinct if_False)
  show ?case
  proof (cases fs)
    case Nil
    with step skip_form_tail(1) show ?thesis unfolding p by simp
  next
    case (Cons f' fs')
    with step skip_form_tail(2) Cons.IH Cons.prems show ?thesis unfolding p by (simp del: fun_upd_apply)
  qed
qed simp

definition form_content_type :: "bytes \<Rightarrow> bytes" where
  "form_content_type boundary = ''multipart/form-data; boundary='' @ boundary"

definition boundary_ok :: "bytes \<Rightarrow> bool" where
  "boundary_ok b \<longleftrightarrow> b \<noteq> [] \<and> hd b \<noteq> QUOTE \<and> CHR '';'' \<notin> set b \<and> trim b = b"

lemma extract_form_boundary: "boundary_ok b \<Longrightarrow> extract_boundary (form_content_type b) = b"
proof -
  assume b: "boundary_ok b"
  have s: "search ''boundary='' (form_content_type b) = Some 21" by (simp add: form_content_type_def)
  have d: "drop (21 + 9) (form_content_type b) = b" by (simp add: form_content_type_def)
  have tw: "takeWhile (\<lambda>c. c \<noteq> CHR '';'') b = b" using b by (auto simp: boundary_ok_def takeWhile_eq_all_conv)
  have "trim (takeWhile (\<lambda>c. c \<noteq> CHR '';'') b) = b" unfolding tw using b by (simp add: boundary_ok_def)
  with s d b show ?thesis by (simp add: extract_boundary_def quoted_or_to_semicolon_def boundary_ok_def Let_def)
qed

text \<open>C9. A form survives the trip: parsing the text of a form gives back, under each field name, the
  file name, the type and the data of the last field of that name, byte for byte. The data may hold
  any bytes, line breaks and even the boundary text, as long as it holds no boundary line (a line
  break, the boundary text, and a character that can end such a line).\<close>

theorem form_roundtrip:
  assumes "boundary_ok b" and "\<forall>f\<in>set fs. field_ok (LF # ''--'' @ b) f" and "fs \<noteq> []"
  shows "MultiFormParser_parse (encode_form b fs) (form_content_type b)
    = fold (\<lambda>f ps. ps(ff_name f \<mapsto> field_part f)) fs Map.empty"
proof -
  let ?b = "''--'' @ b"
  have "search ?b (?b @ form_tail ?b fs) = Some 0"
    by (rule search_SomeI) simp_all
  then have s: "search ?b (encode_form b fs) = Some 0" by (simp add: encode_form_def)
  have d: "drop (0 + length ?b) (encode_form b fs) = form_tail ?b fs" by (simp add: encode_form_def)
  from assms(3) obtain f fs' where fs: "fs = f # fs'" by (cases fs) auto
  have fin: "\<not> snd (skip_boundary_suffix (form_tail ?b fs))" unfolding fs skip_form_tail(2) by simp
  have ne: "b \<noteq> []" using assms(1) by (simp add: boundary_ok_def)
  show ?thesis
    unfolding MultiFormParser_parse_def extract_form_boundary [OF assms(1)] Let_def s option.case d prod.case_eq_if
    using fin ne parse_loop_form [OF assms(2,3)] by simp
qed

definition sample_form :: "form_field list" where
  "sample_form = [\<lparr>ff_name = ''note'', ff_filename = [], ff_type = [], ff_data = ''hello''\<rparr>,
     \<lparr>ff_name = ''img'', ff_filename = ''a.bin'', ff_type = ''image/x'', ff_data = [CR, LF] @ ''--XY'' @ ''z'' @ [LF, CHR 0x00]\<rparr>]"

theorem form_roundtrip_witness:
  "map_option fp_data (MultiFormParser_parse (encode_form ''XY'' sample_form) (form_content_type ''XY'') ''img'')
     = Some ([CR, LF] @ ''--XY'' @ ''z'' @ [LF, CHR 0x00])"
proof -
  have b: "boundary_ok ''XY''" by code_simp
  have "list_all (field_ok (LF # ''--'' @ ''XY'')) sample_form" by code_simp
  then have f: "\<forall>f\<in>set sample_form. field_ok (LF # ''--'' @ ''XY'') f" by (simp only: list_all_iff)
  have "sample_form \<noteq> []" by (simp add: sample_form_def)
  from form_roundtrip [OF b f this] show ?thesis by (simp add: sample_form_def field_part_def)
qed

text \<open>The name of a part whose header states the file name first is lost: both parsers find the
  attribute \<^verbatim>\<open>name="\<close> inside \<^verbatim>\<open>filename="\<close> and take the file name for the field name.\<close>

theorem filename_first_taken_as_name:
  assumes "QUOTE \<notin> set fname"
    and "line = ''Content-Disposition: form-data; filename='' @ [QUOTE] @ fname @ [QUOTE] @ ''; name='' @ [QUOTE] @ nm @ [QUOTE]"
  shows "fp_name (parse_content_disposition line p) = fname
    \<and> fp_name (old_content_disposition line p) = fname"
proof -
  let ?u = "''Content-Disposition: form-data; filename=''"
  let ?v = "fname @ QUOTE # ''; name='' @ [QUOTE] @ nm @ [QUOTE]"
  have l: "line = ?u @ QUOTE # ?v" using assms(2) by simp
  have u: "QUOTE \<notin> set ?u" "suffix ''name='' ?u" by (simp, code_simp)
  have "search NAME_ATTR line = Some (length ?u - 5)"
    unfolding l NAME_ATTR_def using search_quoted [of "''name=''" ?u ?v] u by simp
  moreover have "drop (length ?u - 5 + length NAME_ATTR) line = ?v" unfolding l by (simp add: NAME_ATTR_def)
  ultimately have n: "extract_quoted NAME_ATTR line = Some fname"
    using takeWhile_quote [OF assms(1)] by (simp add: extract_quoted_def Let_def)
  then show ?thesis
    by (auto simp: parse_content_disposition_def old_content_disposition_def Let_def split: option.splits)
qed

theorem filename_first_taken_as_name_witness:
  "fp_name (parse_content_disposition (''Content-Disposition: form-data; filename='' @ [QUOTE] @ ''a.txt'' @ [QUOTE]
     @ ''; name='' @ [QUOTE] @ ''file'' @ [QUOTE]) new_part) = ''a.txt''"
  using filename_first_taken_as_name [of "''a.txt''" _ "''file''" new_part] by simp

end
