(* ===== verification/LruCache.thy ===== *)
theory LruCache
  imports Prelude "HOL-Library.Multiset"
begin

text \<open>
  \<^verbatim>\<open>LruCache\<close> (include/base/lru_cache.h). \<^verbatim>\<open>list_\<close> is a list of nodes with an identity, because \<^verbatim>\<open>map_\<close>
  holds iterators into it; \<^verbatim>\<open>map_\<close> is an association list from keys to node identities. The critical
  sections are the steps: \<^verbatim>\<open>tryGet\<close> and \<^verbatim>\<open>erase\<close> take two of them, one under \<^verbatim>\<open>rw_mutex_\<close> and one
  under \<^verbatim>\<open>pending_mutex_\<close>, and other threads may run in between. The \<^verbatim>\<open>assert\<close>s of the eviction are
  branches of the model.
\<close>

section \<open>The cache\<close>

type_synonym ('k, 'v) node = "nat \<times> 'k \<times> 'v"

record ('k, 'v) lru =
  lru_capacity :: nat
  lru_map :: "('k \<times> nat) list"
  lru_list :: "('k, 'v) node list"
  lru_pending :: "'k list"
  lru_next :: nat               \<comment> \<open>identity of the next node\<close>

definition kDefaultCapacity :: nat where "kDefaultCapacity = 32"

definition new_lru :: "nat \<Rightarrow> ('k, 'v) lru" where
  "new_lru cap = \<lparr>lru_capacity = cap, lru_map = [], lru_list = [], lru_pending = [], lru_next = 0\<rparr>"

text \<open>\<^verbatim>\<open>list_.splice(list_.begin(), list_, it)\<close>: the node moves to the front.\<close>

definition splice_front :: "nat \<Rightarrow> ('k, 'v) node list \<Rightarrow> ('k, 'v) node list" where
  "splice_front i l = filter (\<lambda>n. fst n = i) l @ filter (\<lambda>n. fst n \<noteq> i) l"

definition set_node_value :: "nat \<Rightarrow> 'v \<Rightarrow> ('k, 'v) node list \<Rightarrow> ('k, 'v) node list" where
  "set_node_value i v l = map (\<lambda>(j, k, w). if j = i then (j, k, v) else (j, k, w)) l"

definition node_of_id :: "nat \<Rightarrow> ('k, 'v) node list \<Rightarrow> ('k \<times> 'v) option" where
  "node_of_id i l = map_of l i"

definition promote_key :: "('k \<times> nat) list \<Rightarrow> 'k \<Rightarrow> ('k, 'v) node list \<Rightarrow> ('k, 'v) node list" where
  "promote_key m k l = (case map_of m k of None \<Rightarrow> l | Some i \<Rightarrow> splice_front i l)"

definition promoteUnLocked :: "('k, 'v) lru \<Rightarrow> ('k, 'v) lru" where
  "promoteUnLocked c =
     (if lru_pending c = [] then c
      else c\<lparr>lru_pending := [], lru_list := fold (promote_key (lru_map c)) (lru_pending c) (lru_list c)\<rparr>)"

definition eliminateUnLocked :: "('k, 'v) lru \<Rightarrow> cpp_error + ('k, 'v) lru" where
  "eliminateUnLocked c =
     (if lru_list c = [] then Inl NullDeref
      else let key = fst (snd (last (lru_list c)));
               m = filter (\<lambda>e. fst e \<noteq> key) (lru_map c);
               n = length (lru_map c) - length m;
               l = butlast (lru_list c)
           in if n \<noteq> 1 then Inl AssertFail
              else if length m \<noteq> length l then Inl AssertFail
              else Inr (c\<lparr>lru_map := m, lru_list := l\<rparr>))"

definition lru_put :: "'k \<Rightarrow> 'v \<Rightarrow> ('k, 'v) lru \<Rightarrow> cpp_error + ('k, 'v) lru" where
  "lru_put key value c =
     (let (i, c) = (case map_of (lru_map c) key of
            Some i \<Rightarrow> (i, c\<lparr>lru_list := set_node_value i value (lru_list c)\<rparr>)
          | None \<Rightarrow> (lru_next c, c\<lparr>lru_list := (lru_next c, key, value) # lru_list c,
                                  lru_map := (key, lru_next c) # lru_map c, lru_next := lru_next c + 1\<rparr>));
          c = promoteUnLocked c;
          c = c\<lparr>lru_list := splice_front i (lru_list c)\<rparr>
      in if length (lru_map c) > lru_capacity c then eliminateUnLocked c else Inr c)"

text \<open>\<^verbatim>\<open>tryGet\<close>: the read, then the promotion request.\<close>

definition lru_read :: "'k \<Rightarrow> ('k, 'v) lru \<Rightarrow> 'v option" where
  "lru_read key c =
     (case map_of (lru_map c) key of None \<Rightarrow> None | Some i \<Rightarrow> map_option snd (node_of_id i (lru_list c)))"

definition lru_push :: "'k \<Rightarrow> ('k, 'v) lru \<Rightarrow> ('k, 'v) lru" where
  "lru_push key c =
     (if lru_pending c = [] \<or> last (lru_pending c) \<noteq> key then c\<lparr>lru_pending := lru_pending c @ [key]\<rparr> else c)"

definition lru_tryGet :: "'k \<Rightarrow> ('k, 'v) lru \<Rightarrow> 'v option \<times> ('k, 'v) lru" where
  "lru_tryGet key c = (case lru_read key c of None \<Rightarrow> (None, c) | Some v \<Rightarrow> (Some v, lru_push key c))"

definition lru_exist :: "'k \<Rightarrow> ('k, 'v) lru \<Rightarrow> bool" where
  "lru_exist key c \<longleftrightarrow> map_of (lru_map c) key \<noteq> None"

text \<open>\<^verbatim>\<open>erase\<close>: the list and the map, then the pending queue.\<close>

definition lru_erase_entry :: "'k \<Rightarrow> ('k, 'v) lru \<Rightarrow> bool \<times> ('k, 'v) lru" where
  "lru_erase_entry key c =
     (case map_of (lru_map c) key of
        None \<Rightarrow> (False, c)
      | Some i \<Rightarrow> (True, c\<lparr>lru_list := filter (\<lambda>n. fst n \<noteq> i) (lru_list c),
                          lru_map := filter (\<lambda>e. fst e \<noteq> key) (lru_map c)\<rparr>))"

definition lru_erase_pending :: "'k \<Rightarrow> ('k, 'v) lru \<Rightarrow> ('k, 'v) lru" where
  "lru_erase_pending key c = c\<lparr>lru_pending := filter (\<lambda>k. k \<noteq> key) (lru_pending c)\<rparr>"

definition lru_erase :: "'k \<Rightarrow> ('k, 'v) lru \<Rightarrow> ('k, 'v) lru" where
  "lru_erase key c = (case lru_erase_entry key c of (found, c') \<Rightarrow> if found then lru_erase_pending key c' else c')"

definition lru_head :: "('k, 'v) lru \<Rightarrow> 'v option" where
  "lru_head c = (if lru_list c = [] then None else Some (snd (snd (hd (lru_list c)))))"

definition lru_tail :: "('k, 'v) lru \<Rightarrow> 'v option \<times> ('k, 'v) lru" where
  "lru_tail c =
     (if lru_list c = [] then (None, c)
      else let n = last (lru_list c) in (Some (snd (snd n)), lru_push (fst (snd n)) c))"

definition lru_clear :: "('k, 'v) lru \<Rightarrow> ('k, 'v) lru" where
  "lru_clear c = c\<lparr>lru_list := [], lru_map := [], lru_pending := []\<rparr>"

definition lru_size :: "('k, 'v) lru \<Rightarrow> nat" where
  "lru_size c = length (lru_map c)"

section \<open>The steps of concurrent threads\<close>

text \<open>Each critical section of each operation, by whatever thread; a second section may come late and
  is then taken with whatever key the first one saw.\<close>

inductive lru_step :: "('k, 'v) lru \<Rightarrow> ('k, 'v) lru \<Rightarrow> bool" where
  put: "lru_put k v c = Inr c' \<Longrightarrow> lru_step c c'"
| push: "lru_step c (lru_push k c)"
| erase_entry: "lru_step c (snd (lru_erase_entry k c))"
| erase_pending: "lru_step c (lru_erase_pending k c)"
| clear: "lru_step c (lru_clear c)"
| promote: "lru_step c (promoteUnLocked c)"

inductive lru_reach :: "nat \<Rightarrow> ('k, 'v) lru \<Rightarrow> bool" for cap where
  start: "lru_reach cap (new_lru cap)"
| step: "lru_reach cap c \<Longrightarrow> lru_step c c' \<Longrightarrow> lru_reach cap c'"

inductive_cases lru_stepE: "lru_step c c'"

text \<open>The map names exactly the nodes of the list, one per key.\<close>

definition lru_inv :: "('k, 'v) lru \<Rightarrow> bool" where
  "lru_inv c \<longleftrightarrow> distinct (map fst (lru_list c)) \<and> distinct (map (fst \<circ> snd) (lru_list c))
     \<and> distinct (map fst (lru_map c))
     \<and> (\<forall>k i. (k, i) \<in> set (lru_map c) \<longleftrightarrow> (\<exists>v. (i, k, v) \<in> set (lru_list c)))
     \<and> (\<forall>n\<in>set (lru_list c). fst n < lru_next c)
     \<and> length (lru_map c) = length (lru_list c) \<and> length (lru_map c) \<le> lru_capacity c"

section \<open>The abstract cache\<close>

text \<open>Keys and values in order of recency.\<close>

definition lru_abs :: "('k, 'v) lru \<Rightarrow> ('k \<times> 'v) list" where
  "lru_abs c = map snd (lru_list c)"

definition to_front :: "'k \<Rightarrow> ('k \<times> 'v) list \<Rightarrow> ('k \<times> 'v) list" where
  "to_front k l = filter (\<lambda>e. fst e = k) l @ filter (\<lambda>e. fst e \<noteq> k) l"

definition spec_put :: "nat \<Rightarrow> 'k list \<Rightarrow> 'k \<Rightarrow> 'v \<Rightarrow> ('k \<times> 'v) list \<Rightarrow> ('k \<times> 'v) list" where
  "spec_put cap pending k v l =
     take cap ((k, v) # filter (\<lambda>e. fst e \<noteq> k) (fold to_front pending l))"

section \<open>Refinement\<close>

text \<open>The consistency of map and list alone, which the order of the list does not matter to.\<close>

definition linked :: "('k \<times> nat) list \<Rightarrow> ('k, 'v) node list \<Rightarrow> bool" where
  "linked m l \<longleftrightarrow> distinct (map fst l) \<and> distinct (map (fst \<circ> snd) l) \<and> distinct (map fst m)
     \<and> (\<forall>k i. (k, i) \<in> set m \<longleftrightarrow> (\<exists>v. (i, k, v) \<in> set l))"

lemma lru_inv_linked: "lru_inv c \<longleftrightarrow> linked (lru_map c) (lru_list c)
     \<and> (\<forall>n\<in>set (lru_list c). fst n < lru_next c)
     \<and> length (lru_map c) = length (lru_list c) \<and> length (lru_map c) \<le> lru_capacity c"
  by (auto simp: lru_inv_def linked_def)

lemma distinct_partition: "distinct (map f (filter P l @ filter (\<lambda>x. \<not> P x) l)) = distinct (map f l)"
proof -
  have "mset (map f (filter P l @ filter (\<lambda>x. \<not> P x) l)) = mset (map f l)"
    by (induction l) auto
  then show ?thesis by (rule mset_eq_imp_distinct_iff)
qed

lemma splice_set [simp]: "set (splice_front i l) = set l"
  by (auto simp: splice_front_def)

lemma splice_length [simp]: "length (splice_front i l) = length l"
  by (simp add: splice_front_def sum_length_filter_compl)

lemma splice_distinct: "distinct (map f (splice_front i l)) = distinct (map f l)"
  unfolding splice_front_def by (rule distinct_partition)

lemma splice_linked: "linked m l \<Longrightarrow> linked m (splice_front i l)"
  unfolding linked_def splice_distinct splice_set .

lemma distinct_map_eq: "distinct (map f l) \<Longrightarrow> x \<in> set l \<Longrightarrow> y \<in> set l \<Longrightarrow> f x = f y \<Longrightarrow> x = y"
  by (simp add: distinct_map inj_on_def)

lemma linked_key:
  assumes "linked m l" "(i, k, v) \<in> set l" "n \<in> set l"
  shows "fst n = i \<longleftrightarrow> fst (snd n) = k"
proof -
  have d: "distinct (map fst l)" "distinct (map (fst \<circ> snd) l)" using assms(1) by (simp_all add: linked_def)
  have "fst n = i \<Longrightarrow> n = (i, k, v)" using distinct_map_eq [OF d(1) assms(3,2)] by simp
  moreover have "fst (snd n) = k \<Longrightarrow> n = (i, k, v)" using distinct_map_eq [OF d(2) assms(3,2)] by simp
  ultimately show ?thesis by (metis fst_conv snd_conv)
qed

lemma splice_abs:
  assumes "linked m l" "(i, k, v) \<in> set l"
  shows "map snd (splice_front i l) = to_front k (map snd l)"
proof -
  have "filter (\<lambda>n. fst n = i) l = filter (\<lambda>n. fst (snd n) = k) l"
    "filter (\<lambda>n. fst n \<noteq> i) l = filter (\<lambda>n. fst (snd n) \<noteq> k) l"
    using linked_key [OF assms] by (intro filter_cong refl; simp)+
  then show ?thesis by (simp add: splice_front_def to_front_def filter_map comp_def)
qed

lemma linked_lookup:
  assumes "linked m l"
  shows "map_of m k = Some i \<longleftrightarrow> (\<exists>v. (i, k, v) \<in> set l)"
  using assms by (auto simp: linked_def map_of_eq_Some_iff)

lemma promote_key_linked [simp]:
  "set (promote_key m k l) = set l" "length (promote_key m k l) = length l"
  "linked m l \<Longrightarrow> linked m (promote_key m k l)"
  by (auto simp: promote_key_def splice_linked split: option.splits)

lemma promote_key_abs: "linked m l \<Longrightarrow> map snd (promote_key m k l) = to_front k (map snd l)"
proof (cases "map_of m k")
  case None
  assume l: "linked m l"
  have "fst (snd n) \<noteq> k" if "n \<in> set l" for n
  proof
    assume "fst (snd n) = k"
    with that have "(fst n, k, snd (snd n)) \<in> set l" by (metis prod.collapse)
    with linked_lookup [OF l] None show False by (metis option.distinct(1))
  qed
  then have "to_front k (map snd l) = map snd l"
    by (auto simp: to_front_def filter_empty_conv filter_id_conv)
  with None show ?thesis by (simp add: promote_key_def)
next
  case (Some i)
  assume l: "linked m l"
  with Some obtain v where "(i, k, v) \<in> set l" by (auto simp: linked_lookup)
  with splice_abs [OF l] Some show ?thesis by (simp add: promote_key_def)
qed

lemma fold_promote:
  assumes "linked m l"
  shows "linked m (fold (promote_key m) ks l)" "set (fold (promote_key m) ks l) = set l"
    "length (fold (promote_key m) ks l) = length l"
    "map snd (fold (promote_key m) ks l) = fold to_front ks (map snd l)"
  using assms by (induction ks arbitrary: l) (auto simp: promote_key_abs)

lemma promoteUnLocked_eq:
  "promoteUnLocked c = c\<lparr>lru_pending := [], lru_list := fold (promote_key (lru_map c)) (lru_pending c) (lru_list c)\<rparr>"
  by (simp add: promoteUnLocked_def)

text \<open>What a put leaves before the eviction.\<close>

definition put_full :: "'k \<Rightarrow> 'v \<Rightarrow> ('k, 'v) lru \<Rightarrow> ('k, 'v) lru" where
  "put_full key value c =
     (let (i, c) = (case map_of (lru_map c) key of
            Some i \<Rightarrow> (i, c\<lparr>lru_list := set_node_value i value (lru_list c)\<rparr>)
          | None \<Rightarrow> (lru_next c, c\<lparr>lru_list := (lru_next c, key, value) # lru_list c,
                                  lru_map := (key, lru_next c) # lru_map c, lru_next := lru_next c + 1\<rparr>));
          c = promoteUnLocked c
      in c\<lparr>lru_list := splice_front i (lru_list c)\<rparr>)"

lemma lru_put_full: "lru_put k v c = (let c' = put_full k v c in
    if length (lru_map c') > lru_capacity c' then eliminateUnLocked c' else Inr c')"
  by (simp add: lru_put_def put_full_def Let_def split: option.splits)

lemma set_node_value_linked:
  assumes "linked m l"
  shows "linked m (set_node_value i v l)" "length (set_node_value i v l) = length l"
    "fst ` set (set_node_value i v l) = fst ` set l"
proof -
  have a: "map fst (set_node_value i v l) = map fst l" "map (fst \<circ> snd) (set_node_value i v l) = map (fst \<circ> snd) l"
    by (auto simp: set_node_value_def)
  have "(\<exists>w. (j, k, w) \<in> set (set_node_value i v l)) \<longleftrightarrow> (\<exists>w. (j, k, w) \<in> set l)" for j k
  proof
    assume "\<exists>w. (j, k, w) \<in> set (set_node_value i v l)"
    then show "\<exists>w. (j, k, w) \<in> set l" by (auto simp: set_node_value_def split: if_splits prod.splits)
  next
    assume "\<exists>w. (j, k, w) \<in> set l"
    then obtain w where "(j, k, w) \<in> set l" by blast
    then have "(case (j, k, w) of (j, k, w) \<Rightarrow> if j = i then (j, k, v) else (j, k, w)) \<in> set (set_node_value i v l)"
      unfolding set_node_value_def set_map by (rule imageI)
    then show "\<exists>w. (j, k, w) \<in> set (set_node_value i v l)" by (auto split: if_splits)
  qed
  with assms a show "linked m (set_node_value i v l)" by (simp add: linked_def)
  show "length (set_node_value i v l) = length l" by (simp add: set_node_value_def)
  show "fst ` set (set_node_value i v l) = fst ` set l" using a(1) by (metis set_map)
qed

lemma set_node_value_abs:
  assumes "linked m l" "(i, k, w) \<in> set l"
  shows "map snd (set_node_value i v l) = map (\<lambda>e. if fst e = k then (k, v) else e) (map snd l)"
proof -
  have "\<And>n. n \<in> set l \<Longrightarrow> snd (case n of (j, k', w) \<Rightarrow> if j = i then (j, k', v) else (j, k', w))
      = (if fst (snd n) = k then (k, v) else snd n)"
  proof -
    fix n assume n: "n \<in> set l"
    obtain j k' w' where e: "n = (j, k', w')" by (cases n)
    with linked_key [OF assms n] show "snd (case n of (j, k', w) \<Rightarrow> if j = i then (j, k', v) else (j, k', w))
      = (if fst (snd n) = k then (k, v) else snd n)" by simp
  qed
  then show ?thesis by (simp add: set_node_value_def)
qed

text \<open>Promotion neither looks at values nor mixes keys.\<close>

lemma to_front_map: "(\<And>e. fst (g e) = fst e) \<Longrightarrow> to_front k (map g l) = map g (to_front k l)"
  by (simp add: to_front_def filter_map comp_def)

lemma fold_to_front_map: "(\<And>e. fst (g e) = fst e) \<Longrightarrow> fold to_front ks (map g l) = map g (fold to_front ks l)"
  by (induction ks arbitrary: l) (simp_all add: to_front_map)

lemma filter_to_front: "filter (\<lambda>e. fst e \<noteq> k) (to_front j l) = to_front j (filter (\<lambda>e. fst e \<noteq> k) l)"
  by (auto simp: to_front_def conj_commute)

lemma filter_fold_to_front:
  "filter (\<lambda>e. fst e \<noteq> k) (fold to_front ks l) = fold to_front ks (filter (\<lambda>e. fst e \<noteq> k) l)"
  by (induction ks arbitrary: l) (simp_all add: filter_to_front)

lemma set_fold_to_front [simp]: "set (fold to_front ks l) = set l"
  by (induction ks arbitrary: l) (auto simp: to_front_def)

lemma filter_key:
  "distinct (map fst l) \<Longrightarrow> (k, v) \<in> set l \<Longrightarrow> filter (\<lambda>e. fst e = k) l = [(k, v)]"
proof (induction l)
  case (Cons e l)
  show ?case
  proof (cases "e = (k, v)")
    case True
    with Cons.prems have "\<forall>x\<in>set l. fst x \<noteq> k" by (auto simp: image_iff)
    with True show ?thesis by (simp add: filter_empty_conv)
  next
    case False
    with Cons.prems have "(k, v) \<in> set l" "fst e \<noteq> k" by (auto simp: image_iff)
    with Cons show ?thesis by simp
  qed
qed simp

lemma to_front_present:
  "distinct (map fst l) \<Longrightarrow> (k, v) \<in> set l \<Longrightarrow> to_front k l = (k, v) # filter (\<lambda>e. fst e \<noteq> k) l"
  by (simp add: to_front_def filter_key)

lemma linked_abs_distinct: "linked m l \<Longrightarrow> distinct (map fst (map snd l))"
  by (simp add: linked_def comp_def)

lemma filter_map_key:
  "filter (\<lambda>e. fst e \<noteq> k) (map (\<lambda>e. if fst e = k then (k, v) else e) l) = filter (\<lambda>e. fst e \<noteq> k) l"
  by (induction l) auto

lemma put_full_spec:
  fixes k :: 'k and v :: 'v and c :: "('k, 'v) lru"
  assumes inv: "lru_inv c"
  defines "c' \<equiv> put_full k v c"
  shows "linked (lru_map c') (lru_list c')" "\<forall>n\<in>set (lru_list c'). fst n < lru_next c'"
    "length (lru_map c') = length (lru_list c')" "length (lru_map c') \<le> lru_capacity c + 1"
    "lru_abs c' = (k, v) # filter (\<lambda>e. fst e \<noteq> k) (fold to_front (lru_pending c) (lru_abs c))"
    "lru_capacity c' = lru_capacity c" "lru_pending c' = []"
proof -
  let ?ks = "lru_pending c"
  have l: "linked (lru_map c) (lru_list c)" and ids: "\<forall>n\<in>set (lru_list c). fst n < lru_next c"
    and len: "length (lru_map c) = length (lru_list c)" "length (lru_map c) \<le> lru_capacity c"
    using inv by (auto simp: lru_inv_linked)
  have "\<exists>i m l1 nx. linked m l1 \<and> (\<forall>n\<in>set l1. fst n < nx) \<and> length m = length l1 \<and> length m \<le> lru_capacity c + 1
      \<and> (i, k, v) \<in> set l1
      \<and> filter (\<lambda>e. fst e \<noteq> k) (map snd l1) = filter (\<lambda>e. fst e \<noteq> k) (lru_abs c)
      \<and> c' = c\<lparr>lru_pending := [], lru_map := m, lru_next := nx, lru_list := splice_front i (fold (promote_key m) ?ks l1)\<rparr>"
  proof (cases "map_of (lru_map c) k")
    case (Some i)
    then obtain w where w: "(i, k, w) \<in> set (lru_list c)" using linked_lookup [OF l] by blast
    let ?l1 = "set_node_value i v (lru_list c)"
    have "(case (i, k, w) of (j, k, w) \<Rightarrow> if j = i then (j, k, v) else (j, k, w)) \<in> set ?l1"
      unfolding set_node_value_def set_map using w by (rule imageI)
    then have iv: "(i, k, v) \<in> set ?l1" by simp
    have f: "filter (\<lambda>e. fst e \<noteq> k) (map snd ?l1) = filter (\<lambda>e. fst e \<noteq> k) (lru_abs c)"
      unfolding set_node_value_abs [OF l w] lru_abs_def by (rule filter_map_key)
    have "\<forall>n\<in>set ?l1. fst n < lru_next c"
    proof
      fix n assume "n \<in> set ?l1"
      then have "fst n \<in> fst ` set (lru_list c)" using set_node_value_linked(3) [OF l, of i v] by blast
      with ids show "fst n < lru_next c" by auto
    qed
    with Some set_node_value_linked(1,2) [OF l] iv f len show ?thesis
      by (intro exI [of _ i] exI [of _ "lru_map c"] exI [of _ ?l1] exI [of _ "lru_next c"])
        (simp add: c'_def put_full_def promoteUnLocked_eq)
  next
    case None
    have nk: "\<forall>n\<in>set (lru_list c). fst (snd n) \<noteq> k"
    proof
      fix n assume "n \<in> set (lru_list c)"
      then have "(fst n, fst (snd n), snd (snd n)) \<in> set (lru_list c)" by simp
      with linked_lookup [OF l] None show "fst (snd n) \<noteq> k" by (metis option.distinct(1))
    qed
    have nm: "k \<notin> fst ` set (lru_map c)" using None by (simp add: map_of_eq_None_iff)
    have iff: "(x, i) \<in> set (lru_map c) \<longleftrightarrow> (\<exists>v. (i, x, v) \<in> set (lru_list c))" for x i
      using l by (simp add: linked_def)
    have "linked ((k, lru_next c) # lru_map c) ((lru_next c, k, v) # lru_list c)"
      unfolding linked_def
    proof (intro conjI allI)
      show "distinct (map fst ((lru_next c, k, v) # lru_list c))"
        using l ids by (auto simp: linked_def)
      show "distinct (map (fst \<circ> snd) ((lru_next c, k, v) # lru_list c))"
        using l nk by (auto simp: linked_def)
      show "distinct (map fst ((k, lru_next c) # lru_map c))" using l nm by (simp add: linked_def)
      fix x i
      show "(x, i) \<in> set ((k, lru_next c) # lru_map c) \<longleftrightarrow> (\<exists>w. (i, x, w) \<in> set ((lru_next c, k, v) # lru_list c))"
        using iff by auto
    qed
    moreover have "filter (\<lambda>e. fst e \<noteq> k) (map snd ((lru_next c, k, v) # lru_list c)) = filter (\<lambda>e. fst e \<noteq> k) (lru_abs c)"
      by (simp add: lru_abs_def)
    moreover have "\<forall>n\<in>set ((lru_next c, k, v) # lru_list c). fst n < lru_next c + 1" using ids by auto
    ultimately show ?thesis using None len
      by (intro exI [of _ "lru_next c"] exI [of _ "(k, lru_next c) # lru_map c"]
          exI [of _ "(lru_next c, k, v) # lru_list c"] exI [of _ "lru_next c + 1"])
        (simp add: c'_def put_full_def promoteUnLocked_eq)
  qed
  then obtain i m l1 nx where x: "linked m l1" "\<forall>n\<in>set l1. fst n < nx" "length m = length l1" "length m \<le> lru_capacity c + 1"
      "(i, k, v) \<in> set l1" "filter (\<lambda>e. fst e \<noteq> k) (map snd l1) = filter (\<lambda>e. fst e \<noteq> k) (lru_abs c)"
      "c' = c\<lparr>lru_pending := [], lru_map := m, lru_next := nx, lru_list := splice_front i (fold (promote_key m) ?ks l1)\<rparr>"
    by blast
  note fp = fold_promote [OF x(1), of ?ks]
  show "linked (lru_map c') (lru_list c')" "\<forall>n\<in>set (lru_list c'). fst n < lru_next c'"
    "length (lru_map c') = length (lru_list c')" "length (lru_map c') \<le> lru_capacity c + 1"
    "lru_capacity c' = lru_capacity c" "lru_pending c' = []"
    using x fp splice_linked by simp_all
  let ?L = "fold to_front ?ks (map snd l1)"
  have ivL: "(k, v) \<in> set ?L" using x(5) by (force simp: image_iff)
  have "(i, k, v) \<in> set (fold (promote_key m) ?ks l1)" using fp(2) x(5) by simp
  then have "lru_abs c' = to_front k ?L"
    using splice_abs [OF fp(1)] x(7) fp(4) by (simp add: lru_abs_def)
  also have "\<dots> = (k, v) # filter (\<lambda>e. fst e \<noteq> k) ?L"
    using to_front_present [OF _ ivL] linked_abs_distinct [OF fp(1)] fp(4) by simp
  also have "filter (\<lambda>e. fst e \<noteq> k) ?L = filter (\<lambda>e. fst e \<noteq> k) (fold to_front ?ks (lru_abs c))"
    unfolding filter_fold_to_front x(6) ..
  finally show "lru_abs c' = (k, v) # filter (\<lambda>e. fst e \<noteq> k) (fold to_front ?ks (lru_abs c))" .
qed

lemma filter_key_length:
  "distinct (map fst m) \<Longrightarrow> k \<in> fst ` set m \<Longrightarrow> length m = Suc (length (filter (\<lambda>e. fst e \<noteq> k) m))"
proof -
  assume d: "distinct (map fst m)" and k: "k \<in> fst ` set m"
  then obtain v where "(k, v) \<in> set m" by auto
  from filter_key [OF d this] sum_length_filter_compl [of "\<lambda>e. fst e = k" m] show ?thesis by simp
qed

lemma linked_butlast:
  assumes "linked m l" "l \<noteq> []" "key = fst (snd (last l))"
  shows "linked (filter (\<lambda>e. fst e \<noteq> key) m) (butlast l)"
    and "length m = Suc (length (filter (\<lambda>e. fst e \<noteq> key) m))"
proof -
  have l: "l = butlast l @ [last l]" using assms(2) by simp
  have d: "distinct (map fst l)" "distinct (map (fst \<circ> snd) l)" "distinct (map fst m)"
    and iff: "\<And>k i. (k, i) \<in> set m \<longleftrightarrow> (\<exists>v. (i, k, v) \<in> set l)"
    using assms(1) by (auto simp: linked_def)
  obtain i v where e: "last l = (i, key, v)" using assms(3) by (cases "last l") auto
  have nk: "\<forall>n\<in>set (butlast l). fst (snd n) \<noteq> key"
  proof
    fix n assume "n \<in> set (butlast l)"
    moreover have "distinct (map (fst \<circ> snd) (butlast l @ [last l]))" using d(2) l by metis
    ultimately show "fst (snd n) \<noteq> key" using e by (auto simp: image_iff)
  qed
  have mem: "x \<in> set l \<longleftrightarrow> x \<in> set (butlast l) \<or> x = (i, key, v)" for x
    using l e by (metis Un_iff empty_iff insert_iff list.set set_append)
  show "linked (filter (\<lambda>e. fst e \<noteq> key) m) (butlast l)"
    unfolding linked_def
  proof (intro conjI allI)
    show "distinct (map fst (butlast l))" using d(1) by (simp add: map_butlast distinct_butlast)
    show "distinct (map (fst \<circ> snd) (butlast l))" using d(2) by (simp add: map_butlast distinct_butlast)
    show "distinct (map fst (filter (\<lambda>e. fst e \<noteq> key) m))" using d(3) by (rule distinct_map_filter)
    fix k j
    show "(k, j) \<in> set (filter (\<lambda>e. fst e \<noteq> key) m) \<longleftrightarrow> (\<exists>v. (j, k, v) \<in> set (butlast l))"
      using iff mem nk by fastforce
  qed
  have "(key, i) \<in> set m" using iff mem by blast
  then have "key \<in> fst ` set m" by (force simp: image_iff)
  with d(3) show "length m = Suc (length (filter (\<lambda>e. fst e \<noteq> key) m))" by (rule filter_key_length)
qed

lemma put_refines:
  assumes inv: "lru_inv c"
  shows "\<exists>c'. lru_put k v c = Inr c' \<and> lru_inv c' \<and> lru_capacity c' = lru_capacity c \<and> lru_pending c' = []
    \<and> lru_abs c' = spec_put (lru_capacity c) (lru_pending c) k v (lru_abs c)"
proof -
  let ?f = "put_full k v c"
  note s = put_full_spec [OF inv, of k v]
  have len: "length (lru_abs ?f) = length (lru_map ?f)" using s(3) by (simp add: lru_abs_def)
  show ?thesis
  proof (cases "length (lru_map ?f) > lru_capacity ?f")
    case False
    then have "lru_put k v c = Inr ?f" by (simp add: lru_put_full Let_def)
    moreover have "lru_inv ?f" using s False by (simp add: lru_inv_linked)
    moreover have "lru_abs ?f = spec_put (lru_capacity c) (lru_pending c) k v (lru_abs c)"
      using s(5,6) len False by (simp add: spec_put_def)
    ultimately show ?thesis using s by blast
  next
    case True
    with s(4,6) have n: "length (lru_map ?f) = lru_capacity c + 1" by simp
    then have ne: "lru_list ?f \<noteq> []" using s(3) by auto
    let ?key = "fst (snd (last (lru_list ?f)))"
    let ?c' = "?f\<lparr>lru_map := filter (\<lambda>e. fst e \<noteq> ?key) (lru_map ?f), lru_list := butlast (lru_list ?f)\<rparr>"
    note b = linked_butlast [OF s(1) ne refl]
    have e: "eliminateUnLocked ?f = Inr ?c'"
      using ne b(2) s(3) by (simp add: eliminateUnLocked_def Let_def)
    then have p: "lru_put k v c = Inr ?c'" using True by (simp add: lru_put_full Let_def)
    have inv': "lru_inv ?c'" using s b n by (auto simp: lru_inv_linked dest: in_set_butlastD)
    have "lru_abs ?c' = butlast (lru_abs ?f)" by (simp add: lru_abs_def map_butlast)
    also have "\<dots> = take (lru_capacity c) (lru_abs ?f)" using n len by (simp add: butlast_conv_take)
    also have "\<dots> = spec_put (lru_capacity c) (lru_pending c) k v (lru_abs c)" using s(5) by (simp add: spec_put_def)
    finally show ?thesis using p inv' s(6,7) by auto
  qed
qed

lemma erase_entry_spec:
  assumes "lru_inv c"
  shows "lru_inv (snd (lru_erase_entry k c))"
    "lru_abs (snd (lru_erase_entry k c)) = filter (\<lambda>e. fst e \<noteq> k) (lru_abs c)"
proof -
  have l: "linked (lru_map c) (lru_list c)" using assms by (simp add: lru_inv_linked)
  have "lru_inv (snd (lru_erase_entry k c)) \<and>
      lru_abs (snd (lru_erase_entry k c)) = filter (\<lambda>e. fst e \<noteq> k) (lru_abs c)"
  proof (cases "map_of (lru_map c) k")
    case None
    have "fst (snd n) \<noteq> k" if "n \<in> set (lru_list c)" for n
    proof
      assume "fst (snd n) = k"
      with that have "(fst n, k, snd (snd n)) \<in> set (lru_list c)" by (metis prod.collapse)
      with linked_lookup [OF l] None show False by (metis option.distinct(1))
    qed
    then have "filter (\<lambda>e. fst e \<noteq> k) (lru_abs c) = lru_abs c" by (auto simp: lru_abs_def filter_id_conv)
    with None assms show ?thesis by (simp add: lru_erase_entry_def)
  next
    case (Some i)
    then obtain v where v: "(i, k, v) \<in> set (lru_list c)" using linked_lookup [OF l] by blast
    have f: "filter (\<lambda>n. fst n \<noteq> i) (lru_list c) = filter (\<lambda>n. fst (snd n) \<noteq> k) (lru_list c)"
      using linked_key [OF l v] by (intro filter_cong refl) simp
    have km: "k \<in> fst ` set (lru_map c)" using map_of_SomeD [OF Some] by force
    have d: "distinct (map fst (lru_list c))" "distinct (map (fst \<circ> snd) (lru_list c))" "distinct (map fst (lru_map c))"
      and iff: "\<And>k i. (k, i) \<in> set (lru_map c) \<longleftrightarrow> (\<exists>v. (i, k, v) \<in> set (lru_list c))"
      using l by (auto simp: linked_def)
    have lk: "linked (filter (\<lambda>e. fst e \<noteq> k) (lru_map c)) (filter (\<lambda>n. fst (snd n) \<noteq> k) (lru_list c))"
      unfolding linked_def using iff distinct_map_filter [OF d(1)] distinct_map_filter [OF d(2)] distinct_map_filter [OF d(3)]
      by auto
    have "length (lru_list c) = Suc (length (filter (\<lambda>n. fst (snd n) \<noteq> k) (lru_list c)))"
      using filter_key_length [of "map snd (lru_list c)" k] d(2) v by (force simp: filter_map comp_def image_iff)
    moreover have "length (lru_map c) = Suc (length (filter (\<lambda>e. fst e \<noteq> k) (lru_map c)))"
      by (rule filter_key_length [OF d(3) km])
    ultimately have "lru_inv (c\<lparr>lru_list := filter (\<lambda>n. fst (snd n) \<noteq> k) (lru_list c),
        lru_map := filter (\<lambda>e. fst e \<noteq> k) (lru_map c)\<rparr>)"
      using assms lk by (auto simp: lru_inv_linked)
    with Some f show ?thesis by (simp add: lru_erase_entry_def lru_abs_def filter_map comp_def)
  qed
  then show "lru_inv (snd (lru_erase_entry k c))"
    "lru_abs (snd (lru_erase_entry k c)) = filter (\<lambda>e. fst e \<noteq> k) (lru_abs c)" by auto
qed

lemma promote_spec:
  assumes "lru_inv c"
  shows "lru_inv (promoteUnLocked c)" "lru_abs (promoteUnLocked c) = fold to_front (lru_pending c) (lru_abs c)"
  using assms fold_promote [of "lru_map c" "lru_list c" "lru_pending c"]
  by (auto simp: promoteUnLocked_eq lru_inv_linked lru_abs_def)

lemma lru_step_inv: "lru_step c c' \<Longrightarrow> lru_inv c \<Longrightarrow> lru_inv c' \<and> lru_capacity c' = lru_capacity c"
proof (induction rule: lru_step.induct)
  case (put k v c c')
  with put_refines [of c k v] show ?case by auto
next
  case (erase_entry c k)
  then show ?case using erase_entry_spec(1) [of c k] by (auto simp: lru_erase_entry_def split: option.splits)
next
  case (promote c)
  then show ?case using promote_spec(1) [of c] by (simp add: promoteUnLocked_eq)
qed (auto simp: lru_push_def lru_erase_pending_def lru_clear_def lru_inv_def)

lemma lru_reach_inv: "lru_reach cap c \<Longrightarrow> lru_inv c \<and> lru_capacity c = cap"
  by (induction rule: lru_reach.induct) (use lru_step_inv in \<open>auto simp: lru_inv_def new_lru_def\<close>)

lemma read_abs: "lru_inv c \<Longrightarrow> lru_read k c = map_of (lru_abs c) k"
proof -
  assume "lru_inv c"
  then have l: "linked (lru_map c) (lru_list c)" by (simp add: lru_inv_linked)
  have d: "distinct (map fst (lru_list c))" "distinct (map fst (lru_abs c))"
    using l by (simp_all add: linked_def lru_abs_def)
  show ?thesis
  proof (cases "map_of (lru_map c) k")
    case None
    have "k \<notin> fst ` set (lru_abs c)"
    proof
      assume "k \<in> fst ` set (lru_abs c)"
      then obtain i v where "(i, k, v) \<in> set (lru_list c)" by (auto simp: lru_abs_def)
      with linked_lookup [OF l] None show False by (metis option.distinct(1))
    qed
    then have "map_of (lru_abs c) k = None" by (simp add: map_of_eq_None_iff)
    with None show ?thesis by (simp add: lru_read_def)
  next
    case (Some i)
    then obtain v where v: "(i, k, v) \<in> set (lru_list c)" using linked_lookup [OF l] by blast
    then have "(k, v) \<in> set (lru_abs c)" by (force simp: lru_abs_def image_iff)
    with d(2) have "map_of (lru_abs c) k = Some v" by (simp add: map_of_eq_Some_iff)
    moreover have "map_of (lru_list c) i = Some (k, v)" using v d(1) by (simp add: map_of_eq_Some_iff)
    ultimately show ?thesis using Some by (simp add: lru_read_def node_of_id_def)
  qed
qed

lemma exist_abs: "lru_inv c \<Longrightarrow> lru_exist k c \<longleftrightarrow> map_of (lru_abs c) k \<noteq> None"
proof -
  assume "lru_inv c"
  then have l: "linked (lru_map c) (lru_list c)" by (simp add: lru_inv_linked)
  have "lru_exist k c \<longleftrightarrow> k \<in> fst ` set (lru_abs c)"
    using linked_lookup [OF l, of k] by (force simp: lru_exist_def lru_abs_def image_iff)
  then show ?thesis by (metis map_of_eq_None_iff)
qed

section \<open>Properties\<close>

text \<open>C10. After any interleaving of the critical sections of any number of threads, a put neither trips an
  assertion nor touches a dead iterator: it does what the abstract cache does (replay the postponed
  promotions, put the key in front with its new value, drop the least recently used entry beyond
  the capacity), and reads then see exactly that.\<close>

theorem lru_put_refines:
  assumes "lru_reach cap c"
  shows "\<exists>c'. lru_put k v c = Inr c' \<and> lru_abs c' = spec_put cap (lru_pending c) k v (lru_abs c)
    \<and> (\<forall>j. lru_read j c' = map_of (lru_abs c') j) \<and> lru_size c' \<le> cap"
proof -
  from lru_reach_inv [OF assms] have i: "lru_inv c" "lru_capacity c = cap" by auto
  from put_refines [OF i(1), of k v] obtain c' where c: "lru_put k v c = Inr c'" "lru_inv c'"
    "lru_capacity c' = cap" "lru_abs c' = spec_put cap (lru_pending c) k v (lru_abs c)" using i(2) by auto
  then have "lru_size c' \<le> cap" by (simp add: lru_inv_def lru_size_def)
  with c read_abs [OF c(2)] show ?thesis by blast
qed

definition sample_lru :: "(nat, string) lru" where
  "sample_lru = \<lparr>lru_capacity = 2, lru_map = [(5, 1), (4, 0)], lru_list = [(1, 5, ''b''), (0, 4, ''a'')],
     lru_pending = [4], lru_next = 2\<rparr>"

lemma sample_lru_reach: "lru_reach 2 sample_lru"
proof -
  let ?c1 = "\<lparr>lru_capacity = 2, lru_map = [(4, 0)], lru_list = [(0, 4, ''a'')], lru_pending = [], lru_next = 1\<rparr> :: (nat, string) lru"
  let ?c2 = "\<lparr>lru_capacity = 2, lru_map = [(5, 1), (4, 0)], lru_list = [(1, 5, ''b''), (0, 4, ''a'')], lru_pending = [], lru_next = 2\<rparr> :: (nat, string) lru"
  have "lru_put 4 ''a'' (new_lru 2) = Inr ?c1" "lru_put 5 ''b'' ?c1 = Inr ?c2"
    by (simp_all add: lru_put_def new_lru_def promoteUnLocked_def splice_front_def)
  then have "lru_reach 2 ?c2" by (metis lru_reach.intros lru_step.put)
  moreover have "sample_lru = lru_push 4 ?c2" by (simp add: sample_lru_def lru_push_def)
  ultimately show ?thesis by (metis lru_reach.step lru_step.push)
qed

theorem lru_put_refines_witness: "\<exists>c'. lru_put 6 ''c'' sample_lru = Inr c' \<and> lru_abs c' = [(6, ''c''), (4, ''a'')]"
proof -
  have "spec_put 2 (lru_pending sample_lru) 6 ''c'' (lru_abs sample_lru) = [(6, ''c''), (4, ''a'')]"
    by (simp add: spec_put_def sample_lru_def lru_abs_def to_front_def)
  with lru_put_refines [OF sample_lru_reach, of 6 "''c''"] show ?thesis by auto
qed

text \<open>C11. Under every interleaving the cache stays within its capacity and every lookup, size and end
  query reads the abstract cache; the other critical sections do to it what they promise: a
  postponed promotion changes nothing yet, an erase removes exactly its key, promote replays.\<close>

theorem lru_steps_refine:
  assumes "lru_reach cap c"
  shows "lru_size c \<le> cap \<and> lru_size c = length (lru_abs c)
    \<and> lru_read k c = map_of (lru_abs c) k \<and> lru_exist k c = (map_of (lru_abs c) k \<noteq> None)
    \<and> lru_head c = (if lru_abs c = [] then None else Some (snd (hd (lru_abs c))))
    \<and> fst (lru_tail c) = (if lru_abs c = [] then None else Some (snd (last (lru_abs c))))
    \<and> lru_abs (snd (lru_tryGet k c)) = lru_abs c \<and> lru_abs (snd (lru_tail c)) = lru_abs c
    \<and> lru_abs (lru_erase k c) = filter (\<lambda>e. fst e \<noteq> k) (lru_abs c)
    \<and> lru_abs (promoteUnLocked c) = fold to_front (lru_pending c) (lru_abs c)
    \<and> lru_abs (lru_clear c) = []"
proof -
  from lru_reach_inv [OF assms] have i: "lru_inv c" "lru_capacity c = cap" by auto
  have "lru_abs (snd (lru_tryGet k c)) = lru_abs c" "lru_abs (snd (lru_tail c)) = lru_abs c"
    by (auto simp: lru_tryGet_def lru_tail_def lru_push_def lru_abs_def Let_def split: option.splits)
  moreover have "lru_abs (lru_erase k c) = lru_abs (snd (lru_erase_entry k c))"
    by (simp add: lru_erase_def lru_erase_pending_def lru_abs_def split: prod.splits)
  moreover have "lru_size c \<le> cap \<and> lru_size c = length (lru_abs c)"
    using i by (simp add: lru_inv_def lru_size_def lru_abs_def)
  moreover have "lru_head c = (if lru_abs c = [] then None else Some (snd (hd (lru_abs c))))"
    "fst (lru_tail c) = (if lru_abs c = [] then None else Some (snd (last (lru_abs c))))"
    by (simp_all add: lru_head_def lru_tail_def lru_abs_def hd_map last_map Let_def)
  ultimately show ?thesis
    using read_abs [OF i(1)] exist_abs [OF i(1)] erase_entry_spec(2) [OF i(1), of k] promote_spec(2) [OF i(1)]
    by (simp add: lru_abs_def lru_clear_def)
qed

theorem lru_steps_refine_witness: "lru_read 4 sample_lru = Some ''a'' \<and> lru_abs (lru_erase 5 sample_lru) = [(4, ''a'')]"
  using lru_steps_refine [OF sample_lru_reach, of 4] lru_steps_refine [OF sample_lru_reach, of 5]
  by (simp add: sample_lru_def lru_abs_def)

text \<open>Reads alone grow the queue of postponed promotions without bound: only a repetition of the last
  key is dropped, so readers that alternate between two cached keys add two entries per round, and
  nothing removes them before the next put or promote.\<close>

theorem pending_grows:
  assumes "lru_read a c \<noteq> None" and "lru_read b c \<noteq> None" and "a \<noteq> b" and "lru_pending c = []"
  shows "length (lru_pending (((\<lambda>c. snd (lru_tryGet b (snd (lru_tryGet a c)))) ^^ n) c)) = 2 * n"
proof -
  have "\<exists>ps. ((\<lambda>c. snd (lru_tryGet b (snd (lru_tryGet a c)))) ^^ n) c = c\<lparr>lru_pending := ps\<rparr>
      \<and> length ps = 2 * n \<and> (ps = [] \<or> last ps = b)"
  proof (induction n)
    case 0
    show ?case using assms(4) by (intro exI [of _ "[]"]) simp
  next
    case (Suc n)
    then obtain ps where ps: "((\<lambda>c. snd (lru_tryGet b (snd (lru_tryGet a c)))) ^^ n) c = c\<lparr>lru_pending := ps\<rparr>"
      "length ps = 2 * n" "ps = [] \<or> last ps = b" by blast
    have r: "lru_read x (c\<lparr>lru_pending := qs\<rparr>) = lru_read x c" for x qs by (simp add: lru_read_def split: option.split)
    have "snd (lru_tryGet a (c\<lparr>lru_pending := ps\<rparr>)) = c\<lparr>lru_pending := ps @ [a]\<rparr>"
      using assms(1,3) ps(3) r by (auto simp: lru_tryGet_def lru_push_def split: option.splits)
    moreover have "snd (lru_tryGet b (c\<lparr>lru_pending := ps @ [a]\<rparr>)) = c\<lparr>lru_pending := ps @ [a, b]\<rparr>"
      using assms(2,3) r by (auto simp: lru_tryGet_def lru_push_def split: option.splits)
    ultimately show ?case using ps by (intro exI [of _ "ps @ [a, b]"]) simp
  qed
  then show ?thesis by (elim exE conjE) simp
qed

theorem pending_grows_witness:
  "length (lru_pending (((\<lambda>c. snd (lru_tryGet 5 (snd (lru_tryGet 4 c)))) ^^ 1000) (sample_lru\<lparr>lru_pending := []\<rparr>))) = 2000"
  using pending_grows [of 4 "sample_lru\<lparr>lru_pending := []\<rparr>" 5 1000]
  by (simp add: sample_lru_def lru_read_def node_of_id_def)

end
