(* ===== verification/TimerQueue.thy ===== *)
theory TimerQueue
  imports Prelude "HOL-Library.Sublist"
begin

text \<open>
  Timers (include/net/timer.h, src/net/timer.cpp) and \<^verbatim>\<open>SampleTimerQueue\<close>
  (include/net/sample_timer_queue.h, src/net/sample_timer_queue.cpp), with the clock conversions of
  \<^verbatim>\<open>TimeStamp\<close> (src/base/time_stamp.cpp) they use. Timer objects are shared, so they live in a table by
  sequence number; the ordered set of the queue is a sorted list under the queue's comparer. A timer
  callback is the list of queue operations it performs, which run at once because a callback runs in
  the loop thread. Clock readings are arguments; a failed \<^verbatim>\<open>assert\<close> is an error value.
\<close>

section \<open>Clock conversions\<close>

text \<open>With the readings of the monotonic and the real-time clock, in milliseconds.\<close>

definition toMonotonic :: "int \<Rightarrow> int \<Rightarrow> int \<Rightarrow> int" where
  "toMonotonic mono_ms now_ms real_time_ms = mono_ms - (now_ms - real_time_ms)"

definition FromMonotonic :: "int \<Rightarrow> int \<Rightarrow> int \<Rightarrow> int" where
  "FromMonotonic mono_ms now_ms ms = now_ms - (mono_ms - ms)"

text \<open>Seconds and nanoseconds until a deadline, clamped to at least one millisecond; C++ division
  truncates, and the interval is positive here.\<close>

definition HowManyFromNow :: "int \<Rightarrow> int \<Rightarrow> int \<times> int" where
  "HowManyFromNow mono_ms next_expired =
     (let interval = next_expired - mono_ms;
          interval = (if interval \<le> 0 then 1 else interval)
      in (interval div 1000, (interval mod 1000) * 1000000))"

section \<open>Timers\<close>

text \<open>What a callback does to the queue: start a timer (deadline, interval, callback) or cancel one.\<close>

datatype tq_op = OpAdd int int "tq_op list" | OpCancel int

record timer =
  tm_callback :: "tq_op list"
  tm_expiration :: int
  tm_interval :: int
  tm_repeated :: bool

definition mk_timer :: "tq_op list \<Rightarrow> int \<Rightarrow> int \<Rightarrow> timer" where
  "mk_timer cb when interval =
     \<lparr>tm_callback = cb, tm_expiration = when, tm_interval = interval, tm_repeated = (interval > 0)\<rparr>"

definition restart :: "int \<Rightarrow> timer \<Rightarrow> timer" where
  "restart now t = t\<lparr>tm_expiration := (if tm_repeated t then now + tm_interval t else 0)\<rparr>"

section \<open>Keys of the ordered set\<close>

datatype timer_key = TimerKey (tk_time: int) (tk_seq: int)

text \<open>\<^verbatim>\<open>WillExpiredTimerComparer\<close>.\<close>

definition WillExpiredTimerComparer :: "timer_key \<Rightarrow> timer_key \<Rightarrow> bool" where
  "WillExpiredTimerComparer a b \<longleftrightarrow>
     (if tk_time a \<noteq> tk_time b then tk_time a < tk_time b else tk_seq a < tk_seq b)"

instantiation timer_key :: linorder
begin

definition less_timer_key :: "timer_key \<Rightarrow> timer_key \<Rightarrow> bool" where
  "less_timer_key a b \<longleftrightarrow> WillExpiredTimerComparer a b"

definition less_eq_timer_key :: "timer_key \<Rightarrow> timer_key \<Rightarrow> bool" where
  "less_eq_timer_key a b \<longleftrightarrow> \<not> b < (a :: timer_key)"

instance
  by intro_classes
    (auto simp: less_timer_key_def WillExpiredTimerComparer_def less_eq_timer_key_def timer_key.expand split: if_splits)

end

section \<open>The queue\<close>

record timer_queue =
  tq_created :: nat                  \<comment> \<open>\<^verbatim>\<open>Timer::s_createNum\<close> before its wrap to 32 bits\<close>
  tq_obj :: "int \<rightharpoonup> timer"            \<comment> \<open>the timer objects, by sequence number\<close>
  tq_timers :: "timer_key list"
  tq_active :: "int list"
  tq_calling :: bool
  tq_canceling :: "int list"
  tq_running :: "int list"
  tq_armed :: "int option"           \<comment> \<open>the deadline the timer fd waits for\<close>
  tq_log :: "int list"               \<comment> \<open>the timers whose callback was entered\<close>

definition new_timer_queue :: timer_queue where
  "new_timer_queue = \<lparr>tq_created = 1, tq_obj = Map.empty, tq_timers = [], tq_active = [], tq_calling = False,
     tq_canceling = [], tq_running = [], tq_armed = None, tq_log = []\<rparr>"

text \<open>Insertion into the containers, which ignores an element that is there.\<close>

definition add_id :: "int \<Rightarrow> int list \<Rightarrow> int list" where
  "add_id i xs = (if i \<in> set xs then xs else xs @ [i])"

definition del_id :: "int \<Rightarrow> int list \<Rightarrow> int list" where
  "del_id i xs = filter (\<lambda>x. x \<noteq> i) xs"

definition add_key :: "timer_key \<Rightarrow> timer_key list \<Rightarrow> timer_key list" where
  "add_key k ks = (if k \<in> set ks then ks else insort k ks)"

definition del_key :: "timer_key \<Rightarrow> timer_key list \<Rightarrow> timer_key list" where
  "del_key k ks = filter (\<lambda>x. x \<noteq> k) ks"

definition next_sequence :: "timer_queue \<Rightarrow> int" where
  "next_sequence q = sint (of_nat (tq_created q) :: 32 word)"

definition timer_of :: "timer_queue \<Rightarrow> int \<Rightarrow> timer" where
  "timer_of q i = (case tq_obj q i of Some t \<Rightarrow> t | None \<Rightarrow> mk_timer [] 0 0)"

definition key_of :: "timer_queue \<Rightarrow> int \<Rightarrow> timer_key" where
  "key_of q i = TimerKey (tm_expiration (timer_of q i)) i"

definition resetTimerFd :: "int \<Rightarrow> timer_queue \<Rightarrow> timer_queue" where
  "resetTimerFd next_expired q = q\<lparr>tq_armed := Some next_expired\<rparr>"

definition tq_insert :: "int \<Rightarrow> timer_queue \<Rightarrow> bool \<times> timer_queue" where
  "tq_insert i q =
     (let expired_time = tm_expiration (timer_of q i);
          earliest = (tq_timers q = [] \<or> expired_time < tk_time (hd (tq_timers q)))
      in (earliest, q\<lparr>tq_active := add_id i (tq_active q),
                      tq_timers := add_key (TimerKey expired_time i) (tq_timers q)\<rparr>))"

definition addTimerInLoop :: "int \<Rightarrow> timer_queue \<Rightarrow> timer_queue" where
  "addTimerInLoop i q =
     (let (earliest, q) = tq_insert i q
      in if earliest then resetTimerFd (tm_expiration (timer_of q i)) q else q)"

definition new_timer :: "tq_op list \<Rightarrow> int \<Rightarrow> int \<Rightarrow> timer_queue \<Rightarrow> int \<times> timer_queue" where
  "new_timer cb when interval q =
     (let i = next_sequence q
      in (i, q\<lparr>tq_created := tq_created q + 1, tq_obj := (tq_obj q)(i \<mapsto> mk_timer cb when interval)\<rparr>))"

text \<open>\<^verbatim>\<open>addTimer\<close> in the loop thread, with the deadline already on the monotonic clock.\<close>

definition addTimer :: "tq_op list \<Rightarrow> int \<Rightarrow> int \<Rightarrow> timer_queue \<Rightarrow> timer_queue" where
  "addTimer cb when interval q = (let (i, q) = new_timer cb when interval q in addTimerInLoop i q)"

definition cancelInLoop :: "int \<Rightarrow> timer_queue \<Rightarrow> cpp_error + timer_queue" where
  "cancelInLoop i q =
     (if i \<notin> set (tq_active q) then
        (if tq_calling q then
           (if i \<in> set (tq_canceling q) then Inl AssertFail
            else if key_of q i \<in> set (tq_timers q) \<or> i \<in> set (tq_running q)
            then Inr (q\<lparr>tq_canceling := add_id i (tq_canceling q)\<rparr>)
            else Inr q)
         else Inr q)
      else Inr (q\<lparr>tq_timers := del_key (key_of q i) (tq_timers q), tq_active := del_id i (tq_active q)\<rparr>))"

text \<open>\<^verbatim>\<open>cancel\<close> of a null pointer, here of a timer that was never made, does nothing.\<close>

definition tq_cancel :: "int \<Rightarrow> timer_queue \<Rightarrow> cpp_error + timer_queue" where
  "tq_cancel i q = (if tq_obj q i = None then Inr q else cancelInLoop i q)"

fun run_op :: "tq_op \<Rightarrow> timer_queue \<Rightarrow> cpp_error + timer_queue" where
  "run_op (OpAdd when interval cb) q = Inr (addTimer cb when interval q)"
| "run_op (OpCancel i) q = tq_cancel i q"

definition INT64_MAX :: int where "INT64_MAX = 2 ^ 63 - 1"

definition collect_expired :: "timer_key \<Rightarrow> timer_queue \<Rightarrow> cpp_error + timer_queue" where
  "collect_expired e q =
     (if tk_seq e \<notin> set (tq_active q) then Inl AssertFail
      else Inr (q\<lparr>tq_running := add_id (tk_seq e) (tq_running q), tq_active := del_id (tk_seq e) (tq_active q)\<rparr>))"

text \<open>\<^verbatim>\<open>getExpired\<close>; the search key is built from a timer object made for it, which uses up a number.\<close>

definition getExpired :: "int \<Rightarrow> timer_queue \<Rightarrow> cpp_error + (timer_key list \<times> timer_queue)" where
  "getExpired now q =
     (if length (tq_timers q) \<noteq> length (tq_active q) then Inl AssertFail
      else if tq_timers q = [] then Inr ([], q)
      else if now < tk_time (hd (tq_timers q)) then Inr ([], q)
      else
        (let q = q\<lparr>tq_created := tq_created q + 1\<rparr>;
             tmp = TimerKey now (INT64_MAX - 1);
             expired = takeWhile (\<lambda>k. k < tmp) (tq_timers q);
             q = q\<lparr>tq_timers := dropWhile (\<lambda>k. k < tmp) (tq_timers q), tq_running := []\<rparr>
         in ebind (efold collect_expired expired q)
              (\<lambda>q. if length (tq_timers q) \<noteq> length (tq_active q) then Inl AssertFail else Inr (expired, q))))"

text \<open>One timer of the batch: skipped when an earlier callback of the batch cancelled it.\<close>

definition run_expired :: "timer_key \<Rightarrow> timer_queue \<Rightarrow> cpp_error + timer_queue" where
  "run_expired e q =
     (if tk_seq e \<in> set (tq_canceling q) then Inr q
      else ebind (efold run_op (tm_callback (timer_of q (tk_seq e))) (q\<lparr>tq_log := tq_log q @ [tk_seq e]\<rparr>))
             (\<lambda>q. Inr (q\<lparr>tq_running := del_id (tk_seq e) (tq_running q)\<rparr>)))"

definition reset_one :: "int \<Rightarrow> timer_key \<Rightarrow> timer_queue \<Rightarrow> timer_queue" where
  "reset_one now e q =
     (let i = tk_seq e in
      if tm_repeated (timer_of q i) \<and> i \<notin> set (tq_canceling q)
      then snd (tq_insert i (q\<lparr>tq_obj := (tq_obj q)(i \<mapsto> restart now (timer_of q i))\<rparr>))
      else q)"

definition tq_reset :: "timer_key list \<Rightarrow> int \<Rightarrow> timer_queue \<Rightarrow> timer_queue" where
  "tq_reset expired now q =
     (let q = fold (reset_one now) expired q;
          next_expired = (if tq_timers q \<noteq> [] then tm_expiration (timer_of q (tk_seq (hd (tq_timers q)))) else 0)
      in if next_expired > 0 then resetTimerFd next_expired q else q)"

text \<open>\<^verbatim>\<open>handleRead\<close>, entered because the one-shot timer fd fired.\<close>

definition tq_handleRead :: "int \<Rightarrow> timer_queue \<Rightarrow> cpp_error + timer_queue" where
  "tq_handleRead now q =
     ebind (getExpired now (q\<lparr>tq_armed := None\<rparr>)) (\<lambda>(expired, q).
       ebind (efold run_expired expired (q\<lparr>tq_calling := True, tq_canceling := []\<rparr>)) (\<lambda>q.
         Inr (tq_reset expired now (q\<lparr>tq_calling := False\<rparr>))))"

section \<open>The invariant\<close>

text \<open>The ordered set and the table of active timers hold the same timers, each under its current
  deadline; sequence numbers in use are below the counter.\<close>

definition tq_inv :: "timer_queue \<Rightarrow> bool" where
  "tq_inv q \<longleftrightarrow> sorted (tq_timers q) \<and> distinct (tq_timers q) \<and> distinct (tq_active q)
     \<and> (\<forall>k\<in>set (tq_timers q). k = key_of q (tk_seq k)) \<and> tk_seq ` set (tq_timers q) = set (tq_active q)
     \<and> set (tq_active q) \<subseteq> dom (tq_obj q)
     \<and> (\<forall>i\<in>dom (tq_obj q). 0 < i \<and> i < int (tq_created q)) \<and> 0 < tq_created q
     \<and> (\<forall>t\<in>ran (tq_obj q). tm_repeated t \<longleftrightarrow> 0 < tm_interval t)"

text \<open>The numbers handed out so far fit 31 bits.\<close>

definition no_wrap :: "timer_queue \<Rightarrow> bool" where
  "no_wrap q \<longleftrightarrow> tq_created q \<le> 2 ^ 31"

lemma next_sequence_eq: "tq_created q < 2 ^ 31 \<Longrightarrow> next_sequence q = int (tq_created q)"
proof -
  assume "tq_created q < 2 ^ 31"
  then have "sint (word_of_int (int (tq_created q)) :: 32 word) = int (tq_created q)"
    by (intro sint_word_of_int_32) simp_all
  then show ?thesis by (simp add: next_sequence_def)
qed

lemma inv_seq_inj: "tq_inv q \<Longrightarrow> inj_on tk_seq (set (tq_timers q))"
  by (intro inj_onI) (metis tq_inv_def)

lemma inv_length: "tq_inv q \<Longrightarrow> length (tq_timers q) = length (tq_active q)"
proof -
  assume q: "tq_inv q"
  then have "length (tq_timers q) = card (set (tq_timers q))" by (simp add: tq_inv_def distinct_card)
  also have "\<dots> = card (set (tq_active q))" using card_image [OF inv_seq_inj [OF q]] q by (simp add: tq_inv_def)
  also have "\<dots> = length (tq_active q)" using q by (simp add: tq_inv_def distinct_card)
  finally show ?thesis .
qed

lemma inv_key_iff: "tq_inv q \<Longrightarrow> k \<in> set (tq_timers q) \<longleftrightarrow> tk_seq k \<in> set (tq_active q) \<and> k = key_of q (tk_seq k)"
  unfolding tq_inv_def by (metis imageE image_eqI key_of_def timer_key.sel(2))

lemma set_add_id [simp]: "set (add_id i xs) = insert i (set xs)"
  by (auto simp: add_id_def)

lemma distinct_add_id [simp]: "distinct (add_id i xs) = distinct xs"
  by (auto simp: add_id_def)

lemma set_add_key [simp]: "set (add_key k ks) = insert k (set ks)"
  by (auto simp: add_key_def set_insort_key)

lemma sorted_add_key: "sorted ks \<Longrightarrow> sorted (add_key k ks)"
  by (simp add: add_key_def sorted_insort)

lemma distinct_add_key: "distinct ks \<Longrightarrow> distinct (add_key k ks)"
  by (simp add: add_key_def distinct_insort)

lemma key_of_seq [simp]: "tk_seq (key_of q i) = i"
  by (simp add: key_of_def)

text \<open>Inserting a timer that is not active.\<close>

lemma insert_inv:
  assumes "tq_inv q" "i \<in> dom (tq_obj q)" "i \<notin> set (tq_active q)"
  shows "tq_inv (snd (tq_insert i q))"
proof -
  have k: "TimerKey (tm_expiration (timer_of q i)) i = key_of q i" by (simp add: key_of_def)
  have "key_of (snd (tq_insert i q)) j = key_of q j" for j by (simp add: key_of_def timer_of_def tq_insert_def Let_def)
  with assms k show ?thesis
    by (auto simp: tq_inv_def tq_insert_def Let_def sorted_add_key distinct_add_key)
qed

lemma resetTimerFd_inv [simp]: "tq_inv (resetTimerFd t q) = tq_inv q"
  by (simp add: tq_inv_def resetTimerFd_def key_of_def timer_of_def)

lemma addTimerInLoop_inv:
  "tq_inv q \<Longrightarrow> i \<in> dom (tq_obj q) \<Longrightarrow> i \<notin> set (tq_active q) \<Longrightarrow> tq_inv (addTimerInLoop i q)"
  using insert_inv [of q i] by (auto simp: addTimerInLoop_def split: prod.splits)

text \<open>Changing or adding an object that is not active.\<close>

lemma update_obj_inv:
  assumes "tq_inv q" "i \<notin> set (tq_active q)" "0 < i" "i < int n" "tq_created q \<le> n"
    "tm_repeated t \<longleftrightarrow> 0 < tm_interval t"
  shows "tq_inv (q\<lparr>tq_created := n, tq_obj := (tq_obj q)(i \<mapsto> t)\<rparr>)"
proof -
  let ?q = "q\<lparr>tq_created := n, tq_obj := (tq_obj q)(i \<mapsto> t)\<rparr>"
  have "key_of ?q j = key_of q j" if "j \<noteq> i" for j
    using that by (simp add: key_of_def timer_of_def)
  moreover have "tk_seq k \<noteq> i" if "k \<in> set (tq_timers q)" for k
    using that assms(1,2) by (auto simp: tq_inv_def)
  ultimately have "\<forall>k\<in>set (tq_timers q). k = key_of ?q (tk_seq k)" using assms(1) by (auto simp: tq_inv_def)
  moreover have "\<forall>j\<in>dom (tq_obj ?q). 0 < j \<and> j < int n"
  proof
    fix j assume j: "j \<in> dom (tq_obj ?q)"
    show "0 < j \<and> j < int n"
    proof (cases "j = i")
      case False
      with j assms(1) have "0 < j \<and> j < int (tq_created q)" by (auto simp: tq_inv_def)
      with assms(5) show ?thesis by simp
    qed (use assms(3,4) in simp)
  qed
  moreover have "\<forall>t\<in>ran (tq_obj ?q). tm_repeated t \<longleftrightarrow> 0 < tm_interval t"
    using assms(1,6) by (auto simp: tq_inv_def ran_def)
  ultimately show ?thesis using assms by (auto simp: tq_inv_def)
qed

lemma addTimer_inv:
  assumes "tq_inv q" "no_wrap (addTimer cb t iv q)"
  shows "tq_inv (addTimer cb t iv q)"
proof -
  have "tq_created (addTimer cb t iv q) = tq_created q + 1"
    by (simp add: addTimer_def new_timer_def addTimerInLoop_def tq_insert_def resetTimerFd_def Let_def)
  with assms(2) have w: "tq_created q < 2 ^ 31" by (simp add: no_wrap_def)
  let ?i = "int (tq_created q)"
  let ?q = "q\<lparr>tq_created := tq_created q + 1, tq_obj := (tq_obj q)(?i \<mapsto> mk_timer cb t iv)\<rparr>"
  have fresh: "?i \<notin> dom (tq_obj q)" using assms(1) by (auto simp: tq_inv_def)
  then have na: "?i \<notin> set (tq_active q)" using assms(1) by (auto simp: tq_inv_def)
  have "0 < tq_created q" using assms(1) by (simp add: tq_inv_def)
  then have "tq_inv ?q" using assms(1) na by (intro update_obj_inv) (auto simp: mk_timer_def)
  then have "tq_inv (addTimerInLoop ?i ?q)" using na by (intro addTimerInLoop_inv) auto
  then show ?thesis using next_sequence_eq [OF w] by (simp add: addTimer_def new_timer_def Let_def)
qed

lemma cancelInLoop_inv: "tq_inv q \<Longrightarrow> cancelInLoop i q = Inr q' \<Longrightarrow> tq_inv q'"
proof -
  assume q: "tq_inv q" and r: "cancelInLoop i q = Inr q'"
  show "tq_inv q'"
  proof (cases "i \<in> set (tq_active q)")
    case False
    with r have "q' = q \<or> q' = q\<lparr>tq_canceling := add_id i (tq_canceling q)\<rparr>"
      by (auto simp: cancelInLoop_def split: if_splits)
    with q show ?thesis by (auto simp: tq_inv_def key_of_def timer_of_def)
  next
    case True
    then have q': "q' = q\<lparr>tq_timers := del_key (key_of q i) (tq_timers q), tq_active := del_id i (tq_active q)\<rparr>"
      using r by (simp add: cancelInLoop_def)
    have k: "key_of q' j = key_of q j" for j by (simp add: q' key_of_def timer_of_def)
    have "tk_seq ` set (del_key (key_of q i) (tq_timers q)) = set (tq_active q) - {i}"
    proof -
      have *: "k \<noteq> key_of q i \<longleftrightarrow> tk_seq k \<noteq> i" if "k \<in> set (tq_timers q)" for k
        using that q unfolding tq_inv_def by (metis key_of_seq)
      then have "filter (\<lambda>k. k \<noteq> key_of q i) (tq_timers q) = filter (\<lambda>k. tk_seq k \<noteq> i) (tq_timers q)"
        by (rule filter_cong [OF refl])
      then have "tk_seq ` set (del_key (key_of q i) (tq_timers q)) = tk_seq ` set (tq_timers q) - {i}"
        by (auto simp: del_key_def)
      then show ?thesis using q by (simp add: tq_inv_def)
    qed
    then show ?thesis using q k unfolding tq_inv_def q'
      by (auto simp: del_key_def del_id_def sorted_wrt_filter sorted_filter [of id, simplified])
  qed
qed

text \<open>The counter only grows.\<close>

lemma created_mono: "run_op op q = Inr q' \<Longrightarrow> tq_created q \<le> tq_created q'"
  by (cases op) (auto simp: addTimer_def new_timer_def addTimerInLoop_def tq_insert_def resetTimerFd_def Let_def
      tq_cancel_def cancelInLoop_def split: if_splits)

lemma created_mono_fold: "efold run_op ops q = Inr q' \<Longrightarrow> tq_created q \<le> tq_created q'"
  by (induction ops arbitrary: q) (auto simp: ebind_Inr dest!: created_mono intro: le_trans)

lemma run_op_inv:
  assumes "run_op op q = Inr q'" "tq_inv q" "no_wrap q'"
  shows "tq_inv q'"
  using assms by (cases op) (auto simp: addTimer_inv tq_cancel_def cancelInLoop_inv split: if_splits)

text \<open>An operation leaves the objects there are, and does not activate a timer that is not new.\<close>

lemma run_op_frame:
  assumes "run_op op q = Inr q'" "tq_inv q" "no_wrap q'"
  shows "i \<in> dom (tq_obj q) \<Longrightarrow> tq_obj q' i = tq_obj q i"
    and "i \<in> dom (tq_obj q) \<Longrightarrow> i \<notin> set (tq_active q) \<Longrightarrow> i \<notin> set (tq_active q')"
proof -
  have "(i \<in> dom (tq_obj q) \<longrightarrow> tq_obj q' i = tq_obj q i)
      \<and> (i \<in> dom (tq_obj q) \<longrightarrow> i \<notin> set (tq_active q) \<longrightarrow> i \<notin> set (tq_active q'))"
  proof (cases op)
    case (OpAdd t iv cb)
    then have q': "q' = addTimer cb t iv q" using assms(1) by simp
    have "tq_created q' = tq_created q + 1"
      by (simp add: q' addTimer_def new_timer_def addTimerInLoop_def tq_insert_def resetTimerFd_def Let_def)
    with assms(3) have w: "tq_created q < 2 ^ 31" by (simp add: no_wrap_def)
    have "int (tq_created q) \<notin> dom (tq_obj q)" using assms(2) by (auto simp: tq_inv_def)
    then show ?thesis using next_sequence_eq [OF w]
      by (auto simp: q' addTimer_def new_timer_def addTimerInLoop_def tq_insert_def resetTimerFd_def Let_def)
  next
    case (OpCancel j)
    then show ?thesis using assms(1)
      by (auto simp: tq_cancel_def cancelInLoop_def del_id_def split: if_splits)
  qed
  then show "i \<in> dom (tq_obj q) \<Longrightarrow> tq_obj q' i = tq_obj q i"
    "i \<in> dom (tq_obj q) \<Longrightarrow> i \<notin> set (tq_active q) \<Longrightarrow> i \<notin> set (tq_active q')" by auto
qed

section \<open>Collecting the expired timers\<close>

lemma sorted_takeWhile_time:
  assumes "sorted ks" "\<forall>k\<in>set ks. tk_seq k < INT64_MAX - 1"
  shows "takeWhile (\<lambda>k. k < TimerKey now (INT64_MAX - 1)) ks = filter (\<lambda>k. tk_time k \<le> now) ks"
    "dropWhile (\<lambda>k. k < TimerKey now (INT64_MAX - 1)) ks = filter (\<lambda>k. \<not> tk_time k \<le> now) ks"
proof -
  have lt: "k < TimerKey now (INT64_MAX - 1) \<longleftrightarrow> tk_time k \<le> now" if "k \<in> set ks" for k
    using that assms(2) by (auto simp: less_timer_key_def WillExpiredTimerComparer_def)
  have "takeWhile (\<lambda>k. tk_time k \<le> now) ks = filter (\<lambda>k. tk_time k \<le> now) ks
      \<and> dropWhile (\<lambda>k. tk_time k \<le> now) ks = filter (\<lambda>k. \<not> tk_time k \<le> now) ks"
    using assms(1)
  proof (induction ks)
    case (Cons k ks)
    have "tk_time k \<le> tk_time x" if "x \<in> set ks" for x
      using Cons.prems that by (force simp: less_eq_timer_key_def less_timer_key_def WillExpiredTimerComparer_def split: if_splits)
    then have "\<not> tk_time k \<le> now \<Longrightarrow> filter (\<lambda>k. tk_time k \<le> now) ks = [] \<and> filter (\<lambda>k. \<not> tk_time k \<le> now) ks = ks"
      by (force simp: filter_empty_conv filter_id_conv dest: order_trans)
    with Cons show ?case by auto
  qed simp
  moreover have "takeWhile (\<lambda>k. k < TimerKey now (INT64_MAX - 1)) ks = takeWhile (\<lambda>k. tk_time k \<le> now) ks"
    "dropWhile (\<lambda>k. k < TimerKey now (INT64_MAX - 1)) ks = dropWhile (\<lambda>k. tk_time k \<le> now) ks"
    using lt by (auto intro: takeWhile_cong dropWhile_cong)
  ultimately show "takeWhile (\<lambda>k. k < TimerKey now (INT64_MAX - 1)) ks = filter (\<lambda>k. tk_time k \<le> now) ks"
    "dropWhile (\<lambda>k. k < TimerKey now (INT64_MAX - 1)) ks = filter (\<lambda>k. \<not> tk_time k \<le> now) ks" by simp_all
qed

lemma collect_all:
  assumes "distinct (map tk_seq es)" "tk_seq ` set es \<subseteq> set (tq_active q)" "distinct (tq_active q)"
  shows "\<exists>run. efold collect_expired es q = Inr (q\<lparr>tq_running := run,
      tq_active := filter (\<lambda>i. i \<notin> tk_seq ` set es) (tq_active q)\<rparr>)
    \<and> set run = set (tq_running q) \<union> tk_seq ` set es"
  using assms
proof (induction es arbitrary: q)
  case Nil
  then show ?case by (intro exI [of _ "tq_running q"]) simp
next
  case (Cons e es)
  let ?q = "q\<lparr>tq_running := add_id (tk_seq e) (tq_running q), tq_active := del_id (tk_seq e) (tq_active q)\<rparr>"
  have "tk_seq e \<notin> tk_seq ` set es" using Cons.prems(1) by simp
  moreover have "tk_seq ` set es \<subseteq> set (tq_active q)" using Cons.prems(2) by simp
  moreover have "set (tq_active ?q) = set (tq_active q) - {tk_seq e}" by (auto simp: del_id_def)
  ultimately have "tk_seq ` set es \<subseteq> set (tq_active ?q)" by (simp only: subset_Diff_insert simp_thms Diff_empty)
  moreover have "distinct (tq_active ?q)" using Cons.prems(3) by (simp add: del_id_def)
  ultimately obtain run where run: "efold collect_expired es ?q = Inr (?q\<lparr>tq_running := run,
      tq_active := filter (\<lambda>i. i \<notin> tk_seq ` set es) (tq_active ?q)\<rparr>)"
      "set run = set (tq_running ?q) \<union> tk_seq ` set es"
    using Cons.IH [of ?q] Cons.prems(1) by auto
  have "collect_expired e q = Inr ?q" using Cons.prems(2) by (simp add: collect_expired_def)
  moreover have "filter (\<lambda>i. i \<notin> tk_seq ` set es) (del_id (tk_seq e) (tq_active q))
      = filter (\<lambda>i. i \<notin> tk_seq ` set (e # es)) (tq_active q)"
    by (auto simp: del_id_def intro!: filter_cong)
  ultimately show ?case using run by (intro exI [of _ run]) auto
qed


lemma inv_small_seq:
  assumes "tq_inv q" "no_wrap q" "i \<in> set (tq_active q)"
  shows "i < INT64_MAX - 1"
proof -
  have "i < int (tq_created q)" using assms(1,3) by (auto simp: tq_inv_def)
  moreover have "int (tq_created q) \<le> 2 ^ 31" using assms(2) by (simp add: no_wrap_def)
  ultimately show ?thesis by (simp add: INT64_MAX_def)
qed

lemma inv_keys: "tq_inv q \<Longrightarrow> k \<in> set (tq_timers q) \<Longrightarrow> tk_seq k \<in> set (tq_active q)"
  by (auto simp: tq_inv_def)

lemma inv_expired_ids:
  assumes "tq_inv q"
  shows "tk_seq ` set (filter (\<lambda>k. tk_time k \<le> now) (tq_timers q))
    = {i \<in> set (tq_active q). tm_expiration (timer_of q i) \<le> now}"
proof -
  have "tk_time k = tm_expiration (timer_of q (tk_seq k))" if "k \<in> set (tq_timers q)" for k
    using that assms unfolding tq_inv_def by (metis key_of_def timer_key.sel(1))
  moreover have "\<exists>k\<in>set (tq_timers q). tk_seq k = i" if "i \<in> set (tq_active q)" for i
    using that assms unfolding tq_inv_def by (metis imageE)
  ultimately show ?thesis using inv_keys [OF assms] by (fastforce simp: image_iff)
qed

definition expired_of :: "int \<Rightarrow> timer_queue \<Rightarrow> timer_key list" where
  "expired_of now q = filter (\<lambda>k. tk_time k \<le> now) (tq_timers q)"

lemma getExpired_run:
  assumes q: "tq_inv q" "no_wrap q"
  shows "\<exists>run c. getExpired now q = Inr (expired_of now q, q\<lparr>tq_created := c,
      tq_timers := filter (\<lambda>k. \<not> tk_time k \<le> now) (tq_timers q),
      tq_active := filter (\<lambda>i. \<not> tm_expiration (timer_of q i) \<le> now) (tq_active q), tq_running := run\<rparr>)
    \<and> tq_created q \<le> c \<and> c \<le> tq_created q + 1 \<and> tk_seq ` set (expired_of now q) \<subseteq> set run"
    (is "\<exists>run c. getExpired now q = Inr (_, ?q run c) \<and> _")
proof (cases "tq_timers q = [] \<or> now < tk_time (hd (tq_timers q))")
  case True
  have s: "sorted (tq_timers q)" using q(1) by (simp add: tq_inv_def)
  have none: "\<not> tk_time k \<le> now" if k: "k \<in> set (tq_timers q)" for k
  proof -
    have "hd (tq_timers q) \<le> k" using s k by (cases "tq_timers q") auto
    then have "tk_time (hd (tq_timers q)) \<le> tk_time k"
      by (auto simp: less_eq_timer_key_def less_timer_key_def WillExpiredTimerComparer_def split: if_splits)
    moreover have "now < tk_time (hd (tq_timers q))" using True k by auto
    ultimately show ?thesis by simp
  qed
  then have e: "expired_of now q = []" by (simp add: expired_of_def filter_empty_conv)
  have "{i \<in> set (tq_active q). tm_expiration (timer_of q i) \<le> now} = {}"
    using inv_expired_ids [OF q(1), of now] e by (simp only: expired_of_def list.set image_empty)
  then have a: "filter (\<lambda>i. \<not> tm_expiration (timer_of q i) \<le> now) (tq_active q) = tq_active q"
    by (auto simp: filter_id_conv)
  have t: "filter (\<lambda>k. \<not> tk_time k \<le> now) (tq_timers q) = tq_timers q" using none by (simp add: filter_id_conv)
  have "getExpired now q = Inr ([], q)" using inv_length [OF q(1)] True by (auto simp: getExpired_def)
  then show ?thesis using e a t by (intro exI [of _ "tq_running q"] exI [of _ "tq_created q"]) simp
next
  case False
  let ?E = "expired_of now q"
  let ?R = "filter (\<lambda>k. \<not> tk_time k \<le> now) (tq_timers q)"
  let ?q1 = "q\<lparr>tq_created := tq_created q + 1, tq_timers := ?R, tq_running := []\<rparr>"
  have "\<forall>k\<in>set (tq_timers q). tk_seq k < INT64_MAX - 1"
    using inv_small_seq [OF q] inv_keys [OF q(1)] by blast
  note tw = sorted_takeWhile_time [OF _ this, of now, folded expired_of_def]
  have s: "sorted (tq_timers q)" using q(1) by (simp add: tq_inv_def)
  have ids: "tk_seq ` set ?E = {i \<in> set (tq_active q). tm_expiration (timer_of q i) \<le> now}"
    using inv_expired_ids [OF q(1)] by (simp add: expired_of_def)
  have "inj_on tk_seq (set ?E)" using inv_seq_inj [OF q(1)] by (rule inj_on_subset) (auto simp: expired_of_def)
  moreover have "distinct ?E" using q(1) by (simp add: expired_of_def tq_inv_def)
  ultimately have "distinct (map tk_seq ?E)" by (simp add: distinct_map)
  then obtain run where run: "efold collect_expired ?E ?q1 = Inr (?q1\<lparr>tq_running := run,
      tq_active := filter (\<lambda>i. i \<notin> tk_seq ` set ?E) (tq_active ?q1)\<rparr>)" "set run = tk_seq ` set ?E"
    using collect_all [of ?E ?q1] ids q(1) by (auto simp: tq_inv_def)
  have act: "filter (\<lambda>i. i \<notin> tk_seq ` set ?E) (tq_active q) = filter (\<lambda>i. \<not> tm_expiration (timer_of q i) \<le> now) (tq_active q)"
    by (intro filter_cong refl) (simp add: ids)
  have len: "length ?R = length (filter (\<lambda>i. \<not> tm_expiration (timer_of q i) \<le> now) (tq_active q))"
  proof -
    have "length ?E = card (tk_seq ` set ?E)"
      using \<open>distinct (map tk_seq ?E)\<close> by (metis distinct_card length_map set_map)
    also have "\<dots> = length (filter (\<lambda>i. tm_expiration (timer_of q i) \<le> now) (tq_active q))"
      using q(1) by (simp add: ids distinct_card [symmetric] tq_inv_def)
    finally show ?thesis
      using sum_length_filter_compl [of "\<lambda>k. tk_time k \<le> now" "tq_timers q"]
        sum_length_filter_compl [of "\<lambda>i. tm_expiration (timer_of q i) \<le> now" "tq_active q"] inv_length [OF q(1)]
      by (simp add: expired_of_def)
  qed
  have "getExpired now q = Inr (?E, ?q run (tq_created q + 1))"
    using False inv_length [OF q(1)] run(1) len
    by (simp add: getExpired_def Let_def tw s act)
  then show ?thesis using run(2) by (intro exI [of _ run] exI [of _ "tq_created q + 1"]) simp
qed


lemma getExpired_inv:
  assumes q: "tq_inv q" and c: "tq_created q \<le> c"
  shows "tq_inv (q\<lparr>tq_created := c, tq_timers := filter (\<lambda>k. \<not> tk_time k \<le> now) (tq_timers q),
      tq_active := filter (\<lambda>i. \<not> tm_expiration (timer_of q i) \<le> now) (tq_active q), tq_running := run\<rparr>)"
proof -
  have t: "tk_time k = tm_expiration (timer_of q (tk_seq k))" if "k \<in> set (tq_timers q)" for k
    using that q unfolding tq_inv_def by (metis key_of_def timer_key.sel(1))
  have "tk_seq ` set (filter (\<lambda>k. \<not> tk_time k \<le> now) (tq_timers q))
      = {i \<in> tk_seq ` set (tq_timers q). \<not> tm_expiration (timer_of q i) \<le> now}"
    using t by auto
  moreover have "i < int c" if "i \<in> dom (tq_obj q)" for i
  proof -
    have "i < int (tq_created q)" using that q by (auto simp: tq_inv_def)
    with c show ?thesis by simp
  qed
  ultimately show ?thesis using q c unfolding tq_inv_def
    by (simp add: key_of_def timer_of_def sorted_wrt_filter sorted_filter [of id, simplified] subset_iff)
qed

section \<open>The armed deadline\<close>

text \<open>The timer fd waits for a deadline not after the first one, as far as it is one of those that
  matter: all of them between two batches, those not in the future while a batch is served.\<close>

definition armed_ok :: "(int \<Rightarrow> bool) \<Rightarrow> timer_queue \<Rightarrow> bool" where
  "armed_ok P q \<longleftrightarrow> (tq_timers q \<noteq> [] \<longrightarrow> P (tk_time (hd (tq_timers q))) \<longrightarrow>
     (\<exists>a. tq_armed q = Some a \<and> a \<le> tk_time (hd (tq_timers q))))"

lemma tk_time_mono: "(k :: timer_key) \<le> l \<Longrightarrow> tk_time k \<le> tk_time l"
  by (auto simp: less_eq_timer_key_def less_timer_key_def WillExpiredTimerComparer_def split: if_splits)

lemma hd_insort: "hd (insort k ks) = (if ks = [] \<or> k \<le> hd ks then k else hd ks)"
  by (cases ks) auto

lemma hd_add_key_time:
  "sorted ks \<Longrightarrow> tk_time (hd (add_key k ks)) = (if ks = [] then tk_time k else min (tk_time k) (tk_time (hd ks)))"
proof (cases "k \<in> set ks")
  case True
  assume "sorted ks"
  with True have "hd ks \<le> k" by (cases ks) auto
  with True show ?thesis by (auto simp: add_key_def min_def dest!: tk_time_mono)
next
  case False
  then show ?thesis using tk_time_mono [of k "hd ks"] tk_time_mono [of "hd ks" k]
    by (auto simp: add_key_def hd_insort min_def)
qed

lemma armed_filter:
  assumes "sorted (tq_timers q)" "armed_ok P q" "\<And>s t. s \<le> t \<Longrightarrow> P t \<Longrightarrow> P s"
    "tq_timers q' = filter R (tq_timers q)" "tq_armed q' = tq_armed q"
  shows "armed_ok P q'"
proof (cases "filter R (tq_timers q)")
  case (Cons k ks)
  then have "k \<in> set (tq_timers q)" by (metis filter_is_subset list.set_intros(1) subsetD)
  then have "hd (tq_timers q) \<le> k" "tq_timers q \<noteq> []" using assms(1) by (cases "tq_timers q"; auto)+
  then show ?thesis using assms Cons tk_time_mono [of "hd (tq_timers q)" k]
    unfolding armed_ok_def by (metis list.sel(1) order_trans)
qed (use assms in \<open>simp add: armed_ok_def\<close>)

lemma insert_timers:
  "tq_timers (snd (tq_insert i q)) = add_key (key_of q i) (tq_timers q)"
  "tq_armed (snd (tq_insert i q)) = tq_armed q"
  by (simp_all add: tq_insert_def Let_def key_of_def)

lemma addTimerInLoop_armed:
  assumes "sorted (tq_timers q)" "armed_ok P q" "\<And>s t. s \<le> t \<Longrightarrow> P t \<Longrightarrow> P s"
  shows "armed_ok P (addTimerInLoop i q)"
  using assms hd_add_key_time [of "tq_timers q" "key_of q i"]
  by (auto simp: addTimerInLoop_def tq_insert_def Let_def resetTimerFd_def armed_ok_def key_of_def timer_of_def min_def
      split: if_splits)

lemma run_op_armed:
  assumes "sorted (tq_timers q)" "armed_ok P q" "\<And>s t. s \<le> t \<Longrightarrow> P t \<Longrightarrow> P s" "run_op op q = Inr q'"
  shows "armed_ok P q'"
proof (cases op)
  case (OpAdd t iv cb)
  let ?q = "snd (new_timer cb t iv q)"
  have "armed_ok P (addTimerInLoop (next_sequence q) ?q)"
    using assms by (intro addTimerInLoop_armed) (auto simp: new_timer_def armed_ok_def Let_def)
  then show ?thesis using assms(4) OpAdd by (auto simp: addTimer_def new_timer_def Let_def)
next
  case (OpCancel i)
  then have "run_op (OpCancel i) q = Inr q'" using assms(4) by simp
  then have "q' = q \<or> (q' = q\<lparr>tq_canceling := add_id i (tq_canceling q)\<rparr>)
      \<or> q' = q\<lparr>tq_timers := del_key (key_of q i) (tq_timers q), tq_active := del_id i (tq_active q)\<rparr>"
    by (auto simp: tq_cancel_def cancelInLoop_def split: if_splits)
  then show ?thesis
    using assms(1-3) armed_filter [of q P q' "\<lambda>k. k \<noteq> key_of q i"] by (auto simp: armed_ok_def del_key_def)
qed


section \<open>Serving a batch\<close>

text \<open>While a batch is served: its timers exist and are not active; \<open>ids\<close> are their numbers.\<close>

definition batch_inv :: "int set \<Rightarrow> timer_queue \<Rightarrow> bool" where
  "batch_inv ids q \<longleftrightarrow> tq_inv q \<and> armed_ok (\<lambda>t. t \<le> 0) q \<and> ids \<subseteq> dom (tq_obj q) \<and> ids \<inter> set (tq_active q) = {}"

lemma no_wrap_mono: "no_wrap q' \<Longrightarrow> tq_created q \<le> tq_created q' \<Longrightarrow> no_wrap q"
  by (simp add: no_wrap_def)

lemma run_op_batch:
  assumes "run_op op q = Inr q'" "batch_inv ids q" "no_wrap q'"
  shows "batch_inv ids q'" "\<And>i. i \<in> ids \<Longrightarrow> tq_obj q' i = tq_obj q i"
proof -
  have q: "tq_inv q" "ids \<subseteq> dom (tq_obj q)" "ids \<inter> set (tq_active q) = {}" "sorted (tq_timers q)"
    "armed_ok (\<lambda>t. t \<le> 0) q"
    using assms(2) by (auto simp: batch_inv_def tq_inv_def)
  show obj: "tq_obj q' i = tq_obj q i" if "i \<in> ids" for i
    using that q run_op_frame(1) [OF assms(1) q(1) assms(3)] by blast
  have "ids \<subseteq> dom (tq_obj q')"
  proof
    fix i assume "i \<in> ids"
    then show "i \<in> dom (tq_obj q')" using obj [of i] q(2) by (auto simp: domIff)
  qed
  moreover have "ids \<inter> set (tq_active q') = {}"
    using q run_op_frame(2) [OF assms(1) q(1) assms(3)] by blast
  moreover have "armed_ok (\<lambda>t. t \<le> 0) q'" using run_op_armed [OF q(4,5) _ assms(1)] by simp
  ultimately show "batch_inv ids q'" using run_op_inv [OF assms(1) q(1) assms(3)] by (simp add: batch_inv_def)
qed

lemma run_ops_batch:
  assumes "efold run_op ops q = Inr q'" "batch_inv ids q" "no_wrap q'"
  shows "batch_inv ids q' \<and> (\<forall>i\<in>ids. tq_obj q' i = tq_obj q i)"
  using assms
proof (induction ops arbitrary: q)
  case (Cons op ops)
  then obtain r where r: "run_op op q = Inr r" "efold run_op ops r = Inr q'" by (auto simp: ebind_Inr)
  have "no_wrap r" using Cons.prems(3) created_mono_fold [OF r(2)] by (rule no_wrap_mono)
  then show ?case using run_op_batch [OF r(1) Cons.prems(2)] Cons.IH [OF r(2) _ Cons.prems(3)] by simp
qed simp

lemma batch_frame [simp]:
  "batch_inv ids (q\<lparr>tq_log := l\<rparr>) = batch_inv ids q" "batch_inv ids (q\<lparr>tq_running := r\<rparr>) = batch_inv ids q"
  "batch_inv ids (q\<lparr>tq_calling := b\<rparr>) = batch_inv ids q" "batch_inv ids (q\<lparr>tq_canceling := c\<rparr>) = batch_inv ids q"
  by (simp_all add: batch_inv_def tq_inv_def armed_ok_def key_of_def timer_of_def)

lemma no_wrap_frame [simp]:
  "no_wrap (q\<lparr>tq_log := l\<rparr>) = no_wrap q" "no_wrap (q\<lparr>tq_running := r\<rparr>) = no_wrap q"
  "no_wrap (q\<lparr>tq_calling := b\<rparr>) = no_wrap q" "no_wrap (q\<lparr>tq_canceling := c\<rparr>) = no_wrap q"
  by (simp_all add: no_wrap_def)

lemma created_run_expired: "run_expired e q = Inr q' \<Longrightarrow> tq_created q \<le> tq_created q'"
  by (auto simp: run_expired_def ebind_Inr dest!: created_mono_fold split: if_splits)

lemma created_run_batch: "efold run_expired es q = Inr q' \<Longrightarrow> tq_created q \<le> tq_created q'"
  by (induction es arbitrary: q) (auto simp: ebind_Inr dest!: created_run_expired intro: le_trans)

lemma run_expired_batch:
  assumes "run_expired e q = Inr q'" "batch_inv ids q" "no_wrap q'"
  shows "batch_inv ids q' \<and> (\<forall>i\<in>ids. tq_obj q' i = tq_obj q i)"
proof (cases "tk_seq e \<in> set (tq_canceling q)")
  case False
  then obtain r where r: "efold run_op (tm_callback (timer_of q (tk_seq e))) (q\<lparr>tq_log := tq_log q @ [tk_seq e]\<rparr>) = Inr r"
      "q' = r\<lparr>tq_running := del_id (tk_seq e) (tq_running r)\<rparr>"
    using assms(1) by (auto simp: run_expired_def ebind_Inr)
  then show ?thesis using run_ops_batch [OF r(1), of ids] assms(2,3) by simp
qed (use assms in \<open>simp add: run_expired_def\<close>)

lemma run_batch:
  assumes "efold run_expired es q = Inr q'" "batch_inv ids q" "no_wrap q'"
  shows "batch_inv ids q' \<and> (\<forall>i\<in>ids. tq_obj q' i = tq_obj q i)"
  using assms
proof (induction es arbitrary: q)
  case (Cons e es)
  then obtain r where r: "run_expired e q = Inr r" "efold run_expired es r = Inr q'" by (auto simp: ebind_Inr)
  have "no_wrap r" using Cons.prems(3) created_run_batch [OF r(2)] by (rule no_wrap_mono)
  then show ?case using run_expired_batch [OF r(1) Cons.prems(2)] Cons.IH [OF r(2) _ Cons.prems(3)] by simp
qed simp

section \<open>Restarting the repeating timers\<close>

lemma reset_one_batch:
  assumes "batch_inv ids q" "i = tk_seq e" "i \<in> ids" "0 \<le> now"
  shows "batch_inv (ids - {i}) (reset_one now e q)"
proof (cases "tm_repeated (timer_of q i) \<and> i \<notin> set (tq_canceling q)")
  case False
  then show ?thesis using assms by (auto simp: reset_one_def batch_inv_def Let_def)
next
  case True
  let ?q = "q\<lparr>tq_obj := (tq_obj q)(i \<mapsto> restart now (timer_of q i))\<rparr>"
  have r: "reset_one now e q = snd (tq_insert i ?q)" using True assms(2) by (simp add: reset_one_def Let_def)
  have q: "tq_inv q" "i \<in> dom (tq_obj q)" "i \<notin> set (tq_active q)" "armed_ok (\<lambda>t. t \<le> 0) q"
    using assms(1,3) by (auto simp: batch_inv_def)
  then have b: "0 < i" "i < int (tq_created q)" by (auto simp: tq_inv_def)
  obtain t where t: "tq_obj q i = Some t" using q(2) by blast
  then have "t \<in> ran (tq_obj q)" by (rule ranI)
  then have rep: "tm_repeated t \<longleftrightarrow> 0 < tm_interval t" using q(1) by (simp add: tq_inv_def)
  have tof: "timer_of q i = t" "timer_of ?q i = restart now t" by (simp_all add: timer_of_def t)
  have "tm_repeated t" using True tof by simp
  then have pos: "0 < tm_expiration (restart now t)" using rep assms(4) by (simp add: restart_def)
  have "tq_inv ?q" using update_obj_inv [OF q(1,3) b, of "restart now t"] rep tof(1) by (simp add: restart_def)
  then have inv: "tq_inv (snd (tq_insert i ?q))" using q by (intro insert_inv) auto
  have "sorted (tq_timers q)" using q(1) by (simp add: tq_inv_def)
  then have "armed_ok (\<lambda>t. t \<le> 0) (snd (tq_insert i ?q))"
    using q(4) hd_add_key_time [of "tq_timers q" "key_of ?q i"] pos tof(2)
    unfolding armed_ok_def insert_timers by (auto simp: key_of_def min_def split: if_splits)
  moreover have "ids \<subseteq> dom (tq_obj (snd (tq_insert i ?q)))" "(ids - {i}) \<inter> set (tq_active (snd (tq_insert i ?q))) = {}"
    using assms(1) by (auto simp: batch_inv_def tq_insert_def Let_def)
  ultimately show ?thesis using r inv by (auto simp: batch_inv_def)
qed


lemma reset_created [simp]: "tq_created (fold (reset_one now) es q) = tq_created q"
  by (induction es arbitrary: q) (simp_all add: reset_one_def tq_insert_def Let_def)

lemma reset_batch:
  assumes "batch_inv ids q" "distinct (map tk_seq es)" "tk_seq ` set es \<subseteq> ids" "0 \<le> now"
  shows "batch_inv (ids - tk_seq ` set es) (fold (reset_one now) es q)"
  using assms
proof (induction es arbitrary: q ids)
  case (Cons e es)
  have "tk_seq e \<notin> tk_seq ` set es" "tk_seq ` set es \<subseteq> ids" using Cons.prems(2,3) by simp_all
  then have "tk_seq ` set es \<subseteq> ids - {tk_seq e}" by blast
  then have "batch_inv (ids - {tk_seq e} - tk_seq ` set es) (fold (reset_one now) es (reset_one now e q))"
    using Cons.prems reset_one_batch [OF Cons.prems(1) refl _ Cons.prems(4), of e] by (intro Cons.IH) auto
  moreover have "ids - {tk_seq e} - tk_seq ` set es = ids - tk_seq ` set (e # es)" by auto
  ultimately show ?case by simp
qed simp

lemma tq_reset_armed:
  assumes "batch_inv ids q" "distinct (map tk_seq es)" "tk_seq ` set es \<subseteq> ids" "0 \<le> now"
  shows "tq_inv (tq_reset es now q) \<and> armed_ok (\<lambda>t. True) (tq_reset es now q)"
proof -
  let ?q = "fold (reset_one now) es q"
  have b: "tq_inv ?q" "armed_ok (\<lambda>t. t \<le> 0) ?q" using reset_batch [OF assms] by (simp_all add: batch_inv_def)
  have k: "tk_time k = tm_expiration (timer_of ?q (tk_seq k))" if "k \<in> set (tq_timers ?q)" for k
    using that b(1) unfolding tq_inv_def by (metis key_of_def timer_key.sel(1))
  show ?thesis
  proof (cases "tq_timers ?q = []")
    case False
    then have "tm_expiration (timer_of ?q (tk_seq (hd (tq_timers ?q)))) = tk_time (hd (tq_timers ?q))"
      using k [of "hd (tq_timers ?q)"] by simp
    then show ?thesis using b False using resetTimerFd_inv [of _ ?q]
      by (auto simp: tq_reset_def Let_def armed_ok_def resetTimerFd_def)
  qed (use b in \<open>simp add: tq_reset_def armed_ok_def\<close>)
qed

lemma created_handleRead: "tq_handleRead now q = Inr q' \<Longrightarrow> tq_created q \<le> tq_created q'"
proof -
  assume "tq_handleRead now q = Inr q'"
  then obtain es r s where r: "getExpired now (q\<lparr>tq_armed := None\<rparr>) = Inr (es, r)"
    "efold run_expired es (r\<lparr>tq_calling := True, tq_canceling := []\<rparr>) = Inr s"
    "q' = tq_reset es now (s\<lparr>tq_calling := False\<rparr>)"
    by (auto simp: tq_handleRead_def ebind_Inr split: prod.splits)
  have c: "collect_expired e a = Inr b \<Longrightarrow> tq_created a = tq_created b" for e a b
    by (auto simp: collect_expired_def split: if_splits)
  have "efold collect_expired l a = Inr b \<Longrightarrow> tq_created a = tq_created b" for l a b
    by (induction l arbitrary: a) (auto simp: ebind_Inr dest: c)
  then have "tq_created q \<le> tq_created r" using r(1)
    by (fastforce simp: getExpired_def ebind_Inr Let_def split: if_splits)
  moreover have "tq_created r \<le> tq_created s" using created_run_batch [OF r(2)] by simp
  ultimately show ?thesis by (simp add: r(3) tq_reset_def Let_def resetTimerFd_def)
qed

text \<open>The state in which a batch starts to run.\<close>

lemma handleRead_start:
  assumes q: "tq_inv q" "no_wrap q" and now: "0 \<le> now"
  obtains r where "getExpired now (q\<lparr>tq_armed := None\<rparr>) = Inr (expired_of now q, r)"
    "batch_inv (tk_seq ` set (expired_of now q)) (r\<lparr>tq_calling := True, tq_canceling := []\<rparr>)"
    "distinct (map tk_seq (expired_of now q))" "tq_obj r = tq_obj q" "tq_log r = tq_log q"
    "tq_timers r = filter (\<lambda>k. \<not> tk_time k \<le> now) (tq_timers q)" "tk_seq ` set (expired_of now q) \<subseteq> set (tq_running r)"
    "tq_created r \<le> tq_created q + 1"
proof -
  let ?q = "q\<lparr>tq_armed := None\<rparr>"
  have i: "tq_inv ?q" "no_wrap ?q" using q by (simp_all add: tq_inv_def no_wrap_def key_of_def timer_of_def)
  have e: "expired_of now ?q = expired_of now q" by (simp add: expired_of_def)
  from getExpired_run [OF i, of now] obtain run c where r: "getExpired now ?q = Inr (expired_of now ?q,
      ?q\<lparr>tq_created := c, tq_timers := filter (\<lambda>k. \<not> tk_time k \<le> now) (tq_timers ?q),
      tq_active := filter (\<lambda>i. \<not> tm_expiration (timer_of ?q i) \<le> now) (tq_active ?q), tq_running := run\<rparr>)"
    and c: "tq_created ?q \<le> c" "c \<le> tq_created ?q + 1" and run: "tk_seq ` set (expired_of now ?q) \<subseteq> set run"
    by blast
  let ?r = "?q\<lparr>tq_created := c, tq_timers := filter (\<lambda>k. \<not> tk_time k \<le> now) (tq_timers ?q),
      tq_active := filter (\<lambda>i. \<not> tm_expiration (timer_of ?q i) \<le> now) (tq_active ?q), tq_running := run\<rparr>"
  have inv: "tq_inv ?r" using getExpired_inv [OF i(1) c(1)] .
  have ids: "tk_seq ` set (expired_of now q) = {i \<in> set (tq_active q). tm_expiration (timer_of q i) \<le> now}"
    using inv_expired_ids [OF q(1)] by (simp add: expired_of_def)
  have "armed_ok (\<lambda>t. t \<le> 0) ?r"
  proof (cases "tq_timers ?r")
    case (Cons k ks)
    then have "k \<in> set (tq_timers ?r)" by simp
    then have "now < tk_time k" by auto
    with Cons now show ?thesis by (simp add: armed_ok_def)
  qed (simp add: armed_ok_def)
  moreover have "tk_seq ` set (expired_of now q) \<subseteq> dom (tq_obj ?r)" using ids q(1) by (auto simp: tq_inv_def)
  moreover have "tk_seq ` set (expired_of now q) \<inter> set (tq_active ?r) = {}"
    unfolding ids by (auto simp: timer_of_def)
  ultimately have "batch_inv (tk_seq ` set (expired_of now q)) ?r" using inv by (simp add: batch_inv_def)
  moreover have "inj_on tk_seq (set (expired_of now q))"
    using inv_seq_inj [OF q(1)] by (rule inj_on_subset) (auto simp: expired_of_def)
  moreover have "distinct (expired_of now q)" using q(1) by (simp add: expired_of_def tq_inv_def)
  ultimately show thesis using that [of ?r] r run e c by (simp add: distinct_map)
qed

lemma handleRead_inv:
  assumes q: "tq_inv q" and r: "tq_handleRead now q = Inr q'" "no_wrap q'" "0 \<le> now"
  shows "tq_inv q' \<and> armed_ok (\<lambda>t. True) q'"
proof -
  have w: "no_wrap q" using r(2) created_handleRead [OF r(1)] by (rule no_wrap_mono)
  obtain s where s: "getExpired now (q\<lparr>tq_armed := None\<rparr>) = Inr (expired_of now q, s)"
    "batch_inv (tk_seq ` set (expired_of now q)) (s\<lparr>tq_calling := True, tq_canceling := []\<rparr>)"
    "distinct (map tk_seq (expired_of now q))"
    by (rule handleRead_start [OF q w r(3)]) blast
  then obtain u where u: "efold run_expired (expired_of now q) (s\<lparr>tq_calling := True, tq_canceling := []\<rparr>) = Inr u"
    "q' = tq_reset (expired_of now q) now (u\<lparr>tq_calling := False\<rparr>)"
    using r(1) by (auto simp: tq_handleRead_def ebind_Inr)
  have "no_wrap u" using r(2) u(2) by (simp add: no_wrap_def tq_reset_def Let_def resetTimerFd_def split: if_splits)
  then have "batch_inv (tk_seq ` set (expired_of now q)) (u\<lparr>tq_calling := False\<rparr>)"
    using run_batch [OF u(1) s(2)] by simp
  then show ?thesis unfolding u(2) using s(3) r(3) by (intro tq_reset_armed) auto
qed


section \<open>Batches whose callbacks only start timers\<close>

definition adds_only :: "timer_queue \<Rightarrow> int \<Rightarrow> bool" where
  "adds_only q i \<longleftrightarrow> (\<forall>op\<in>set (tm_callback (timer_of q i)). case op of OpAdd t iv cb \<Rightarrow> True | OpCancel j \<Rightarrow> False)"

definition callback_size :: "timer_queue \<Rightarrow> int \<Rightarrow> nat" where
  "callback_size q i = length (tm_callback (timer_of q i))"

lemma addTimer_sel:
  "tq_created (addTimer cb t iv q) = tq_created q + 1" "tq_canceling (addTimer cb t iv q) = tq_canceling q"
  "tq_log (addTimer cb t iv q) = tq_log q" "set (tq_timers q) \<subseteq> set (tq_timers (addTimer cb t iv q))"
  by (auto simp: addTimer_def new_timer_def addTimerInLoop_def tq_insert_def resetTimerFd_def Let_def)

lemma addTimer_nonempty: "tq_timers (addTimer cb t iv q) \<noteq> []"
proof -
  have "add_key k ks \<noteq> []" for k ks
  proof -
    have "k \<in> set (add_key k ks)" by simp
    then show ?thesis by (metis empty_iff list.set(1))
  qed
  then show ?thesis by (simp add: addTimer_def new_timer_def addTimerInLoop_def tq_insert_def resetTimerFd_def Let_def)
qed

lemma run_ops_add:
  assumes "\<forall>op\<in>set ops. case op of OpAdd t iv cb \<Rightarrow> True | OpCancel j \<Rightarrow> False"
  shows "\<exists>q'. efold run_op ops q = Inr q' \<and> tq_created q' = tq_created q + length ops
    \<and> tq_canceling q' = tq_canceling q \<and> tq_log q' = tq_log q \<and> set (tq_timers q) \<subseteq> set (tq_timers q')"
  using assms
proof (induction ops arbitrary: q)
  case (Cons op ops)
  then obtain t iv cb where op: "op = OpAdd t iv cb" by (cases op) auto
  from Cons.IH [of "addTimer cb t iv q"] Cons.prems
    addTimer_sel [where cb = cb and t = t and iv = iv and q = q] show ?case
    by (auto simp: op)
qed simp

lemma run_batch_add:
  assumes "batch_inv ids q" "tk_seq ` set es \<subseteq> ids" "tq_canceling q = []" "\<forall>e\<in>set es. adds_only q (tk_seq e)"
    "tq_created q + sum_list (map (\<lambda>e. callback_size q (tk_seq e)) es) \<le> 2 ^ 31"
  shows "\<exists>q'. efold run_expired es q = Inr q' \<and> no_wrap q' \<and> tq_canceling q' = []
    \<and> tq_log q' = tq_log q @ map tk_seq es \<and> set (tq_timers q) \<subseteq> set (tq_timers q')"
  using assms
proof (induction es arbitrary: q)
  case (Cons e es)
  let ?i = "tk_seq e"
  obtain r where r: "efold run_op (tm_callback (timer_of q ?i)) (q\<lparr>tq_log := tq_log q @ [?i]\<rparr>) = Inr r"
    "tq_created r = tq_created q + callback_size q ?i" "tq_canceling r = []" "tq_log r = tq_log q @ [?i]"
    "set (tq_timers q) \<subseteq> set (tq_timers r)"
    using run_ops_add [of "tm_callback (timer_of q ?i)" "q\<lparr>tq_log := tq_log q @ [?i]\<rparr>"] Cons.prems(3,4)
    by (auto simp: adds_only_def callback_size_def)
  let ?r = "r\<lparr>tq_running := del_id ?i (tq_running r)\<rparr>"
  have step: "run_expired e q = Inr ?r" using r(1) Cons.prems(3) by (simp add: run_expired_def)
  have nw: "no_wrap ?r" using r(2) Cons.prems(5) by (simp add: no_wrap_def)
  have b: "batch_inv ids ?r" "\<forall>i\<in>ids. tq_obj ?r i = tq_obj q i"
    using run_expired_batch [OF step Cons.prems(1) nw] by blast+
  have same: "timer_of ?r (tk_seq e') = timer_of q (tk_seq e')" if "e' \<in> set es" for e'
    using that b(2) Cons.prems(2) by (auto simp: timer_of_def)
  then have sz: "map (\<lambda>e. callback_size ?r (tk_seq e)) es = map (\<lambda>e. callback_size q (tk_seq e)) es"
    "\<forall>e\<in>set es. adds_only ?r (tk_seq e)"
    using Cons.prems(4) by (simp_all add: callback_size_def adds_only_def)
  have "\<exists>q'. efold run_expired es ?r = Inr q' \<and> no_wrap q' \<and> tq_canceling q' = []
    \<and> tq_log q' = tq_log ?r @ map tk_seq es \<and> set (tq_timers ?r) \<subseteq> set (tq_timers q')"
  proof (rule Cons.IH [OF b(1)])
    show "tq_created ?r + sum_list (map (\<lambda>e. callback_size ?r (tk_seq e)) es) \<le> 2 ^ 31"
      unfolding sz(1) using Cons.prems(5) r(2) by simp
  qed (use Cons.prems r(3) sz(2) in auto)
  then show ?case using step r(4,5) by auto
qed (simp add: no_wrap_def)

lemma reset_one_sel:
  "set (tq_timers q) \<subseteq> set (tq_timers (reset_one now e q))"
  "tq_canceling (reset_one now e q) = tq_canceling q" "tq_log (reset_one now e q) = tq_log q"
  "i \<noteq> tk_seq e \<Longrightarrow> timer_of (reset_one now e q) i = timer_of q i"
  by (auto simp: reset_one_def tq_insert_def Let_def timer_of_def)

lemma reset_fold:
  fixes q :: timer_queue and now :: int
  assumes "distinct (map tk_seq es)"
  defines "q' \<equiv> fold (reset_one now) es q"
  shows "set (tq_timers q) \<subseteq> set (tq_timers q') \<and> tq_log q' = tq_log q
    \<and> set (tq_active q') = set (tq_active q)
        \<union> {i \<in> tk_seq ` set es. tm_repeated (timer_of q i) \<and> i \<notin> set (tq_canceling q)}
    \<and> (\<forall>i\<in>tk_seq ` set es. tm_repeated (timer_of q i) \<and> i \<notin> set (tq_canceling q)
        \<longrightarrow> TimerKey (now + tm_interval (timer_of q i)) i \<in> set (tq_timers q'))"
  using assms(1) unfolding q'_def
proof (induction es arbitrary: q)
  case (Cons e es)
  let ?q = "reset_one now e q"
  have d: "distinct (map tk_seq es)" "tk_seq e \<notin> tk_seq ` set es" using Cons.prems by simp_all
  have same: "timer_of ?q i = timer_of q i" if "i \<in> tk_seq ` set es" for i
  proof -
    have "i \<noteq> tk_seq e" using that d(2) by metis
    then show ?thesis by (rule reset_one_sel(4))
  qed
  have act: "set (tq_active ?q) = set (tq_active q)
      \<union> {i. i = tk_seq e \<and> tm_repeated (timer_of q i) \<and> i \<notin> set (tq_canceling q)}"
    by (auto simp: reset_one_def tq_insert_def Let_def)
  have key: "tm_repeated (timer_of q (tk_seq e)) \<and> tk_seq e \<notin> set (tq_canceling q)
      \<longrightarrow> TimerKey (now + tm_interval (timer_of q (tk_seq e))) (tk_seq e) \<in> set (tq_timers ?q)"
    by (auto simp: reset_one_def tq_insert_def Let_def timer_of_def restart_def)
  note ih = Cons.IH [OF d(1), of ?q]
  have "{i \<in> tk_seq ` set es. tm_repeated (timer_of ?q i) \<and> i \<notin> set (tq_canceling ?q)}
      = {i \<in> tk_seq ` set es. tm_repeated (timer_of q i) \<and> i \<notin> set (tq_canceling q)}"
    using same reset_one_sel(2) [of now e q] by auto
  with ih act have "set (tq_active (fold (reset_one now) es ?q)) = set (tq_active q)
      \<union> {i \<in> tk_seq ` set (e # es). tm_repeated (timer_of q i) \<and> i \<notin> set (tq_canceling q)}"
    by auto
  moreover have "\<forall>i\<in>tk_seq ` set (e # es). tm_repeated (timer_of q i) \<and> i \<notin> set (tq_canceling q)
      \<longrightarrow> TimerKey (now + tm_interval (timer_of q i)) i \<in> set (tq_timers (fold (reset_one now) es ?q))"
    using ih key same reset_one_sel(2) [of now e q] by auto
  ultimately show ?case using ih reset_one_sel(1,3) [where now = now and e = e and q = q] by auto
qed simp


section \<open>Callbacks entered\<close>

lemma run_op_log: "run_op op q = Inr q' \<Longrightarrow> tq_log q' = tq_log q"
  by (cases op) (auto simp: addTimer_sel tq_cancel_def cancelInLoop_def split: if_splits)

lemma run_ops_log: "efold run_op ops q = Inr q' \<Longrightarrow> tq_log q' = tq_log q"
  by (induction ops arbitrary: q) (auto simp: ebind_Inr dest: run_op_log)

lemma run_expired_log: "run_expired e q = Inr q' \<Longrightarrow> tq_log q' = tq_log q \<or> tq_log q' = tq_log q @ [tk_seq e]"
  by (auto simp: run_expired_def ebind_Inr dest!: run_ops_log split: if_splits)

lemma run_batch_log:
  "efold run_expired es q = Inr q' \<Longrightarrow> \<exists>ran. tq_log q' = tq_log q @ ran \<and> subseq ran (map tk_seq es)"
proof (induction es arbitrary: q)
  case (Cons e es)
  then obtain r where r: "run_expired e q = Inr r" "efold run_expired es r = Inr q'" by (auto simp: ebind_Inr)
  then obtain ran where ran: "tq_log q' = tq_log r @ ran" "subseq ran (map tk_seq es)" using Cons.IH by blast
  have "subseq ran (map tk_seq (e # es))" "subseq (tk_seq e # ran) (map tk_seq (e # es))" using ran(2) by auto
  then show ?case using run_expired_log [OF r(1)] ran(1) by (metis append.assoc append_Cons append_Nil)
qed simp

lemma tq_reset_sel:
  "tq_log (tq_reset es now q) = tq_log (fold (reset_one now) es q)"
  "tq_timers (tq_reset es now q) = tq_timers (fold (reset_one now) es q)"
  "tq_active (tq_reset es now q) = tq_active (fold (reset_one now) es q)"
  by (simp_all add: tq_reset_def Let_def resetTimerFd_def)

section \<open>Reachable queues\<close>

inductive tq_reach :: "timer_queue \<Rightarrow> bool" where
  start: "tq_reach new_timer_queue"
| add: "tq_reach q \<Longrightarrow> tq_reach (addTimer cb when interval q)"
| cancel: "tq_reach q \<Longrightarrow> tq_cancel i q = Inr q' \<Longrightarrow> tq_reach q'"
| fire: "tq_reach q \<Longrightarrow> tq_armed q = Some a \<Longrightarrow> 0 \<le> now \<Longrightarrow> tq_handleRead now q = Inr q' \<Longrightarrow> tq_reach q'"

lemma tq_reach_inv: "tq_reach q \<Longrightarrow> no_wrap q \<Longrightarrow> tq_inv q \<and> armed_ok (\<lambda>t. True) q"
proof (induction rule: tq_reach.induct)
  case start
  then show ?case by (simp add: new_timer_queue_def tq_inv_def armed_ok_def)
next
  case (add q cb t interval)
  have r: "run_op (OpAdd t interval cb) q = Inr (addTimer cb t interval q)" by simp
  have i: "tq_inv q" "armed_ok (\<lambda>t. True) q" using add no_wrap_mono [OF add.prems created_mono [OF r]] by blast+
  have "sorted (tq_timers q)" using i(1) by (simp add: tq_inv_def)
  then show ?case using run_op_inv [OF r i(1) add.prems] run_op_armed [OF _ i(2) _ r] by simp
next
  case (cancel q i q')
  have r: "run_op (OpCancel i) q = Inr q'" using cancel by simp
  have i: "tq_inv q" "armed_ok (\<lambda>t. True) q" using cancel no_wrap_mono [OF cancel.prems created_mono [OF r]] by blast+
  have "sorted (tq_timers q)" using i(1) by (simp add: tq_inv_def)
  then show ?case using run_op_inv [OF r i(1) cancel.prems] run_op_armed [OF _ i(2) _ r] by simp
next
  case (fire q a now q')
  then have "no_wrap q" by (meson created_handleRead no_wrap_mono)
  then show ?case using fire handleRead_inv by blast
qed

section \<open>Properties\<close>

text \<open>C12. No timer is forgotten: in every state the queue reaches by starting and cancelling timers and
  by serving the timer fd, whatever its callbacks start and cancel, the ordered set and the table of
  active timers hold the same timers, and when there is one the fd is armed for a time not after the
  first deadline. (While fewer than \<open>2 ^ 31\<close> sequence numbers have been used.)\<close>

theorem no_forgotten_timer:
  assumes "tq_reach q" "no_wrap q"
  shows "tk_seq ` set (tq_timers q) = set (tq_active q) \<and> length (tq_timers q) = length (tq_active q)
    \<and> (tq_timers q \<noteq> [] \<longrightarrow> (\<exists>a. tq_armed q = Some a \<and> (\<forall>k\<in>set (tq_timers q). a \<le> tk_time k)))"
proof -
  have q: "tq_inv q" "armed_ok (\<lambda>t. True) q" using tq_reach_inv [OF assms] by simp_all
  have "\<forall>k\<in>set (tq_timers q). tk_time (hd (tq_timers q)) \<le> tk_time k"
  proof
    fix k assume "k \<in> set (tq_timers q)"
    then have "hd (tq_timers q) \<le> k" using q(1) by (cases "tq_timers q") (auto simp: tq_inv_def)
    then show "tk_time (hd (tq_timers q)) \<le> tk_time k" by (rule tk_time_mono)
  qed
  then show ?thesis using q inv_length [OF q(1)] unfolding armed_ok_def tq_inv_def by (meson order_trans)
qed

theorem no_forgotten_timer_witness:
  "\<exists>q :: timer_queue. tq_timers q \<noteq> [] \<and> (\<exists>a. tq_armed q = Some a \<and> (\<forall>k\<in>set (tq_timers q). a \<le> tk_time k))"
proof -
  let ?q = "addTimer [] 20 0 (addTimer [] 50 10 new_timer_queue)"
  have "tq_reach ?q" by (intro tq_reach.intros)
  moreover have "no_wrap ?q" by (simp add: no_wrap_def addTimer_sel new_timer_queue_def)
  moreover have "tq_timers ?q \<noteq> []" by (rule addTimer_nonempty)
  ultimately show ?thesis using no_forgotten_timer [of ?q] by (intro exI [of _ ?q]) simp
qed

text \<open>C33. A batch whose callbacks only start timers: serving the fd enters the callback of each timer
  whose deadline has come, each once and in the order of the deadlines, keeps every timer that is not
  due, puts each repeating timer back one interval after the batch's time, and drops the others.\<close>

theorem due_timers_served:
  assumes "tq_inv q" "0 \<le> now" "\<forall>e\<in>set (expired_of now q). adds_only q (tk_seq e)"
    and "tq_created q + 1 + sum_list (map (\<lambda>e. callback_size q (tk_seq e)) (expired_of now q)) \<le> 2 ^ 31"
  shows "\<exists>q'. tq_handleRead now q = Inr q' \<and> tq_inv q' \<and> tq_log q' = tq_log q @ map tk_seq (expired_of now q)
    \<and> (\<forall>k\<in>set (tq_timers q). now < tk_time k \<longrightarrow> k \<in> set (tq_timers q'))
    \<and> (\<forall>e\<in>set (expired_of now q). if tm_repeated (timer_of q (tk_seq e))
          then TimerKey (now + tm_interval (timer_of q (tk_seq e))) (tk_seq e) \<in> set (tq_timers q')
          else tk_seq e \<notin> set (tq_active q'))"
proof -
  let ?E = "expired_of now q" and ?ids = "tk_seq ` set (expired_of now q)"
  have w: "no_wrap q" using assms(4) by (simp add: no_wrap_def)
  obtain r where r: "getExpired now (q\<lparr>tq_armed := None\<rparr>) = Inr (?E, r)"
    "batch_inv ?ids (r\<lparr>tq_calling := True, tq_canceling := []\<rparr>)" "distinct (map tk_seq ?E)" "tq_obj r = tq_obj q"
    "tq_log r = tq_log q" "tq_timers r = filter (\<lambda>k. \<not> tk_time k \<le> now) (tq_timers q)" "tq_created r \<le> tq_created q + 1"
    by (rule handleRead_start [OF assms(1) w assms(2)])
  let ?r = "r\<lparr>tq_calling := True, tq_canceling := []\<rparr>"
  have t: "timer_of ?r i = timer_of q i" for i using r(4) by (simp add: timer_of_def)
  have sz: "tq_created ?r + sum_list (map (\<lambda>e. callback_size ?r (tk_seq e)) ?E) \<le> 2 ^ 31"
    "\<forall>e\<in>set ?E. adds_only ?r (tk_seq e)"
    using assms(3,4) r(7) unfolding adds_only_def callback_size_def t by simp_all
  obtain u where u: "efold run_expired ?E ?r = Inr u" "no_wrap u" "tq_canceling u = []"
    "tq_log u = tq_log ?r @ map tk_seq ?E" "set (tq_timers ?r) \<subseteq> set (tq_timers u)"
    using run_batch_add [OF r(2) order_refl _ sz(2,1)] by auto
  have b: "batch_inv ?ids (u\<lparr>tq_calling := False\<rparr>)" and same: "\<forall>i\<in>?ids. tq_obj u i = tq_obj ?r i"
    using run_batch [OF u(1) r(2) u(2)] by simp_all
  let ?u = "u\<lparr>tq_calling := False\<rparr>"
  have tu: "timer_of ?u i = timer_of q i" if "i \<in> ?ids" for i
    using bspec [OF same that] r(4) by (simp add: timer_of_def)
  have na: "?ids \<inter> set (tq_active ?u) = {}" using b by (simp add: batch_inv_def)
  have h: "tq_handleRead now q = Inr (tq_reset ?E now ?u)" using r(1) u(1) by (simp add: tq_handleRead_def)
  have "tq_inv (tq_reset ?E now ?u)" using tq_reset_armed [OF b r(3) order_refl assms(2)] by simp
  moreover have "tq_log (tq_reset ?E now ?u) = tq_log q @ map tk_seq ?E"
    using reset_fold [OF r(3), of ?u now] u(4) r(5) by (simp add: tq_reset_sel)
  moreover have "\<forall>k\<in>set (tq_timers q). now < tk_time k \<longrightarrow> k \<in> set (tq_timers (tq_reset ?E now ?u))"
    using reset_fold [OF r(3), of ?u now] u(5) r(6) by (simp add: tq_reset_sel subset_iff)
  moreover have "if tm_repeated (timer_of q (tk_seq e))
      then TimerKey (now + tm_interval (timer_of q (tk_seq e))) (tk_seq e) \<in> set (tq_timers (tq_reset ?E now ?u))
      else tk_seq e \<notin> set (tq_active (tq_reset ?E now ?u))" if e: "e \<in> set ?E" for e
  proof -
    have i: "tk_seq e \<in> ?ids" using e by blast
    have "tk_seq e \<notin> set (tq_active ?u)" using na i by (meson disjoint_iff)
    then show ?thesis using reset_fold [OF r(3), of ?u now] u(3) i e tu [OF i]
      unfolding tq_reset_sel by auto
  qed
  ultimately show ?thesis using h by blast
qed

text \<open>A queue with a repeating timer (number 1) and two one-shot timers.\<close>

definition tq_example :: timer_queue where
  "tq_example = \<lparr>tq_created = 4, tq_obj = [1 \<mapsto> mk_timer [] 10 5, 2 \<mapsto> mk_timer [OpAdd 90 0 []] 20 0, 3 \<mapsto> mk_timer [] 30 0],
     tq_timers = [TimerKey 10 1, TimerKey 20 2, TimerKey 30 3], tq_active = [1, 2, 3], tq_calling = False,
     tq_canceling = [], tq_running = [], tq_armed = Some 10, tq_log = []\<rparr>"

lemma tq_example_inv: "tq_inv tq_example"
  by (auto simp: tq_inv_def tq_example_def key_of_def timer_of_def mk_timer_def less_eq_timer_key_def
      less_timer_key_def WillExpiredTimerComparer_def ran_def)

theorem due_timers_served_witness:
  "expired_of 25 tq_example = [TimerKey 10 1, TimerKey 20 2] \<and>
    (\<exists>q'. tq_handleRead 25 tq_example = Inr q' \<and> tq_log q' = [1, 2] \<and> TimerKey 30 1 \<in> set (tq_timers q')
      \<and> 2 \<notin> set (tq_active q'))"
proof -
  have e: "expired_of 25 tq_example = [TimerKey 10 1, TimerKey 20 2]" by (simp add: expired_of_def tq_example_def)
  have t: "timer_of tq_example 1 = mk_timer [] 10 5" "timer_of tq_example 2 = mk_timer [OpAdd 90 0 []] 20 0"
    by (simp_all add: timer_of_def tq_example_def)
  have c: "tq_created tq_example = 4" "tq_log tq_example = []" by (simp_all add: tq_example_def)
  show ?thesis using due_timers_served [OF tq_example_inv, of 25]
    by (auto simp: e t c adds_only_def callback_size_def mk_timer_def)
qed

text \<open>C13. No callback is entered before its deadline, whatever the callbacks of the batch start and
  cancel: the ones entered while the fd is served are, each at most once and in the order of the
  deadlines, among the timers whose deadline had come.\<close>

theorem no_early_callback:
  assumes "tq_reach q" "0 \<le> now" "tq_handleRead now q = Inr q'" "no_wrap q'"
  shows "\<exists>ran. tq_log q' = tq_log q @ ran \<and> subseq ran (map tk_seq (expired_of now q))"
proof -
  have w: "no_wrap q" using assms(4) created_handleRead [OF assms(3)] by (rule no_wrap_mono)
  then have q: "tq_inv q" using tq_reach_inv [OF assms(1)] by simp
  obtain r where r: "getExpired now (q\<lparr>tq_armed := None\<rparr>) = Inr (expired_of now q, r)"
    "distinct (map tk_seq (expired_of now q))" "tq_log r = tq_log q"
    by (rule handleRead_start [OF q w assms(2)]) blast
  then obtain u where u: "efold run_expired (expired_of now q) (r\<lparr>tq_calling := True, tq_canceling := []\<rparr>) = Inr u"
    "q' = tq_reset (expired_of now q) now (u\<lparr>tq_calling := False\<rparr>)"
    using assms(3) by (auto simp: tq_handleRead_def ebind_Inr)
  then have "tq_log q' = tq_log u" using reset_fold [OF r(2), of "u\<lparr>tq_calling := False\<rparr>" now] by (simp add: tq_reset_sel)
  then show ?thesis using run_batch_log [OF u(1)] r(3) by simp
qed

theorem no_early_callback_witness:
  "\<exists>q q' :: timer_queue. tq_handleRead 25 q = Inr q' \<and> tq_log q' \<noteq> []
    \<and> (\<exists>ran. tq_log q' = tq_log q @ ran \<and> subseq ran (map tk_seq (expired_of 25 q)))"
proof -
  let ?q = "addTimer [] 20 0 new_timer_queue"
  have s: "next_sequence new_timer_queue = 1" by (simp add: next_sequence_def new_timer_queue_def)
  have q: "?q = \<lparr>tq_created = 2, tq_obj = [1 \<mapsto> mk_timer [] 20 0], tq_timers = [TimerKey 20 1], tq_active = [1],
      tq_calling = False, tq_canceling = [], tq_running = [], tq_armed = Some 20, tq_log = []\<rparr>"
    unfolding addTimer_def new_timer_def Let_def s
    by (simp add: new_timer_queue_def addTimerInLoop_def tq_insert_def resetTimerFd_def Let_def timer_of_def
        mk_timer_def add_id_def add_key_def numeral_2_eq_2)
  obtain q' where h: "tq_handleRead 25 ?q = Inr q'" "tq_log q' = [1]" "tq_created q' \<le> 3"
    unfolding q
    by (simp add: tq_handleRead_def getExpired_def Let_def less_timer_key_def WillExpiredTimerComparer_def INT64_MAX_def collect_expired_def
        del_id_def run_expired_def timer_of_def mk_timer_def tq_reset_def reset_one_def)
  have "tq_reach ?q" by (intro tq_reach.intros)
  moreover have "no_wrap q'" using h(3) by (simp add: no_wrap_def)
  ultimately show ?thesis using no_early_callback [OF _ _ h(1)] h by (intro exI [of _ ?q] exI [of _ q']) simp
qed


text \<open>Cancelling a timer that is not active while a batch is served.\<close>

lemma cancel_in_batch:
  assumes "tq_obj q i \<noteq> None" "i \<notin> set (tq_active q)" "tq_calling q" "tq_inv q"
  shows "tq_cancel i q = (if i \<in> set (tq_canceling q) then Inl AssertFail
    else if i \<in> set (tq_running q) then Inr (q\<lparr>tq_canceling := add_id i (tq_canceling q)\<rparr>) else Inr q)"
proof -
  have "key_of q i \<notin> set (tq_timers q)" using assms(2,4) inv_keys [OF assms(4), of "key_of q i"] by auto
  with assms(1-3) show ?thesis by (auto simp: tq_cancel_def cancelInLoop_def)
qed

text \<open>A timer that cancels itself from its own callback is not put back, also when it repeats; but
  if the callback cancels it twice, the assertion in \<^verbatim>\<open>cancelInLoop\<close> fails.\<close>

theorem self_cancel:
  assumes "tq_inv q" "no_wrap q" "0 \<le> now" "expired_of now q = [TimerKey t i]"
  shows "(tm_callback (timer_of q i) = [OpCancel i]
        \<longrightarrow> (\<exists>q'. tq_handleRead now q = Inr q' \<and> tq_log q' = tq_log q @ [i] \<and> i \<notin> set (tq_active q')))
    \<and> (tm_callback (timer_of q i) = [OpCancel i, OpCancel i] \<longrightarrow> tq_handleRead now q = Inl AssertFail)"
proof -
  obtain r where r: "getExpired now (q\<lparr>tq_armed := None\<rparr>) = Inr ([TimerKey t i], r)"
    "batch_inv {i} (r\<lparr>tq_calling := True, tq_canceling := []\<rparr>)" "tq_obj r = tq_obj q" "tq_log r = tq_log q"
    "i \<in> set (tq_running r)"
    by (rule handleRead_start [OF assms(1-3)]) (simp add: assms(4))
  have b: "tq_inv (r\<lparr>tq_calling := True, tq_canceling := []\<rparr>)" "tq_obj r i \<noteq> None" "i \<notin> set (tq_active r)"
    using r(2) by (auto simp: batch_inv_def)
  let ?s = "r\<lparr>tq_calling := True, tq_canceling := [], tq_log := tq_log r @ [i]\<rparr>"
  have tm: "timer_of (r\<lparr>tq_calling := True, tq_canceling := []\<rparr>) i = timer_of q i" using r(3) by (simp add: timer_of_def)
  have inv: "tq_inv ?s" "tq_inv (?s\<lparr>tq_canceling := [i]\<rparr>)"
    using b(1) by (simp_all add: tq_inv_def key_of_def timer_of_def)
  have c1: "tq_cancel i ?s = Inr (?s\<lparr>tq_canceling := [i]\<rparr>)"
    using cancel_in_batch [of ?s i] inv(1) b r(5) by (simp add: add_id_def)
  have c2: "tq_cancel i (?s\<lparr>tq_canceling := [i]\<rparr>) = Inl AssertFail"
    using cancel_in_batch [of "?s\<lparr>tq_canceling := [i]\<rparr>" i] inv(2) b r(5) by simp
  have "\<exists>q'. tq_handleRead now q = Inr q' \<and> tq_log q' = tq_log q @ [i] \<and> i \<notin> set (tq_active q')"
    if "tm_callback (timer_of q i) = [OpCancel i]"
    using that r(1,4) c1 b(3) by (simp add: tq_handleRead_def run_expired_def tm tq_reset_def reset_one_def Let_def resetTimerFd_def)
  moreover have "tq_handleRead now q = Inl AssertFail" if "tm_callback (timer_of q i) = [OpCancel i, OpCancel i]"
    using that r(1,4) c1 c2 by (simp add: tq_handleRead_def run_expired_def tm)
  ultimately show ?thesis by blast
qed

definition tq_cancel_example :: "tq_op list \<Rightarrow> tq_op list \<Rightarrow> timer_queue" where
  "tq_cancel_example cb cb' = \<lparr>tq_created = 3, tq_obj = [1 \<mapsto> mk_timer cb 10 5, 2 \<mapsto> mk_timer cb' 20 5],
     tq_timers = [TimerKey 10 1, TimerKey 20 2], tq_active = [1, 2], tq_calling = False,
     tq_canceling = [], tq_running = [], tq_armed = Some 10, tq_log = []\<rparr>"

lemma tq_cancel_example_inv:
  "tq_inv (tq_cancel_example cb cb')" "no_wrap (tq_cancel_example cb cb')"
  "timer_of (tq_cancel_example cb cb') 1 = mk_timer cb 10 5" "timer_of (tq_cancel_example cb cb') 2 = mk_timer cb' 20 5"
  by (auto simp: tq_inv_def no_wrap_def tq_cancel_example_def key_of_def timer_of_def mk_timer_def
      less_eq_timer_key_def less_timer_key_def WillExpiredTimerComparer_def ran_def)

theorem self_cancel_witness:
  "(\<exists>q'. tq_handleRead 10 (tq_cancel_example [OpCancel 1] []) = Inr q' \<and> 1 \<notin> set (tq_active q'))
    \<and> tq_handleRead 10 (tq_cancel_example [OpCancel 1, OpCancel 1] []) = Inl AssertFail"
proof -
  have e: "expired_of 10 (tq_cancel_example cb []) = [TimerKey 10 1]" for cb
    by (simp add: expired_of_def tq_cancel_example_def)
  show ?thesis using self_cancel [OF tq_cancel_example_inv(1,2) _ e]
    by (simp add: tq_cancel_example_inv mk_timer_def) blast
qed

text \<open>A lost cancellation: when a batch holds a repeating timer and, later in it, a timer whose
  callback cancels the first, the cancellation has no effect, because the first has already been taken
  from the running timers; the cancelled timer is put back and stays active.\<close>

theorem cancel_in_same_batch_lost:
  assumes "tq_inv q" "no_wrap q" "0 \<le> now" "expired_of now q = [TimerKey s i, TimerKey t j]"
    and "tm_repeated (timer_of q i)" "tm_callback (timer_of q i) = []" "tm_callback (timer_of q j) = [OpCancel i]"
  shows "\<exists>q'. tq_handleRead now q = Inr q' \<and> i \<in> set (tq_active q')"
proof -
  obtain r where r: "getExpired now (q\<lparr>tq_armed := None\<rparr>) = Inr ([TimerKey s i, TimerKey t j], r)"
    "batch_inv {i, j} (r\<lparr>tq_calling := True, tq_canceling := []\<rparr>)" "tq_obj r = tq_obj q" "i \<noteq> j"
    by (rule handleRead_start [OF assms(1-3)]) (simp add: assms(4))
  have b: "tq_inv (r\<lparr>tq_calling := True, tq_canceling := []\<rparr>)" "tq_obj r i \<noteq> None" "i \<notin> set (tq_active r)"
    using r(2) by (auto simp: batch_inv_def)
  have tm: "timer_of (r\<lparr>tq_calling := x, tq_canceling := y, tq_log := l, tq_running := z\<rparr>) k = timer_of q k"
    "timer_of (r\<lparr>tq_calling := x, tq_canceling := y\<rparr>) k = timer_of q k"
    for x y l z k using r(3) by (simp_all add: timer_of_def)
  let ?s = "r\<lparr>tq_calling := True, tq_canceling := [], tq_log := tq_log r @ [i], tq_running := del_id i (tq_running r)\<rparr>"
  let ?u = "?s\<lparr>tq_log := (tq_log r @ [i]) @ [j]\<rparr>"
  have "tq_inv ?u" using b(1) by (simp add: tq_inv_def key_of_def timer_of_def)
  then have c: "tq_cancel i ?u = Inr ?u" using cancel_in_batch [of ?u i] b by (simp add: del_id_def)
  have s1: "run_expired (TimerKey s i) (r\<lparr>tq_calling := True, tq_canceling := []\<rparr>) = Inr ?s"
    using assms(6) by (simp add: run_expired_def tm)
  have s2: "run_expired (TimerKey t j) ?s = Inr (?u\<lparr>tq_running := del_id j (del_id i (tq_running r))\<rparr>)"
    using assms(7) c by (simp add: run_expired_def tm)
  let ?v = "?u\<lparr>tq_running := del_id j (del_id i (tq_running r)), tq_calling := False\<rparr>"
  have "tq_handleRead now q = Inr (tq_reset [TimerKey s i, TimerKey t j] now ?v)"
    using r(1) s1 s2 by (simp add: tq_handleRead_def)
  moreover have "timer_of ?v i = timer_of q i" using r(3) by (simp add: timer_of_def)
  then have "i \<in> set (tq_active (tq_reset [TimerKey s i, TimerKey t j] now ?v))"
    using reset_fold [of "[TimerKey s i, TimerKey t j]" ?v now] r(4) assms(5) unfolding tq_reset_sel by simp
  ultimately show ?thesis by blast
qed


theorem cancel_in_same_batch_lost_witness:
  "\<exists>q'. tq_handleRead 25 (tq_cancel_example [] [OpCancel 1]) = Inr q' \<and> 1 \<in> set (tq_active q')"
proof -
  have e: "expired_of 25 (tq_cancel_example [] [OpCancel 1]) = [TimerKey 10 1, TimerKey 20 2]"
    by (simp add: expired_of_def tq_cancel_example_def)
  show ?thesis using cancel_in_same_batch_lost [OF tq_cancel_example_inv(1,2) _ e]
    by (simp add: tq_cancel_example_inv mk_timer_def)
qed

end
