(* ===== verification/Pollers.thy ===== *)
theory Pollers
  imports Prelude
begin

unbundle bit_operations_syntax

text \<open>
  Channels and the two pollers: \<^verbatim>\<open>Channel\<close> (include/net/channel.h, src/net/channel.cpp),
  \<^verbatim>\<open>Poller\<close> (src/net/poller.cpp), \<^verbatim>\<open>EpollPoller\<close> (src/net/epoll_poller.cpp) and \<^verbatim>\<open>PollPoller\<close>
  (src/net/poll_poller.cpp). A channel is an address, and a poller state holds the channel objects it
  points to. The system calls are not run: \<^verbatim>\<open>EpollPoller\<close> leaves the list of its \<^verbatim>\<open>epoll_ctl\<close> calls, which
  the specification replays as epoll_ctl(2) documents them; \<^verbatim>\<open>PollPoller\<close> hands its whole array to
  \<^verbatim>\<open>poll\<close>. The interface \<open>poller\<close> is what the event loop relies on, and both pollers provide it.
\<close>

section \<open>Channels\<close>

definition EPOLLIN :: "32 word" where "EPOLLIN = 0x001"
definition EPOLLPRI :: "32 word" where "EPOLLPRI = 0x002"
definition EPOLLOUT :: "32 word" where "EPOLLOUT = 0x004"
definition EPOLLERR :: "32 word" where "EPOLLERR = 0x008"
definition EPOLLHUP :: "32 word" where "EPOLLHUP = 0x010"
definition EPOLLRDNORM :: "32 word" where "EPOLLRDNORM = 0x040"
definition EPOLLWRNORM :: "32 word" where "EPOLLWRNORM = 0x100"

definition kNonEvent :: "32 word" where "kNonEvent = 0"
definition kReadEvent :: "32 word" where "kReadEvent = EPOLLIN OR EPOLLPRI"
definition kWriteEvent :: "32 word" where "kWriteEvent = EPOLLOUT"

lemmas event_bits = EPOLLIN_def EPOLLPRI_def EPOLLOUT_def EPOLLERR_def EPOLLHUP_def EPOLLRDNORM_def
  EPOLLWRNORM_def kNonEvent_def kReadEvent_def kWriteEvent_def

record channel =
  ch_fd :: int
  ch_events :: "32 word"
  ch_revents :: "32 word"
  ch_index :: int
  ch_tied :: bool

definition new_channel :: "int \<Rightarrow> channel" where
  "new_channel fd = \<lparr>ch_fd = fd, ch_events = 0, ch_revents = 0, ch_index = - 1, ch_tied = False\<rparr>"

definition isNonEvent :: "channel \<Rightarrow> bool" where "isNonEvent c \<longleftrightarrow> ch_events c = kNonEvent"
definition isReading :: "channel \<Rightarrow> bool" where "isReading c \<longleftrightarrow> ch_events c AND kReadEvent \<noteq> 0"
definition isWriting :: "channel \<Rightarrow> bool" where "isWriting c \<longleftrightarrow> ch_events c AND kWriteEvent \<noteq> 0"

text \<open>The operations of a channel that change what it listens for; each ends with \<^verbatim>\<open>update()\<close>.\<close>

datatype channel_op = EnableReading | DisableReading | EnableWriting | DisableWriting | DisableAll

fun set_events :: "channel_op \<Rightarrow> 32 word \<Rightarrow> 32 word" where
  "set_events EnableReading ev = ev OR kReadEvent"
| "set_events DisableReading ev = ev AND NOT kReadEvent"
| "set_events EnableWriting ev = ev OR kWriteEvent"
| "set_events DisableWriting ev = ev AND NOT kWriteEvent"
| "set_events DisableAll ev = kNonEvent"

text \<open>The callbacks \<^verbatim>\<open>handleEventWithGuard\<close> invokes, in its order, for the callbacks that are set.\<close>

datatype channel_cb = CloseCb | ErrorCb | ReadCb | WriteCb

definition handleEventWithGuard :: "(channel_cb \<Rightarrow> bool) \<Rightarrow> channel \<Rightarrow> channel_cb list" where
  "handleEventWithGuard is_set c =
     (let revent = ch_revents c in
      (if revent AND EPOLLHUP \<noteq> 0 \<and> revent AND EPOLLIN = 0 \<and> is_set CloseCb then [CloseCb] else [])
      @ (if revent AND EPOLLERR \<noteq> 0 \<and> is_set ErrorCb then [ErrorCb] else [])
      @ (if revent AND (EPOLLIN OR EPOLLRDNORM OR EPOLLPRI) \<noteq> 0 \<and> is_set ReadCb then [ReadCb] else [])
      @ (if revent AND (EPOLLOUT OR EPOLLWRNORM) \<noteq> 0 \<and> is_set WriteCb then [WriteCb] else []))"

text \<open>A tied channel whose owner is gone does nothing.\<close>

definition handleEvent :: "(channel_cb \<Rightarrow> bool) \<Rightarrow> bool \<Rightarrow> channel \<Rightarrow> channel_cb list" where
  "handleEvent is_set owner_alive c =
     (if ch_tied c then (if \<not> owner_alive then [] else handleEventWithGuard is_set c)
      else handleEventWithGuard is_set c)"

type_synonym channels = "nat \<Rightarrow> channel"

definition setIndex :: "int \<Rightarrow> nat \<Rightarrow> channels \<Rightarrow> channels" where
  "setIndex i c cs = cs(c := (cs c)\<lparr>ch_index := i\<rparr>)"

definition setRevents :: "32 word \<Rightarrow> nat \<Rightarrow> channels \<Rightarrow> channels" where
  "setRevents ev c cs = cs(c := (cs c)\<lparr>ch_revents := ev\<rparr>)"

definition setEvents :: "32 word \<Rightarrow> nat \<Rightarrow> channels \<Rightarrow> channels" where
  "setEvents ev c cs = cs(c := (cs c)\<lparr>ch_events := ev\<rparr>)"

definition hasChannel :: "(int \<rightharpoonup> nat) \<Rightarrow> channels \<Rightarrow> nat \<Rightarrow> bool" where
  "hasChannel cmap cs c \<longleftrightarrow> cmap (ch_fd (cs c)) = Some c"

section \<open>The interface of a poller\<close>

text \<open>A poller watches events of channels. \<open>listening\<close> reads the event set of a channel object,
  \<open>known\<close> says whether the poller holds the channel, \<open>watched\<close> which events the system will report
  for it (the low 16 bits, all that \<^verbatim>\<open>poll\<close> knows).\<close>

locale poller =
  fixes inv :: "'p \<Rightarrow> bool"
    and listening :: "'p \<Rightarrow> nat \<Rightarrow> 32 word"
    and known :: "'p \<Rightarrow> nat \<Rightarrow> bool"
    and watched :: "'p \<Rightarrow> nat \<Rightarrow> 16 word"
    and upd :: "channel_op \<Rightarrow> nat \<Rightarrow> 'p \<Rightarrow> cpp_error + 'p"
    and rem :: "nat \<Rightarrow> 'p \<Rightarrow> cpp_error + 'p"
  assumes upd_law: "inv p \<Longrightarrow> \<exists>p'. upd op c p = Inr p' \<and> inv p'
      \<and> listening p' = (listening p)(c := set_events op (listening p c))
      \<and> known p' = (known p)(c := True)
      \<and> watched p' = (watched p)(c := ucast (set_events op (listening p c)))"
    and rem_law: "inv p \<Longrightarrow> known p c \<Longrightarrow> \<exists>p'. rem c p = Inr p' \<and> inv p'
      \<and> listening p' = listening p \<and> known p' = (known p)(c := False) \<and> watched p' = (watched p)(c := 0)"

text \<open>What clients do with a poller.\<close>

datatype poll_op = Update channel_op nat | Remove nat

definition poll_step ::
  "(channel_op \<Rightarrow> nat \<Rightarrow> 'p \<Rightarrow> cpp_error + 'p) \<Rightarrow> (nat \<Rightarrow> 'p \<Rightarrow> cpp_error + 'p) \<Rightarrow> poll_op \<Rightarrow> 'p \<Rightarrow> cpp_error + 'p" where
  "poll_step upd rem op p = (case op of Update o1 c \<Rightarrow> upd o1 c p | Remove c \<Rightarrow> rem c p)"

text \<open>The abstract poller: the event sets of the channels and the channels it holds.\<close>

record abs_poller =
  ap_events :: "nat \<Rightarrow> 32 word"
  ap_known :: "nat \<Rightarrow> bool"

fun abs_step :: "poll_op \<Rightarrow> abs_poller \<Rightarrow> abs_poller" where
  "abs_step (Update op c) a = a\<lparr>ap_events := (ap_events a)(c := set_events op (ap_events a c)),
      ap_known := (ap_known a)(c := True)\<rparr>"
| "abs_step (Remove c) a = a\<lparr>ap_known := (ap_known a)(c := False)\<rparr>"

text \<open>Only channels the poller holds are removed from it.\<close>

fun removes_known :: "poll_op list \<Rightarrow> abs_poller \<Rightarrow> bool" where
  "removes_known [] a \<longleftrightarrow> True"
| "removes_known (op # ops) a \<longleftrightarrow>
     (case op of Update o1 c \<Rightarrow> True | Remove c \<Rightarrow> ap_known a c) \<and> removes_known ops (abs_step op a)"

text \<open>The events watched for a channel: those it listens for while the poller holds it.\<close>

definition ap_watched :: "abs_poller \<Rightarrow> nat \<Rightarrow> 16 word" where
  "ap_watched a c = (if ap_known a c then ucast (ap_events a c) else 0)"

context poller begin

definition refines :: "'p \<Rightarrow> abs_poller \<Rightarrow> bool" where
  "refines p a \<longleftrightarrow> inv p \<and> listening p = ap_events a \<and> known p = ap_known a \<and> watched p = ap_watched a"

lemma refines_step:
  assumes "refines p a" "removes_known [op] a"
  shows "\<exists>p'. poll_step upd rem op p = Inr p' \<and> refines p' (abs_step op a)"
proof (cases op)
  case (Update o1 c)
  then show ?thesis using assms(1) upd_law [of p o1 c]
    by (auto simp: poll_step_def refines_def ap_watched_def fun_eq_iff)
next
  case (Remove c)
  then show ?thesis using assms rem_law [of p c]
    by (auto simp: poll_step_def refines_def ap_watched_def fun_eq_iff)
qed

lemma refines_run:
  assumes "refines p a" "removes_known ops a"
  shows "\<exists>p'. efold (poll_step upd rem) ops p = Inr p' \<and> refines p' (fold abs_step ops a)"
  using assms
proof (induction ops arbitrary: p a)
  case (Cons op ops)
  then obtain q where "poll_step upd rem op p = Inr q" "refines q (abs_step op a)"
    using refines_step [of p a op] by auto
  with Cons show ?case by simp
qed simp

end

text \<open>A poller as its constructor leaves it, over channels with different descriptors that no poller holds.\<close>

definition fresh_channels :: "channels \<Rightarrow> bool" where
  "fresh_channels cs \<longleftrightarrow> inj (\<lambda>c. ch_fd (cs c)) \<and> (\<forall>c. 0 \<le> ch_fd (cs c) \<and> ch_index (cs c) = - 1)"

definition abs_start :: "channels \<Rightarrow> abs_poller" where
  "abs_start cs = \<lparr>ap_events = (\<lambda>c. ch_events (cs c)), ap_known = (\<lambda>c. False)\<rparr>"

locale fresh_poller = poller +
  fixes start :: "channels \<Rightarrow> 'a"
  assumes start_law: "fresh_channels cs \<Longrightarrow> inv (start cs) \<and> listening (start cs) = (\<lambda>c. ch_events (cs c))
      \<and> known (start cs) = (\<lambda>c. False) \<and> watched (start cs) = (\<lambda>c. 0)"

context fresh_poller begin

lemma start_run:
  assumes "fresh_channels cs" "removes_known ops (abs_start cs)"
  shows "\<exists>p. efold (poll_step upd rem) ops (start cs) = Inr p \<and> refines p (fold abs_step ops (abs_start cs))"
proof (rule refines_run)
  show "refines (start cs) (abs_start cs)"
    using start_law [OF assms(1)] by (simp add: refines_def abs_start_def ap_watched_def fun_eq_iff)
qed (fact assms(2))

end

section \<open>\<open>EpollPoller\<close>\<close>

definition kNew :: int where "kNew = - 1"
definition kAdded :: int where "kAdded = 1"
definition kDeleted :: int where "kDeleted = 2"
definition kInitEventNums :: nat where "kInitEventNums = 16"

lemmas poller_states = kNew_def kAdded_def kDeleted_def

datatype ctl_op = CtlAdd | CtlMod | CtlDel

text \<open>A call \<^verbatim>\<open>epoll_ctl(op, fd, events, ptr)\<close>.\<close>

datatype epoll_call = EpollCtl (ec_op: ctl_op) (ec_fd: int) (ec_events: "32 word") (ec_ptr: nat)

record epoll_poller =
  ep_chans :: channels
  ep_map :: "int \<rightharpoonup> nat"
  ep_calls :: "epoll_call list"
  ep_events_size :: nat

definition new_epoll_poller :: "channels \<Rightarrow> epoll_poller" where
  "new_epoll_poller cs = \<lparr>ep_chans = cs, ep_map = Map.empty, ep_calls = [], ep_events_size = kInitEventNums\<rparr>"

definition ep_update :: "ctl_op \<Rightarrow> nat \<Rightarrow> epoll_poller \<Rightarrow> epoll_poller" where
  "ep_update operation c p =
     (let ch = ep_chans p c in p\<lparr>ep_calls := ep_calls p @ [EpollCtl operation (ch_fd ch) (ch_events ch) c]\<rparr>)"

definition ep_updateChannel :: "nat \<Rightarrow> epoll_poller \<Rightarrow> cpp_error + epoll_poller" where
  "ep_updateChannel c p =
     (let status = ch_index (ep_chans p c); fd = ch_fd (ep_chans p c) in
      if status = kNew \<or> status = kDeleted then
        (if status = kNew then
           Inr (ep_update CtlAdd c (p\<lparr>ep_map := (ep_map p)(fd \<mapsto> c), ep_chans := setIndex kAdded c (ep_chans p)\<rparr>))
         else if ep_map p fd = None then Inl AssertFail
         else if ep_map p fd \<noteq> Some c then Inl AssertFail
         else Inr (ep_update CtlAdd c (p\<lparr>ep_chans := setIndex kAdded c (ep_chans p)\<rparr>)))
      else if isNonEvent (ep_chans p c)
      then Inr (ep_update CtlDel c (p\<lparr>ep_chans := setIndex kDeleted c (ep_chans p)\<rparr>))
      else Inr (ep_update CtlMod c p))"

text \<open>A descriptor the poller does not hold makes \<^verbatim>\<open>removeChannel\<close> read through the end iterator.\<close>

definition ep_removeChannel :: "nat \<Rightarrow> epoll_poller \<Rightarrow> cpp_error + epoll_poller" where
  "ep_removeChannel c p =
     (let fd = ch_fd (ep_chans p c); status = ch_index (ep_chans p c) in
      case ep_map p fd of
        None \<Rightarrow> Inl NullDeref
      | Some c' \<Rightarrow>
          if c \<noteq> c' then Inr p
          else
            (let p = p\<lparr>ep_map := (ep_map p)(fd := None)\<rparr>;
                 p = (if status = kAdded then ep_update CtlDel c p else p)
             in Inr (p\<lparr>ep_chans := setIndex kNew c (ep_chans p)\<rparr>)))"

definition ep_setEvents :: "channel_op \<Rightarrow> nat \<Rightarrow> epoll_poller \<Rightarrow> epoll_poller" where
  "ep_setEvents op c p = p\<lparr>ep_chans := setEvents (set_events op (ch_events (ep_chans p c))) c (ep_chans p)\<rparr>"

text \<open>A channel operation: change the event set, then \<^verbatim>\<open>update()\<close> through the event loop.\<close>

definition ep_channel_op :: "channel_op \<Rightarrow> nat \<Rightarrow> epoll_poller \<Rightarrow> cpp_error + epoll_poller" where
  "ep_channel_op op c p = ep_updateChannel c (ep_setEvents op c p)"

text \<open>\<^verbatim>\<open>fillActiveEvent\<close> on the events the system wrote to the array: the reported bits and the
  registered pointer, \<^const>\<open>None\<close> for null.\<close>

fun ep_fillActiveEvent ::
  "(32 word \<times> nat option) list \<Rightarrow> nat list \<Rightarrow> epoll_poller \<Rightarrow> nat list \<times> epoll_poller" where
  "ep_fillActiveEvent [] channelList p = (channelList, p)"
| "ep_fillActiveEvent ((events, ptr) # evs) channelList p =
     (case ptr of
        None \<Rightarrow> ep_fillActiveEvent evs channelList p
      | Some c \<Rightarrow> ep_fillActiveEvent evs (channelList @ [c]) (p\<lparr>ep_chans := setRevents events c (ep_chans p)\<rparr>))"

text \<open>\<^verbatim>\<open>poll\<close> after \<^verbatim>\<open>epoll_wait\<close> returned: \<^const>\<open>None\<close> for an error, else the events it wrote.\<close>

definition ep_poll :: "(32 word \<times> nat option) list option \<Rightarrow> nat list \<Rightarrow> epoll_poller \<Rightarrow> nat list \<times> epoll_poller" where
  "ep_poll ready channelList p =
     (case ready of
        None \<Rightarrow> (channelList, p)
      | Some evs \<Rightarrow>
          if evs = [] then (channelList, p)
          else
            (let (channelList, p) = ep_fillActiveEvent evs channelList p
             in (channelList, if length evs = ep_events_size p then p\<lparr>ep_events_size := length evs * 2\<rparr> else p)))"

subsection \<open>The calls as epoll_ctl(2) documents them\<close>

type_synonym interest_list = "int \<rightharpoonup> 32 word \<times> nat"

text \<open>Adding a registered descriptor fails with \<^verbatim>\<open>EEXIST\<close>, changing or deleting another with \<^verbatim>\<open>ENOENT\<close>; a
  call that fails has no effect.\<close>

definition ctl_ok :: "interest_list \<Rightarrow> epoll_call \<Rightarrow> bool" where
  "ctl_ok m e \<longleftrightarrow> (case ec_op e of CtlAdd \<Rightarrow> m (ec_fd e) = None | CtlMod \<Rightarrow> m (ec_fd e) \<noteq> None | CtlDel \<Rightarrow> m (ec_fd e) \<noteq> None)"

definition ctl_effect :: "epoll_call \<Rightarrow> interest_list \<Rightarrow> interest_list" where
  "ctl_effect e m =
     (if \<not> ctl_ok m e then m
      else m(ec_fd e := (case ec_op e of CtlDel \<Rightarrow> None | _ \<Rightarrow> Some (ec_events e, ec_ptr e))))"

definition interest :: "epoll_call list \<Rightarrow> interest_list" where
  "interest calls = fold ctl_effect calls Map.empty"

fun all_ok :: "interest_list \<Rightarrow> epoll_call list \<Rightarrow> bool" where
  "all_ok m [] \<longleftrightarrow> True"
| "all_ok m (e # es) \<longleftrightarrow> ctl_ok m e \<and> all_ok (ctl_effect e m) es"

lemma all_ok_append: "all_ok m (es @ fs) \<longleftrightarrow> all_ok m es \<and> all_ok (fold ctl_effect es m) fs"
  by (induction es arbitrary: m) auto

lemma interest_snoc: "interest (calls @ [e]) = ctl_effect e (interest calls)"
  by (simp add: interest_def)

lemma all_ok_snoc: "all_ok Map.empty (calls @ [e]) \<longleftrightarrow> all_ok Map.empty calls \<and> ctl_ok (interest calls) e"
  by (simp add: all_ok_append interest_def)

text \<open>Channels have different descriptors; one is in the table exactly unless it is new, and registered with
  its events exactly when it is added.\<close>

definition ep_inv :: "epoll_poller \<Rightarrow> bool" where
  "ep_inv p \<longleftrightarrow> inj (\<lambda>c. ch_fd (ep_chans p c))
     \<and> (\<forall>c. ch_index (ep_chans p c) \<in> {kNew, kAdded, kDeleted})
     \<and> (\<forall>c. ep_map p (ch_fd (ep_chans p c)) = (if ch_index (ep_chans p c) = kNew then None else Some c))
     \<and> all_ok Map.empty (ep_calls p)
     \<and> (\<forall>c. interest (ep_calls p) (ch_fd (ep_chans p c))
          = (if ch_index (ep_chans p c) = kAdded then Some (ch_events (ep_chans p c), c) else None))
     \<and> (\<forall>fd. fd \<notin> range (\<lambda>c. ch_fd (ep_chans p c)) \<longrightarrow> interest (ep_calls p) fd = None \<and> ep_map p fd = None)"

definition ep_listening :: "epoll_poller \<Rightarrow> nat \<Rightarrow> 32 word" where
  "ep_listening p c = ch_events (ep_chans p c)"

definition ep_known :: "epoll_poller \<Rightarrow> nat \<Rightarrow> bool" where
  "ep_known p c = hasChannel (ep_map p) (ep_chans p) c"

definition ep_watched :: "epoll_poller \<Rightarrow> nat \<Rightarrow> 16 word" where
  "ep_watched p c = (case interest (ep_calls p) (ch_fd (ep_chans p c)) of
     Some (ev, c') \<Rightarrow> if c' = c then ucast ev else 0 | None \<Rightarrow> 0)"

lemma ep_watched_eq: "ep_inv p \<Longrightarrow>
    ep_watched p c = (if ch_index (ep_chans p c) = kAdded then ucast (ch_events (ep_chans p c)) else 0)"
  by (simp add: ep_inv_def ep_watched_def)

lemma ep_known_eq: "ep_inv p \<Longrightarrow> ep_known p c \<longleftrightarrow> ch_index (ep_chans p c) \<noteq> kNew"
  by (simp add: ep_inv_def ep_known_def hasChannel_def)

text \<open>A step that replaces one channel object and appends one call keeps the invariant when it does so for
  that channel.\<close>

lemma ep_inv_step:
  assumes p: "ep_inv p" and ch: "ch_fd ch = ch_fd (ep_chans p c)" "ch_index ch \<in> {kNew, kAdded, kDeleted}"
    and map: "ep_map q = (ep_map p)(ch_fd ch := (if ch_index ch = kNew then None else Some c))"
    and chans: "ep_chans q = (ep_chans p)(c := ch)"
    and calls: "all_ok Map.empty (ep_calls q)"
      "interest (ep_calls q) = (interest (ep_calls p))(ch_fd ch := (if ch_index ch = kAdded then Some (ch_events ch, c) else None))"
  shows "ep_inv q"
proof -
  have inj: "inj (\<lambda>d. ch_fd (ep_chans p d))" using p by (simp add: ep_inv_def)
  have fd: "ch_fd (ep_chans q d) = ch_fd (ep_chans p d)" for d using ch(1) chans by simp
  have ne: "ch_fd (ep_chans p d) \<noteq> ch_fd ch" if "d \<noteq> c" for d using inj that ch(1) by (metis injD)
  have "range (\<lambda>d. ch_fd (ep_chans q d)) = range (\<lambda>d. ch_fd (ep_chans p d))" by (simp only: fd)
  moreover have "ch_fd ch \<in> range (\<lambda>d. ch_fd (ep_chans p d))" using ch(1) by simp
  moreover have "ep_map q (ch_fd (ep_chans q d)) = (if ch_index (ep_chans q d) = kNew then None else Some d)
      \<and> ch_index (ep_chans q d) \<in> {kNew, kAdded, kDeleted}
      \<and> interest (ep_calls q) (ch_fd (ep_chans q d))
          = (if ch_index (ep_chans q d) = kAdded then Some (ch_events (ep_chans q d), d) else None)" for d
    using p ch ne [of d] unfolding ep_inv_def map calls chans by (cases "d = c") auto
  ultimately show ?thesis
    unfolding ep_inv_def using p calls(1) inj by (auto simp: fd map calls(2) ep_inv_def)
qed

lemma ep_upd_law:
  assumes p: "ep_inv p"
  shows "\<exists>q. ep_channel_op op c p = Inr q \<and> ep_inv q
      \<and> ep_listening q = (ep_listening p)(c := set_events op (ep_listening p c))
      \<and> ep_known q = (ep_known p)(c := True)
      \<and> ep_watched q = (ep_watched p)(c := ucast (set_events op (ep_listening p c)))"
proof -
  let ?ch = "(ep_chans p c)\<lparr>ch_events := set_events op (ch_events (ep_chans p c))\<rparr>"
  let ?i = "ch_index (ep_chans p c)" and ?fd = "ch_fd (ep_chans p c)"
  have m: "ep_map p ?fd = (if ?i = kNew then None else Some c)" "all_ok Map.empty (ep_calls p)"
    "interest (ep_calls p) ?fd = (if ?i = kAdded then Some (ch_events (ep_chans p c), c) else None)"
    "?i \<in> {kNew, kAdded, kDeleted}"
    using p by (simp_all add: ep_inv_def)
  have "\<exists>q i. ep_channel_op op c p = Inr q \<and> ep_chans q = (ep_chans p)(c := ?ch\<lparr>ch_index := i\<rparr>)
      \<and> i \<in> {kAdded, kDeleted} \<and> (i = kDeleted \<longrightarrow> ch_events ?ch = 0) \<and> ep_map q = (ep_map p)(?fd := Some c) \<and> all_ok Map.empty (ep_calls q)
      \<and> interest (ep_calls q) = (interest (ep_calls p))(?fd := (if i = kAdded then Some (ch_events ?ch, c) else None))"
  proof -
    let ?e = "set_events op (ch_events (ep_chans p c))"
    note defs = ep_channel_op_def ep_setEvents_def setEvents_def ep_updateChannel_def ep_update_def setIndex_def
      isNonEvent_def kNonEvent_def Let_def poller_states
    note ctl = all_ok_snoc interest_snoc ctl_ok_def ctl_effect_def
    let ?q = "\<lambda>i o1. p\<lparr>ep_chans := (ep_chans p)(c := ?ch\<lparr>ch_index := i\<rparr>), ep_map := (ep_map p)(?fd := Some c),
        ep_calls := ep_calls p @ [EpollCtl o1 ?fd ?e c]\<rparr>"
    consider "?i = kNew \<or> ?i = kDeleted" | "?i = kAdded" "?e = 0" | "?i = kAdded" "?e \<noteq> 0" using m(4) by blast
    then show ?thesis
    proof cases
      case 1
      then have "ep_channel_op op c p = Inr (?q kAdded CtlAdd)"
        using m(1) by (auto simp: defs fun_upd_idem)
      then show ?thesis using 1 m(2,3)
        by (intro exI [of _ "?q kAdded CtlAdd"] exI [of _ kAdded]) (auto simp: ctl poller_states)
    next
      case 2
      then have "ep_channel_op op c p = Inr (?q kDeleted CtlDel)" using m(1) by (simp add: defs fun_upd_idem)
      then show ?thesis using 2 m(2,3)
        by (intro exI [of _ "?q kDeleted CtlDel"] exI [of _ kDeleted]) (auto simp: ctl poller_states)
    next
      case 3
      have e: "?ch\<lparr>ch_index := kAdded\<rparr> = ?ch" using 3(1) by (cases "ep_chans p c") simp
      have "ep_channel_op op c p = Inr (p\<lparr>ep_chans := (ep_chans p)(c := ?ch), ep_map := (ep_map p)(?fd := Some c),
          ep_calls := ep_calls p @ [EpollCtl CtlMod ?fd ?e c]\<rparr>)"
        using 3 m(1) by (simp add: defs fun_upd_idem)
      then have "ep_channel_op op c p = Inr (?q kAdded CtlMod)" by (simp only: e)
      then show ?thesis using 3 m(2,3)
        by (intro exI [of _ "?q kAdded CtlMod"] exI [of _ kAdded]) (auto simp: ctl poller_states)
    qed
  qed
  then obtain q i where q: "ep_channel_op op c p = Inr q" "ep_chans q = (ep_chans p)(c := ?ch\<lparr>ch_index := i\<rparr>)"
    "i \<in> {kAdded, kDeleted}" "i = kDeleted \<longrightarrow> ch_events ?ch = 0" "ep_map q = (ep_map p)(?fd := Some c)" "all_ok Map.empty (ep_calls q)"
    "interest (ep_calls q) = (interest (ep_calls p))(?fd := (if i = kAdded then Some (ch_events ?ch, c) else None))"
    by blast
  have inv: "ep_inv q" by (rule ep_inv_step [OF p, of "?ch\<lparr>ch_index := i\<rparr>" c]) (use q(2-7) in \<open>auto simp: poller_states\<close>)
  then show ?thesis using p q
    by (auto simp: fun_eq_iff ep_listening_def ep_known_eq ep_watched_eq poller_states)
qed

lemma ep_rem_law:
  assumes p: "ep_inv p" and k: "ep_known p c"
  shows "\<exists>q. ep_removeChannel c p = Inr q \<and> ep_inv q \<and> ep_listening q = ep_listening p
      \<and> ep_known q = (ep_known p)(c := False) \<and> ep_watched q = (ep_watched p)(c := 0)"
proof -
  let ?ch = "(ep_chans p c)\<lparr>ch_index := kNew\<rparr>"
  let ?i = "ch_index (ep_chans p c)" and ?fd = "ch_fd (ep_chans p c)"
  have i: "?i \<in> {kAdded, kDeleted}" using p k by (auto simp: ep_known_eq ep_inv_def)
  then have m: "ep_map p ?fd = Some c" "all_ok Map.empty (ep_calls p)"
    "interest (ep_calls p) ?fd = (if ?i = kAdded then Some (ch_events (ep_chans p c), c) else None)"
    using p by (auto simp: ep_inv_def poller_states)
  have "\<exists>q. ep_removeChannel c p = Inr q \<and> ep_chans q = (ep_chans p)(c := ?ch)
      \<and> ep_map q = (ep_map p)(?fd := None) \<and> all_ok Map.empty (ep_calls q)
      \<and> interest (ep_calls q) = (interest (ep_calls p))(?fd := None)"
    using m i
    by (auto simp: ep_removeChannel_def ep_update_def setIndex_def Let_def poller_states all_ok_snoc interest_snoc
        ctl_ok_def ctl_effect_def fun_upd_idem)
  then obtain q where q: "ep_removeChannel c p = Inr q" "ep_chans q = (ep_chans p)(c := ?ch)"
      "ep_map q = (ep_map p)(?fd := None)" "all_ok Map.empty (ep_calls q)"
      "interest (ep_calls q) = (interest (ep_calls p))(?fd := None)"
    by blast
  have inv: "ep_inv q" by (rule ep_inv_step [OF p, of ?ch c]) (use q in \<open>auto simp: poller_states\<close>)
  then show ?thesis using p q
    by (auto simp: fun_eq_iff ep_listening_def ep_known_eq ep_watched_eq poller_states)
qed

interpretation ep: poller ep_inv ep_listening ep_known ep_watched ep_channel_op ep_removeChannel
  by unfold_locales (fact ep_upd_law, fact ep_rem_law)


section \<open>\<open>PollPoller\<close>\<close>

record pollfd =
  pf_fd :: int
  pf_events :: "16 word"

record poll_poller =
  pp_chans :: channels
  pp_map :: "int \<rightharpoonup> nat"
  pp_list :: "pollfd list"

definition new_poll_poller :: "channels \<Rightarrow> poll_poller" where
  "new_poll_poller cs = \<lparr>pp_chans = cs, pp_map = Map.empty, pp_list = []\<rparr>"

definition getRealFd :: "int \<Rightarrow> int" where
  "getRealFd pollFd = (if pollFd < 0 then - pollFd - 1 else pollFd)"

definition pp_updateChannel :: "nat \<Rightarrow> poll_poller \<Rightarrow> cpp_error + poll_poller" where
  "pp_updateChannel c p =
     (let ch = pp_chans p c; idx = ch_index ch; fd = ch_fd ch in
      if idx < 0 then
        Inr (p\<lparr>pp_list := pp_list p @ [\<lparr>pf_fd = fd, pf_events = ucast (ch_events ch)\<rparr>],
               pp_chans := setIndex (int (length (pp_list p))) c (pp_chans p), pp_map := (pp_map p)(fd \<mapsto> c)\<rparr>)
      else if nat idx \<ge> length (pp_list p) then Inl OutOfBounds
      else Inr (p\<lparr>pp_list := (pp_list p)[nat idx :=
             \<lparr>pf_fd = (if isNonEvent ch then - fd - 1 else fd), pf_events = ucast (ch_events ch)\<rparr>]\<rparr>))"

definition pp_removeChannel :: "nat \<Rightarrow> poll_poller \<Rightarrow> cpp_error + poll_poller" where
  "pp_removeChannel c p =
     (let fd = ch_fd (pp_chans p c); idx = ch_index (pp_chans p c) in
      if pp_list p = [] then Inl OutOfBounds
      else
        (let exchange_real_fd = getRealFd (pf_fd (last (pp_list p)));
             n = (if pp_map p fd = None then 0 else 1 :: nat);
             p = p\<lparr>pp_chans := setIndex (- 1) c (pp_chans p), pp_map := (pp_map p)(fd := None)\<rparr>
         in if n \<noteq> 1 then Inl AssertFail
            else if \<not> (0 \<le> idx \<and> nat idx < length (pp_list p)) then Inl AssertFail
            else if nat idx = length (pp_list p) - 1 then Inr (p\<lparr>pp_list := butlast (pp_list p)\<rparr>)
            else
              (let p = p\<lparr>pp_list := butlast ((pp_list p)[nat idx := last (pp_list p)])\<rparr>
               in case pp_map p exchange_real_fd of
                    Some s \<Rightarrow> Inr (p\<lparr>pp_chans := setIndex idx s (pp_chans p)\<rparr>)
                  | None \<Rightarrow> Inr p)))"

definition pp_setEvents :: "channel_op \<Rightarrow> nat \<Rightarrow> poll_poller \<Rightarrow> poll_poller" where
  "pp_setEvents op c p = p\<lparr>pp_chans := setEvents (set_events op (ch_events (pp_chans p c))) c (pp_chans p)\<rparr>"

definition pp_channel_op :: "channel_op \<Rightarrow> nat \<Rightarrow> poll_poller \<Rightarrow> cpp_error + poll_poller" where
  "pp_channel_op op c p = pp_updateChannel c (pp_setEvents op c p)"

text \<open>\<^verbatim>\<open>fillActiveEvent\<close> over the entries with the \<^verbatim>\<open>revents\<close> the system stored in each.\<close>

fun pp_fillActiveEvent ::
  "(pollfd \<times> 16 word) list \<Rightarrow> nat list \<Rightarrow> poll_poller \<Rightarrow> nat list \<times> poll_poller" where
  "pp_fillActiveEvent [] channelList p = (channelList, p)"
| "pp_fillActiveEvent ((pf, revents) # es) channelList p =
     (if revents = 0 then pp_fillActiveEvent es channelList p
      else case pp_map p (getRealFd (pf_fd pf)) of
             None \<Rightarrow> pp_fillActiveEvent es channelList p
           | Some c \<Rightarrow> pp_fillActiveEvent es (channelList @ [c])
                        (p\<lparr>pp_chans := setRevents (scast revents) c (pp_chans p)\<rparr>))"

text \<open>\<^verbatim>\<open>poll\<close> after the system call returned \<open>res\<close> and stored \<open>revents\<close>.\<close>

definition pp_poll :: "int \<Rightarrow> 16 word list \<Rightarrow> nat list \<Rightarrow> poll_poller \<Rightarrow> nat list \<times> poll_poller" where
  "pp_poll res revents channelList p =
     (if res < 0 then (channelList, p)
      else if res = 0 then (channelList, p)
      else pp_fillActiveEvent (zip (pp_list p) revents) channelList p)"

text \<open>The entry of a channel, and the invariant: indices point to the entries of their channels, and
  every entry belongs to a channel.\<close>

definition entry_of :: "channel \<Rightarrow> pollfd \<Rightarrow> bool" where
  "entry_of ch e \<longleftrightarrow> getRealFd (pf_fd e) = ch_fd ch \<and> pf_events e = ucast (ch_events ch)
     \<and> (pf_fd e < 0 \<longrightarrow> ch_events ch = 0)"

definition pp_inv :: "poll_poller \<Rightarrow> bool" where
  "pp_inv p \<longleftrightarrow> inj (\<lambda>c. ch_fd (pp_chans p c)) \<and> (\<forall>c. 0 \<le> ch_fd (pp_chans p c))
     \<and> (\<forall>c. pp_map p (ch_fd (pp_chans p c)) = (if ch_index (pp_chans p c) < 0 then None else Some c))
     \<and> (\<forall>fd. fd \<notin> range (\<lambda>c. ch_fd (pp_chans p c)) \<longrightarrow> pp_map p fd = None)
     \<and> (\<forall>c. 0 \<le> ch_index (pp_chans p c) \<longrightarrow> nat (ch_index (pp_chans p c)) < length (pp_list p)
          \<and> entry_of (pp_chans p c) (pp_list p ! nat (ch_index (pp_chans p c))))
     \<and> (\<forall>i<length (pp_list p). \<exists>c. ch_index (pp_chans p c) = int i)"

definition pp_listening :: "poll_poller \<Rightarrow> nat \<Rightarrow> 32 word" where
  "pp_listening p c = ch_events (pp_chans p c)"

definition pp_known :: "poll_poller \<Rightarrow> nat \<Rightarrow> bool" where
  "pp_known p c = hasChannel (pp_map p) (pp_chans p) c"

text \<open>The system ignores entries with a negative descriptor.\<close>

definition pp_watched :: "poll_poller \<Rightarrow> nat \<Rightarrow> 16 word" where
  "pp_watched p c =
     (case filter (\<lambda>e. pf_fd e = ch_fd (pp_chans p c)) (pp_list p) of e # es \<Rightarrow> pf_events e | [] \<Rightarrow> 0)"


lemma pp_entry_owner:
  assumes "pp_inv p" "i < length (pp_list p)"
  obtains c where "ch_index (pp_chans p c) = int i" "entry_of (pp_chans p c) (pp_list p ! i)"
proof -
  from assms obtain c where c: "ch_index (pp_chans p c) = int i" unfolding pp_inv_def by blast
  then have "entry_of (pp_chans p c) (pp_list p ! i)" using assms(1) unfolding pp_inv_def by (metis nat_int of_nat_0_le_iff)
  with c show thesis by (rule that)
qed

lemma pp_index_inj:
  assumes "pp_inv p" "ch_index (pp_chans p c) = ch_index (pp_chans p d)" "0 \<le> ch_index (pp_chans p c)"
  shows "c = d"
proof -
  have "ch_fd (pp_chans p c) = ch_fd (pp_chans p d)"
    using assms unfolding pp_inv_def entry_of_def by metis
  moreover have "inj (\<lambda>c. ch_fd (pp_chans p c))" using assms(1) by (simp add: pp_inv_def)
  ultimately show ?thesis by (simp add: inj_def)
qed

lemma pp_watched_eq:
  assumes p: "pp_inv p"
  shows "pp_watched p c = (if ch_index (pp_chans p c) < 0 then 0 else ucast (ch_events (pp_chans p c)))"
proof -
  let ?F = "filter (\<lambda>e. pf_fd e = ch_fd (pp_chans p c)) (pp_list p)"
  have pos: "0 \<le> ch_fd (pp_chans p d)" for d using p by (simp add: pp_inv_def)
  have inj: "inj (\<lambda>c. ch_fd (pp_chans p c))" using p by (simp add: pp_inv_def)
  have mem: "0 \<le> ch_index (pp_chans p c) \<and> pf_events e = ucast (ch_events (pp_chans p c))" if e: "e \<in> set ?F" for e
  proof -
    from e obtain i where i: "i < length (pp_list p)" "e = pp_list p ! i" by (auto simp: in_set_conv_nth)
    obtain d where d: "ch_index (pp_chans p d) = int i" "entry_of (pp_chans p d) e"
      using pp_entry_owner [OF p i(1)] i(2) by metis
    have "pf_fd e = ch_fd (pp_chans p c)" using e by simp
    then have "ch_fd (pp_chans p d) = ch_fd (pp_chans p c)" using d(2) pos [of c] by (simp add: entry_of_def getRealFd_def)
    then have "d = c" using inj by (simp add: inj_def)
    with d show ?thesis by (simp add: entry_of_def)
  qed
  show ?thesis
  proof (cases ?F)
    case Nil
    have "ucast (ch_events (pp_chans p c)) = (0 :: 16 word)" if "0 \<le> ch_index (pp_chans p c)"
    proof -
      let ?e = "pp_list p ! nat (ch_index (pp_chans p c))"
      have "entry_of (pp_chans p c) ?e" "?e \<in> set (pp_list p)" using p that by (auto simp: pp_inv_def)
      then have "pf_fd ?e \<noteq> ch_fd (pp_chans p c)" using Nil by (auto simp: filter_empty_conv)
      with \<open>entry_of (pp_chans p c) ?e\<close> have "ch_events (pp_chans p c) = 0"
        by (auto simp: entry_of_def getRealFd_def split: if_splits)
      then show ?thesis by simp
    qed
    then show ?thesis using Nil by (simp add: pp_watched_def)
  next
    case (Cons e es)
    then show ?thesis using mem [of e] by (simp add: pp_watched_def)
  qed
qed

lemma pp_known_eq: "pp_inv p \<Longrightarrow> pp_known p c \<longleftrightarrow> 0 \<le> ch_index (pp_chans p c)"
  by (auto simp: pp_inv_def pp_known_def hasChannel_def split: if_splits)

text \<open>What a channel operation does: the entry of the channel is added or replaced.\<close>

lemma pp_upd_shape:
  fixes op c p
  defines "e \<equiv> set_events op (ch_events (pp_chans p c))" and "i \<equiv> ch_index (pp_chans p c)" and "fd \<equiv> ch_fd (pp_chans p c)"
  assumes p: "pp_inv p"
  obtains q where "pp_channel_op op c p = Inr q" "pp_map q = (pp_map p)(fd := Some c)"
    "pp_chans q = (pp_chans p)(c := (pp_chans p c)\<lparr>ch_events := e, ch_index := (if i < 0 then int (length (pp_list p)) else i)\<rparr>)"
    "pp_list q = (if i < 0 then pp_list p @ [\<lparr>pf_fd = fd, pf_events = ucast e\<rparr>]
       else (pp_list p)[nat i := \<lparr>pf_fd = (if e = 0 then - fd - 1 else fd), pf_events = ucast e\<rparr>])"
proof -
  note defs = pp_channel_op_def pp_setEvents_def setEvents_def pp_updateChannel_def setIndex_def Let_def
    isNonEvent_def kNonEvent_def
  show thesis
  proof (cases "i < 0")
    case True
    then have "pp_channel_op op c p = Inr (p\<lparr>pp_list := pp_list p @ [\<lparr>pf_fd = fd, pf_events = ucast e\<rparr>],
        pp_chans := (pp_chans p)(c := (pp_chans p c)\<lparr>ch_events := e, ch_index := int (length (pp_list p))\<rparr>),
        pp_map := (pp_map p)(fd \<mapsto> c)\<rparr>)"
      by (simp add: defs e_def i_def fd_def)
    then show ?thesis by (rule that) (use True in simp_all)
  next
    case False
    then have b: "nat i < length (pp_list p)" and m: "pp_map p fd = Some c"
      using p by (simp_all add: pp_inv_def i_def fd_def)
    have "pp_channel_op op c p = Inr (p\<lparr>pp_chans := (pp_chans p)(c := (pp_chans p c)\<lparr>ch_events := e\<rparr>),
        pp_list := (pp_list p)[nat i := \<lparr>pf_fd = (if e = 0 then - fd - 1 else fd), pf_events = ucast e\<rparr>]\<rparr>)"
      using False b by (simp add: defs e_def i_def fd_def)
    moreover have "(pp_chans p c)\<lparr>ch_events := e, ch_index := i\<rparr> = (pp_chans p c)\<lparr>ch_events := e\<rparr>"
      unfolding i_def by (cases "pp_chans p c") simp
    ultimately have "pp_channel_op op c p = Inr (p\<lparr>pp_chans := (pp_chans p)(c := (pp_chans p c)\<lparr>ch_events := e, ch_index := i\<rparr>),
        pp_list := (pp_list p)[nat i := \<lparr>pf_fd = (if e = 0 then - fd - 1 else fd), pf_events = ucast e\<rparr>]\<rparr>)"
      by (simp only:)
    then show ?thesis by (rule that) (use False m in \<open>simp_all add: fun_upd_idem\<close>)
  qed
qed

lemma pp_upd_inv:
  assumes p: "pp_inv p" and r: "pp_channel_op op c p = Inr q"
  shows "pp_inv q"
proof -
  let ?e = "set_events op (ch_events (pp_chans p c))"
  let ?i = "ch_index (pp_chans p c)" and ?fd = "ch_fd (pp_chans p c)"
  have fd0: "0 \<le> ?fd" using p by (simp add: pp_inv_def)
  have inj: "inj (\<lambda>d. ch_fd (pp_chans p d))" using p by (simp add: pp_inv_def)
  have ne: "ch_fd (pp_chans p d) \<noteq> ?fd" if "d \<noteq> c" for d using inj that by (metis injD)
  define i where "i = (if ?i < 0 then int (length (pp_list p)) else ?i)"
  define e where "e = \<lparr>pf_fd = (if 0 \<le> ?i \<and> ?e = 0 then - ?fd - 1 else ?fd), pf_events = ucast ?e\<rparr>"
  have chans: "pp_chans q = (pp_chans p)(c := (pp_chans p c)\<lparr>ch_events := ?e, ch_index := i\<rparr>)"
    and map: "pp_map q = (pp_map p)(?fd := Some c)"
    and list: "pp_list q = (if ?i < 0 then pp_list p @ [e] else (pp_list p)[nat ?i := e])"
  proof -
    from pp_upd_shape [OF p, of op c] obtain q' where q': "pp_channel_op op c p = Inr q'" "pp_map q' = (pp_map p)(?fd := Some c)"
      "pp_chans q' = (pp_chans p)(c := (pp_chans p c)\<lparr>ch_events := ?e, ch_index := (if ?i < 0 then int (length (pp_list p)) else ?i)\<rparr>)"
      "pp_list q' = (if ?i < 0 then pp_list p @ [\<lparr>pf_fd = ?fd, pf_events = ucast ?e\<rparr>]
       else (pp_list p)[nat ?i := \<lparr>pf_fd = (if ?e = 0 then - ?fd - 1 else ?fd), pf_events = ucast ?e\<rparr>])" .
    then have "q' = q" using r by simp
    then show "pp_chans q = (pp_chans p)(c := (pp_chans p c)\<lparr>ch_events := ?e, ch_index := i\<rparr>)"
      "pp_map q = (pp_map p)(?fd := Some c)" "pp_list q = (if ?i < 0 then pp_list p @ [e] else (pp_list p)[nat ?i := e])"
      using q'(2-4) by (simp_all add: i_def e_def)
  qed
  have i: "0 \<le> i" "nat i < length (pp_list q)" "pp_list q ! nat i = e"
    using p by (auto simp: list i_def pp_inv_def)
  have f: "ch_fd (pp_chans q d) = ch_fd (pp_chans p d)" for d by (simp add: chans)
  have len: "length (pp_list p) \<le> length (pp_list q)" by (simp add: list)
  have ent: "entry_of (pp_chans q c) e" using fd0 by (simp add: entry_of_def chans e_def getRealFd_def)
  have "nat (ch_index (pp_chans q d)) < length (pp_list q)
      \<and> entry_of (pp_chans q d) (pp_list q ! nat (ch_index (pp_chans q d)))" if "0 \<le> ch_index (pp_chans q d)" for d
  proof (cases "d = c")
    case True
    then show ?thesis using i ent by (simp add: chans)
  next
    case False
    then have d: "pp_chans q d = pp_chans p d" by (simp add: chans)
    with that have j: "0 \<le> ch_index (pp_chans p d)" by simp
    then have "nat (ch_index (pp_chans p d)) < length (pp_list p)"
      "entry_of (pp_chans p d) (pp_list p ! nat (ch_index (pp_chans p d)))" using p by (simp_all add: pp_inv_def)
    moreover have "ch_index (pp_chans p d) \<noteq> ?i" using False j pp_index_inj [OF p, of d c] by auto
    ultimately show ?thesis using j by (auto simp: d list nth_append nth_list_update)
  qed
  moreover have "\<exists>d. ch_index (pp_chans q d) = int j" if "j < length (pp_list q)" for j
  proof (cases "int j = i")
    case True
    then show ?thesis by (intro exI [of _ c]) (simp add: chans)
  next
    case False
    then have "j < length (pp_list p)" using that by (auto simp: list i_def split: if_splits)
    then obtain d where d: "ch_index (pp_chans p d) = int j" using p unfolding pp_inv_def by blast
    with False have "d \<noteq> c" by (auto simp: i_def split: if_splits)
    with d show ?thesis by (intro exI [of _ d]) (simp add: chans)
  qed
  moreover have "pp_map q (ch_fd (pp_chans q d)) = (if ch_index (pp_chans q d) < 0 then None else Some d)" for d
    using p i(1) ne [of d] unfolding pp_inv_def by (cases "d = c") (simp_all add: chans map)
  moreover have "pp_map q x = None" if "x \<notin> range (\<lambda>d. ch_fd (pp_chans q d))" for x
    using p that unfolding f pp_inv_def by (auto simp: map)
  ultimately show ?thesis using p unfolding pp_inv_def f by simp
qed


lemma pp_upd_law:
  assumes p: "pp_inv p"
  shows "\<exists>q. pp_channel_op op c p = Inr q \<and> pp_inv q
      \<and> pp_listening q = (pp_listening p)(c := set_events op (pp_listening p c))
      \<and> pp_known q = (pp_known p)(c := True)
      \<and> pp_watched q = (pp_watched p)(c := ucast (set_events op (pp_listening p c)))"
proof -
  from pp_upd_shape [OF p, of op c] obtain q where q: "pp_channel_op op c p = Inr q"
    "pp_chans q = (pp_chans p)(c := (pp_chans p c)\<lparr>ch_events := set_events op (ch_events (pp_chans p c)),
        ch_index := (if ch_index (pp_chans p c) < 0 then int (length (pp_list p)) else ch_index (pp_chans p c))\<rparr>)" .
  have "pp_inv q" by (rule pp_upd_inv [OF p q(1)])
  with p q show ?thesis
    by (intro exI [of _ q]) (auto simp: fun_eq_iff pp_listening_def pp_known_eq pp_watched_eq)
qed

text \<open>Removal: the last entry takes the place of the removed one.\<close>

lemma pp_rem_shape:
  fixes c p
  defines "i \<equiv> ch_index (pp_chans p c)" and "n \<equiv> length (pp_list p)"
  assumes p: "pp_inv p" and i: "0 \<le> i"
  obtains q where "pp_removeChannel c p = Inr q" "pp_map q = (pp_map p)(ch_fd (pp_chans p c) := None)"
    "pp_list q = butlast ((pp_list p)[nat i := last (pp_list p)])"
    "\<forall>d. pp_chans q d = (if d = c then (pp_chans p c)\<lparr>ch_index := - 1\<rparr>
       else if ch_index (pp_chans p d) = int n - 1 then (pp_chans p d)\<lparr>ch_index := i\<rparr> else pp_chans p d)"
proof -
  have b: "nat i < n" "pp_map p (ch_fd (pp_chans p c)) = Some c" using p i by (auto simp: pp_inv_def i_def n_def)
  then have ne: "pp_list p \<noteq> []" by (auto simp: n_def)
  note defs = pp_removeChannel_def setIndex_def Let_def
  show thesis
  proof (cases "nat i = n - 1")
    case True
    let ?q = "p\<lparr>pp_chans := setIndex (- 1) c (pp_chans p), pp_map := (pp_map p)(ch_fd (pp_chans p c) := None),
        pp_list := butlast (pp_list p)\<rparr>"
    have r: "pp_removeChannel c p = Inr ?q" using True b i ne by (simp add: defs i_def n_def)
    have "(pp_list p)[nat i := last (pp_list p)] = pp_list p" using True ne by (simp add: last_conv_nth n_def)
    moreover have "ch_index (pp_chans p d) \<noteq> int n - 1" if "d \<noteq> c" for d
    proof -
      have "i = int n - 1" using True i b(1) by linarith
      then show ?thesis using that i pp_index_inj [OF p, of c d] by (auto simp: i_def)
    qed
    ultimately show ?thesis by (intro that [OF r]) (auto simp: setIndex_def)
  next
    case False
    have "n - 1 < length (pp_list p)" using ne by (simp add: n_def)
    then obtain s where s: "ch_index (pp_chans p s) = int (n - 1)" "entry_of (pp_chans p s) (last (pp_list p))"
      using pp_entry_owner [OF p] ne by (metis last_conv_nth n_def)
    have sc: "s \<noteq> c" using s(1) False i by (auto simp: i_def)
    have "inj (\<lambda>c. ch_fd (pp_chans p c))" using p by (simp add: pp_inv_def)
    then have "ch_fd (pp_chans p s) \<noteq> ch_fd (pp_chans p c)" using sc by (metis injD)
    then have m: "((pp_map p)(ch_fd (pp_chans p c) := None)) (getRealFd (pf_fd (last (pp_list p)))) = Some s"
      using p s by (simp add: pp_inv_def entry_of_def)
    let ?q = "p\<lparr>pp_chans := setIndex i s (setIndex (- 1) c (pp_chans p)), pp_map := (pp_map p)(ch_fd (pp_chans p c) := None),
        pp_list := butlast ((pp_list p)[nat i := last (pp_list p)])\<rparr>"
    have r: "pp_removeChannel c p = Inr ?q" using False b i ne m by (simp add: defs i_def n_def del: fun_upd_apply)
    have "ch_index (pp_chans p d) = int n - 1 \<longleftrightarrow> d = s" for d
      using s(1) pp_index_inj [OF p, of d s] b(1) by (auto simp: of_nat_diff)
    then show ?thesis using sc by (intro that [OF r]) (auto simp: setIndex_def)
  qed
qed

lemma pp_rem_inv:
  assumes p: "pp_inv p" and k: "0 \<le> ch_index (pp_chans p c)" and r: "pp_removeChannel c p = Inr q"
  shows "pp_inv q"
proof -
  let ?i = "ch_index (pp_chans p c)" and ?n = "length (pp_list p)" and ?L = "(pp_list p)[nat (ch_index (pp_chans p c)) := last (pp_list p)]"
  obtain q' where q': "pp_removeChannel c p = Inr q'"
    "pp_map q' = (pp_map p)(ch_fd (pp_chans p c) := None)" "pp_list q' = butlast ?L"
    "\<forall>d. pp_chans q' d = (if d = c then (pp_chans p c)\<lparr>ch_index := - 1\<rparr>
       else if ch_index (pp_chans p d) = int ?n - 1 then (pp_chans p d)\<lparr>ch_index := ?i\<rparr> else pp_chans p d)"
    by (rule pp_rem_shape [OF p k])
  then have "q' = q" using r by simp
  note map = q'(2) [unfolded this] and list = q'(3) [unfolded this] and chans = q'(4) [unfolded this, rule_format]
  have b: "nat ?i < ?n" using p k by (simp add: pp_inv_def)
  then have ne: "pp_list p \<noteq> []" by auto
  have f: "ch_fd (pp_chans q d) = ch_fd (pp_chans p d)" for d by (simp add: chans)
  have inj: "inj (\<lambda>d. ch_fd (pp_chans p d))" using p by (simp add: pp_inv_def)
  have len: "length (pp_list q) = ?n - 1" by (simp add: list)
  have nth: "pp_list q ! j = (if j = nat ?i then last (pp_list p) else pp_list p ! j)" if "j < ?n - 1" for j
    using that b by (simp add: list nth_butlast)
  have "nat (ch_index (pp_chans q d)) < length (pp_list q)
      \<and> entry_of (pp_chans q d) (pp_list q ! nat (ch_index (pp_chans q d)))" if "0 \<le> ch_index (pp_chans q d)" for d
  proof -
    have dc: "d \<noteq> c" using that by (auto simp: chans)
    have "1 \<le> ?n" using ne by (cases "pp_list p") simp_all
    then have j: "0 \<le> ch_index (pp_chans p d)" using that dc k by (auto simp: chans split: if_splits)
    then have old: "nat (ch_index (pp_chans p d)) < ?n" "entry_of (pp_chans p d) (pp_list p ! nat (ch_index (pp_chans p d)))"
      using p by (simp_all add: pp_inv_def)
    have ci: "ch_index (pp_chans p d) \<noteq> ?i" using dc j pp_index_inj [OF p, of d c] by auto
    show ?thesis
    proof (cases "ch_index (pp_chans p d) = int ?n - 1")
      case True
      then have l: "pp_list p ! nat (ch_index (pp_chans p d)) = last (pp_list p)" using ne by (simp add: last_conv_nth nat_diff_distrib')
      have "nat ?i < ?n - 1" using True b ci k by auto
      then show ?thesis using True dc old(2) l nth len by (simp add: chans entry_of_def)
    next
      case False
      then have "nat (ch_index (pp_chans p d)) < ?n - 1" using old(1) j by linarith
      then show ?thesis using False dc old nth len ci j k by (auto simp: chans)
    qed
  qed
  moreover have "\<exists>d. ch_index (pp_chans q d) = int j" if "j < length (pp_list q)" for j
  proof -
    have j: "j < ?n - 1" using that len by simp
    show ?thesis
    proof (cases "int j = ?i")
      case True
      have "?n - 1 < ?n" using ne by simp
      then obtain s where s: "ch_index (pp_chans p s) = int (?n - 1)" using p unfolding pp_inv_def by blast
      then have "s \<noteq> c" using True j by auto
      then have "ch_index (pp_chans q s) = int j" using s True ne by (simp add: chans of_nat_diff Suc_leI)
      then show ?thesis by blast
    next
      case False
      have "j < ?n" using j by simp
      then obtain d where d: "ch_index (pp_chans p d) = int j" using p unfolding pp_inv_def by blast
      then have "d \<noteq> c" using False by auto
      moreover have "int j \<noteq> int ?n - 1" using j by linarith
      ultimately have "ch_index (pp_chans q d) = int j" using d by (simp add: chans)
      then show ?thesis by blast
    qed
  qed
  moreover have "pp_map q (ch_fd (pp_chans q d)) = (if ch_index (pp_chans q d) < 0 then None else Some d)" for d
  proof (cases "d = c")
    case True
    then show ?thesis by (simp add: chans map)
  next
    case False
    then have "ch_fd (pp_chans p d) \<noteq> ch_fd (pp_chans p c)" using inj by (metis injD)
    then show ?thesis using False p k ne by (auto simp: chans map pp_inv_def)
  qed
  moreover have "pp_map q x = None" if "x \<notin> range (\<lambda>d. ch_fd (pp_chans q d))" for x
    using p that unfolding f pp_inv_def by (auto simp: map)
  ultimately show ?thesis using p unfolding pp_inv_def f by simp
qed

lemma pp_rem_law:
  assumes p: "pp_inv p" and k: "pp_known p c"
  shows "\<exists>q. pp_removeChannel c p = Inr q \<and> pp_inv q \<and> pp_listening q = pp_listening p
      \<and> pp_known q = (pp_known p)(c := False) \<and> pp_watched q = (pp_watched p)(c := 0)"
proof -
  have i: "0 \<le> ch_index (pp_chans p c)" using p k by (simp add: pp_known_eq)
  obtain q where q: "pp_removeChannel c p = Inr q" "pp_map q = (pp_map p)(ch_fd (pp_chans p c) := None)"
    "pp_list q = butlast ((pp_list p)[nat (ch_index (pp_chans p c)) := last (pp_list p)])"
    "\<forall>d. pp_chans q d = (if d = c then (pp_chans p c)\<lparr>ch_index := - 1\<rparr>
       else if ch_index (pp_chans p d) = int (length (pp_list p)) - 1 then (pp_chans p d)\<lparr>ch_index := ch_index (pp_chans p c)\<rparr>
       else pp_chans p d)"
    by (rule pp_rem_shape [OF p i])
  have inv: "pp_inv q" by (rule pp_rem_inv [OF p i q(1)])
  have "0 \<le> int (length (pp_list p)) - 1" using p i by (auto simp: pp_inv_def)
  with p q inv i show ?thesis
    by (intro exI [of _ q]) (auto simp: fun_eq_iff pp_listening_def pp_known_eq pp_watched_eq)
qed

interpretation pp: poller pp_inv pp_listening pp_known pp_watched pp_channel_op pp_removeChannel
  by unfold_locales (fact pp_upd_law, fact pp_rem_law)


interpretation ep0: fresh_poller ep_inv ep_listening ep_known ep_watched ep_channel_op ep_removeChannel new_epoll_poller
  by unfold_locales
    (auto simp: fresh_channels_def new_epoll_poller_def ep_inv_def ep_listening_def ep_known_def ep_watched_def
      hasChannel_def interest_def poller_states fun_eq_iff)

interpretation pp0: fresh_poller pp_inv pp_listening pp_known pp_watched pp_channel_op pp_removeChannel new_poll_poller
  by unfold_locales
    (auto simp: fresh_channels_def new_poll_poller_def pp_inv_def pp_listening_def pp_known_def pp_watched_def
      hasChannel_def fun_eq_iff)

section \<open>Replaying the operations of a client\<close>

abbreviation ep_run :: "poll_op list \<Rightarrow> channels \<Rightarrow> cpp_error + epoll_poller" where
  "ep_run ops cs \<equiv> efold (poll_step ep_channel_op ep_removeChannel) ops (new_epoll_poller cs)"

abbreviation pp_run :: "poll_op list \<Rightarrow> channels \<Rightarrow> cpp_error + poll_poller" where
  "pp_run ops cs \<equiv> efold (poll_step pp_channel_op pp_removeChannel) ops (new_poll_poller cs)"

text \<open>A client leaves the list of its operations; the abstract poller tells what any poller makes of it.\<close>

definition no_polls :: abs_poller where
  "no_polls = \<lparr>ap_events = (\<lambda>c. 0), ap_known = (\<lambda>c. False)\<rparr>"

lemma removes_known_append:
  "removes_known (xs @ ys) a \<longleftrightarrow> removes_known xs a \<and> removes_known ys (fold abs_step xs a)"
  by (induction xs arbitrary: a) auto

lemma no_polls_start: "(\<And>c. ch_events (cs c) = 0) \<Longrightarrow> abs_start cs = no_polls"
  by (simp add: abs_start_def no_polls_def)

lemma index_known:
  "ep_inv p \<Longrightarrow> 0 \<le> ch_index (ep_chans p c) \<longleftrightarrow> ep_known p c"
  "pp_inv q \<Longrightarrow> 0 \<le> ch_index (pp_chans q c) \<longleftrightarrow> pp_known q c"
  by (force simp: ep_inv_def ep_known_def hasChannel_def poller_states) (auto simp: pp_inv_def pp_known_def hasChannel_def)

lemma replay:
  assumes "fresh_channels cs" "\<And>c. ch_events (cs c) = 0" "removes_known ops no_polls"
  shows "\<exists>p q. ep_run ops cs = Inr p \<and> pp_run ops cs = Inr q \<and> ep_inv p \<and> pp_inv q
    \<and> ep_known p = ap_known (fold abs_step ops no_polls) \<and> pp_known q = ap_known (fold abs_step ops no_polls)
    \<and> ep_watched p = ap_watched (fold abs_step ops no_polls) \<and> pp_watched q = ap_watched (fold abs_step ops no_polls)"
proof -
  note start = no_polls_start [OF assms(2)]
  obtain p q where "ep_run ops cs = Inr p" "ep.refines p (fold abs_step ops no_polls)"
      "pp_run ops cs = Inr q" "pp.refines q (fold abs_step ops no_polls)"
    using ep0.start_run [OF assms(1), of ops] pp0.start_run [OF assms(1), of ops] assms(3) unfolding start by blast
  then show ?thesis by (auto simp: ep.refines_def pp.refines_def fun_eq_iff)
qed

section \<open>Properties\<close>


definition test_channels :: channels where
  "test_channels c = new_channel (int c)"

lemma test_channels_fresh: "fresh_channels test_channels"
  by (simp add: fresh_channels_def test_channels_def new_channel_def inj_def)

definition test_ops :: "poll_op list" where
  "test_ops = [Update EnableReading 3, Update EnableReading 4, Update EnableWriting 4, Update DisableAll 3, Remove 3,
     Update DisableWriting 4]"

lemma test_ops_known: "removes_known test_ops (abs_start test_channels)"
  by (simp add: test_ops_def abs_start_def)


text \<open>Every \<^verbatim>\<open>epoll_ctl\<close> call \<^verbatim>\<open>EpollPoller\<close> makes, in any such sequence, is one the system accepts: no
  descriptor is added twice, none is changed or deleted that is not registered. Afterwards exactly the
  channels in state \<^verbatim>\<open>kAdded\<close> are registered, each with its own event set and pointer.\<close>

theorem epoll_calls_accepted:
  assumes "fresh_channels cs" "removes_known ops (abs_start cs)"
  shows "\<exists>p. ep_run ops cs = Inr p \<and> all_ok Map.empty (ep_calls p)
    \<and> (\<forall>fd ev c. interest (ep_calls p) fd = Some (ev, c)
        \<longleftrightarrow> ch_fd (ep_chans p c) = fd \<and> ch_index (ep_chans p c) = kAdded \<and> ev = ch_events (ep_chans p c))"
proof -
  obtain p where p: "ep_run ops cs = Inr p" "ep.refines p (fold abs_step ops (abs_start cs))"
    using ep0.start_run [OF assms] by blast
  then have inv: "ep_inv p" by (simp add: ep.refines_def)
  have "interest (ep_calls p) fd = Some (ev, c)
      \<longleftrightarrow> ch_fd (ep_chans p c) = fd \<and> ch_index (ep_chans p c) = kAdded \<and> ev = ch_events (ep_chans p c)" for fd ev c
  proof (cases "fd \<in> range (\<lambda>c. ch_fd (ep_chans p c))")
    case True
    then obtain d where d: "fd = ch_fd (ep_chans p d)" by blast
    then have "ch_fd (ep_chans p c) = fd \<longleftrightarrow> c = d" using inv by (auto simp: ep_inv_def inj_def)
    then show ?thesis using inv d by (auto simp: ep_inv_def)
  next
    case False
    then have "interest (ep_calls p) fd = None" using inv by (simp add: ep_inv_def)
    then show ?thesis using False by auto
  qed
  then show ?thesis using p(1) inv by (auto simp: ep_inv_def)
qed

theorem epoll_calls_accepted_witness:
  "\<exists>p. ep_run test_ops test_channels = Inr p \<and> all_ok Map.empty (ep_calls p)"
  using epoll_calls_accepted [OF test_channels_fresh test_ops_known] by blast


text \<open>Filling the active list, when the entries belong to the channels \<open>cs\<close>.\<close>

lemma pp_fill_owners:
  assumes "length cs = length es" "distinct cs"
    and "\<forall>i<length es. pp_map p (getRealFd (pf_fd (fst (es ! i)))) = Some (cs ! i)"
  shows "\<exists>q. pp_fillActiveEvent es L p = (L @ map fst (filter (\<lambda>(c, e). snd e \<noteq> 0) (zip cs es)), q)
    \<and> pp_map q = pp_map p
    \<and> (\<forall>i<length es. snd (es ! i) \<noteq> 0 \<longrightarrow> pp_chans q (cs ! i) = (pp_chans p (cs ! i))\<lparr>ch_revents := scast (snd (es ! i))\<rparr>)
    \<and> (\<forall>c. (\<forall>i<length es. snd (es ! i) \<noteq> 0 \<longrightarrow> cs ! i \<noteq> c) \<longrightarrow> pp_chans q c = pp_chans p c)"
  using assms
proof (induction es arbitrary: cs L p)
  case (Cons e es)
  then obtain c ds where cs: "cs = c # ds" by (cases cs) auto
  obtain pf r where e: "e = (pf, r)" by (cases e)
  have m: "pp_map p (getRealFd (pf_fd pf)) = Some c" using Cons.prems(3) [rule_format, of 0] by (simp add: cs e)
  have rest: "\<forall>i<length es. pp_map p (getRealFd (pf_fd (fst (es ! i)))) = Some (ds ! i)"
    using Cons.prems(3) by (force simp: cs)
  have d: "length ds = length es" "distinct ds" "c \<notin> set ds" using Cons.prems(1,2) by (simp_all add: cs)
  then have nth: "\<forall>i<length es. ds ! i \<noteq> c" by (metis nth_mem)
  let ?p = "if r = 0 then p else p\<lparr>pp_chans := setRevents (scast r) c (pp_chans p)\<rparr>"
  let ?L = "if r = 0 then L else L @ [c]"
  have "\<forall>i<length es. pp_map ?p (getRealFd (pf_fd (fst (es ! i)))) = Some (ds ! i)" using rest by simp
  from Cons.IH [OF d(1,2) this, of ?L] obtain q where
    q: "pp_fillActiveEvent es ?L ?p = (?L @ map fst (filter (\<lambda>(c, e). snd e \<noteq> 0) (zip ds es)), q)"
      "pp_map q = pp_map ?p"
    and old: "\<forall>i<length es. snd (es ! i) \<noteq> 0 \<longrightarrow> pp_chans q (ds ! i) = (pp_chans ?p (ds ! i))\<lparr>ch_revents := scast (snd (es ! i))\<rparr>"
      "\<forall>x. (\<forall>i<length es. snd (es ! i) \<noteq> 0 \<longrightarrow> ds ! i \<noteq> x) \<longrightarrow> pp_chans q x = pp_chans ?p x"
    by blast
  have fill: "pp_fillActiveEvent (e # es) L p = pp_fillActiveEvent es ?L ?p" using m by (simp add: e)
  have "pp_chans q c = pp_chans ?p c" using old(2) nth by blast
  then have c: "r \<noteq> 0 \<Longrightarrow> pp_chans q c = (pp_chans p c)\<lparr>ch_revents := scast r\<rparr>" by (simp add: setRevents_def)
  have "pp_chans q ((c # ds) ! i) = (pp_chans p ((c # ds) ! i))\<lparr>ch_revents := scast (snd ((e # es) ! i))\<rparr>"
    if "i < length (e # es)" "snd ((e # es) ! i) \<noteq> 0" for i
    using that c old(1) nth by (cases i) (auto simp: e setRevents_def)
  moreover have "pp_chans q x = pp_chans p x"
    if x: "\<forall>i<length (e # es). snd ((e # es) ! i) \<noteq> 0 \<longrightarrow> (c # ds) ! i \<noteq> x" for x
  proof -
    have "r \<noteq> 0 \<Longrightarrow> x \<noteq> c" using x [rule_format, of 0] by (auto simp: e)
    moreover have "\<forall>i<length es. snd (es ! i) \<noteq> 0 \<longrightarrow> ds ! i \<noteq> x" using x by force
    ultimately show ?thesis using old(2) by (auto simp: setRevents_def)
  qed
  ultimately show ?case unfolding cs using fill q by (intro exI [of _ q]) (auto simp: e)
qed simp

lemma pp_owners:
  assumes p: "pp_inv p"
  obtains cs where "length cs = length (pp_list p)" "distinct cs"
    "\<forall>i<length (pp_list p). pp_map p (getRealFd (pf_fd (pp_list p ! i))) = Some (cs ! i)"
    "\<forall>i<length (pp_list p). ch_index (pp_chans p (cs ! i)) = int i"
proof -
  let ?n = "length (pp_list p)"
  have "\<forall>i. i < ?n \<longrightarrow> (\<exists>c. ch_index (pp_chans p c) = int i \<and> entry_of (pp_chans p c) (pp_list p ! i))"
    using pp_entry_owner [OF p] by metis
  then obtain f where f: "\<And>i. i < ?n \<Longrightarrow> ch_index (pp_chans p (f i)) = int i \<and> entry_of (pp_chans p (f i)) (pp_list p ! i)"
    by metis
  let ?cs = "map f [0..<?n]"
  have "inj_on f {..<?n}" by (intro inj_onI) (metis f lessThan_iff of_nat_eq_iff)
  then have "distinct ?cs" by (simp add: distinct_map atLeast0LessThan)
  moreover have "pp_map p (getRealFd (pf_fd (pp_list p ! i))) = Some (f i)" if "i < ?n" for i
    using f [OF that] p by (simp add: entry_of_def pp_inv_def)
  ultimately show thesis using f by (intro that [of ?cs]) simp_all
qed

lemma sorted_filter_zip:
  "length cs = length es \<Longrightarrow> sorted (map f cs) \<Longrightarrow> sorted (map f (map fst (filter P (zip cs es))))"
proof (induction cs es rule: list_induct2)
  case (Cons c cs e es)
  then show ?case by (auto dest!: set_zip_leftD)
qed simp

lemma set_filter_zip:
  "length cs = length es \<Longrightarrow> set (map fst (filter (\<lambda>(c, e). P e) (zip cs es))) = {cs ! i |i. i < length es \<and> P (es ! i)}"
  by (auto simp: set_zip image_iff) force

text \<open>When \<^verbatim>\<open>poll\<close> reports events, the active list holds, each once and in the order of the array,
  exactly the channels whose entry the system reported something for; each gets its own reported
  events and no other channel object is touched.\<close>

theorem poll_reports_exactly:
  assumes "pp_inv p" "length revents = length (pp_list p)" "0 < res"
  shows "\<exists>L q. pp_poll res revents [] p = (L, q) \<and> distinct L \<and> sorted (map (\<lambda>c. ch_index (pp_chans p c)) L)
    \<and> set L = {c. pp_known p c \<and> revents ! nat (ch_index (pp_chans p c)) \<noteq> 0}
    \<and> (\<forall>c. pp_chans q c = (if c \<in> set L
          then (pp_chans p c)\<lparr>ch_revents := scast (revents ! nat (ch_index (pp_chans p c)))\<rparr> else pp_chans p c))"
proof -
  let ?es = "zip (pp_list p) revents" and ?idx = "\<lambda>c. ch_index (pp_chans p c)"
  have n: "length ?es = length revents" "length ?es = length (pp_list p)" using assms(2) by simp_all
  obtain cs where own: "length cs = length (pp_list p)" "distinct cs"
    "\<forall>i<length (pp_list p). pp_map p (getRealFd (pf_fd (pp_list p ! i))) = Some (cs ! i)"
    "\<forall>i<length (pp_list p). ?idx (cs ! i) = int i"
    by (rule pp_owners [OF assms(1)])
  have cs: "length cs = length ?es" "distinct cs"
    "\<forall>i<length ?es. pp_map p (getRealFd (pf_fd (fst (?es ! i)))) = Some (cs ! i)"
    "\<forall>i<length ?es. ?idx (cs ! i) = int i"
    using own n by simp_all
  let ?L = "map fst (filter (\<lambda>(c, e). snd e \<noteq> 0) (zip cs ?es))"
  from pp_fill_owners [OF cs(1-3), of "[]"] obtain q where q: "pp_fillActiveEvent ?es [] p = (?L, q)"
      "\<forall>i<length ?es. snd (?es ! i) \<noteq> 0 \<longrightarrow> pp_chans q (cs ! i) = (pp_chans p (cs ! i))\<lparr>ch_revents := scast (snd (?es ! i))\<rparr>"
      "\<forall>c. (\<forall>i<length ?es. snd (?es ! i) \<noteq> 0 \<longrightarrow> cs ! i \<noteq> c) \<longrightarrow> pp_chans q c = pp_chans p c"
    by auto
  have known: "pp_known p c \<longleftrightarrow> (\<exists>i<length ?es. c = cs ! i)" for c
  proof
    assume "pp_known p c"
    then have c: "0 \<le> ?idx c" "nat (?idx c) < length ?es"
      using assms(1,2) by (auto simp: pp_known_eq pp_inv_def)
    then have "?idx (cs ! nat (?idx c)) = ?idx c" using cs(4) by simp
    then show "\<exists>i<length ?es. c = cs ! i" using c pp_index_inj [OF assms(1)] by metis
  qed (use cs(4) assms(1) in \<open>auto simp: pp_known_eq\<close>)
  have set: "set ?L = {cs ! i |i. i < length ?es \<and> snd (?es ! i) \<noteq> 0}"
    using set_filter_zip [OF cs(1), of "\<lambda>e. snd e \<noteq> 0"] by simp
  have L: "set ?L = {c. pp_known p c \<and> revents ! nat (?idx c) \<noteq> 0}"
    unfolding set using cs(4) n by (auto simp: known)
  have "distinct ?L" using cs(1,2) by (simp add: distinct_map_filter [OF _] map_fst_zip)
  moreover have "sorted (map ?idx ?L)"
    by (rule sorted_filter_zip [OF cs(1)]) (use cs(1,4) in \<open>auto simp: sorted_iff_nth_mono\<close>)
  moreover have "pp_chans q c = (if c \<in> set ?L
      then (pp_chans p c)\<lparr>ch_revents := scast (revents ! nat (?idx c))\<rparr> else pp_chans p c)" for c
  proof (cases "c \<in> set ?L")
    case True
    then obtain i where i: "c = cs ! i" "i < length ?es" "snd (?es ! i) \<noteq> 0" unfolding set by blast
    then show ?thesis using True q(2) cs(4) n by simp
  next
    case False
    then have "\<forall>i<length ?es. snd (?es ! i) \<noteq> 0 \<longrightarrow> cs ! i \<noteq> c" unfolding set by blast
    then show ?thesis using False q(3) by simp
  qed
  ultimately show ?thesis using q(1) L assms(3) unfolding pp_poll_def by auto
qed


definition test_poll :: poll_poller where
  "test_poll = \<lparr>pp_chans = test_channels(3 := (new_channel 3)\<lparr>ch_events := 3, ch_index := 0\<rparr>,
       5 := (new_channel 5)\<lparr>ch_events := 3, ch_index := 1\<rparr>),
     pp_map = [3 \<mapsto> 3, 5 \<mapsto> 5], pp_list = [\<lparr>pf_fd = 3, pf_events = 3\<rparr>, \<lparr>pf_fd = 5, pf_events = 3\<rparr>]\<rparr>"

lemma test_poll_inv: "pp_inv test_poll"
proof -
  have fd: "ch_fd (pp_chans test_poll c) = int c" for c
    by (simp add: test_poll_def test_channels_def new_channel_def)
  have idx: "ch_index (pp_chans test_poll c) = (if c = 3 then 0 else if c = 5 then 1 else - 1)" for c
    by (simp add: test_poll_def test_channels_def new_channel_def)
  have map: "pp_map test_poll = [3 \<mapsto> 3, 5 \<mapsto> 5]" by (simp add: test_poll_def)
  have ent: "0 \<le> ch_index (pp_chans test_poll c) \<longrightarrow> nat (ch_index (pp_chans test_poll c)) < length (pp_list test_poll)
      \<and> entry_of (pp_chans test_poll c) (pp_list test_poll ! nat (ch_index (pp_chans test_poll c)))" for c
    by (simp add: test_poll_def entry_of_def getRealFd_def test_channels_def new_channel_def)
  have own: "\<exists>c. ch_index (pp_chans test_poll c) = int i" if "i < length (pp_list test_poll)" for i
    using that idx [of 3] idx [of 5] by (cases i) (auto simp: test_poll_def intro: exI [of _ "3::nat"] exI [of _ "5::nat"])
  have none: "fd' \<noteq> 3 \<and> fd' \<noteq> 5" if "fd' \<notin> range int" for fd' using that by (metis of_nat_numeral rangeI)
  show ?thesis unfolding pp_inv_def using ent own none by (auto simp: fd idx map inj_def)
qed

theorem poll_reports_exactly_witness:
  "\<exists>L q. pp_poll 1 [0, 1] [] test_poll = (L, q) \<and> distinct L
    \<and> set L = {c. pp_known test_poll c \<and> [0 :: 16 word, 1] ! nat (ch_index (pp_chans test_poll c)) \<noteq> 0}"
proof -
  have "length [0 :: 16 word, 1] = length (pp_list test_poll)" by (simp add: test_poll_def)
  from poll_reports_exactly [OF test_poll_inv this, of 1] show ?thesis by auto
qed

text \<open>A descriptor the poller does not hold.\<close>

lemma ep_remove_unknown: "ep_map p (ch_fd (ep_chans p c)) = None \<Longrightarrow> ep_removeChannel c p = Inl NullDeref"
  by (simp add: ep_removeChannel_def)

text \<open>A stale channel whose descriptor a newer channel has taken over: removing it is harmless, the
  poller does not change. But switching its events off first, as a connection that is torn down does,
  deletes the registration of the newer channel, which the poller goes on holding as added: the system
  no longer reports anything for it.\<close>

theorem stale_channel:
  assumes "ep_map p (ch_fd (ep_chans p a)) = Some b" "a \<noteq> b" "ch_fd (ep_chans p b) = ch_fd (ep_chans p a)"
    and "ch_index (ep_chans p a) = kAdded" "ch_index (ep_chans p b) = kAdded"
  shows "ep_removeChannel a p = Inr p
    \<and> (\<exists>q. ep_channel_op DisableAll a p = Inr q \<and> ep_known q b \<and> ch_index (ep_chans q b) = kAdded \<and> ep_watched q b = 0)"
proof -
  have "ep_removeChannel a p = Inr p" using assms(1,2) by (simp add: ep_removeChannel_def)
  moreover have "interest (ep_calls p @ [EpollCtl CtlDel (ch_fd (ep_chans p a)) 0 a]) (ch_fd (ep_chans p a)) = None"
    by (cases "interest (ep_calls p) (ch_fd (ep_chans p a))") (simp_all add: interest_snoc ctl_effect_def ctl_ok_def)
  ultimately show ?thesis using assms
    by (simp add: ep_channel_op_def ep_setEvents_def setEvents_def ep_updateChannel_def ep_update_def setIndex_def
        Let_def isNonEvent_def kNonEvent_def poller_states ep_known_def hasChannel_def ep_watched_def)
qed

theorem stale_channel_witness:
  "\<exists>p q. ep_run [Update EnableReading 1, Update EnableReading 2] (\<lambda>c. new_channel 7) = Inr p
    \<and> ep_removeChannel 1 p = Inr p
    \<and> ep_channel_op DisableAll 1 p = Inr q \<and> ep_known q 2 \<and> ep_watched q 2 = 0"
proof -
  obtain p where p: "ep_run [Update EnableReading 1, Update EnableReading 2] (\<lambda>c. new_channel 7) = Inr p"
    "ep_map p 7 = Some 2" "\<And>c. ch_fd (ep_chans p c) = 7" "ch_index (ep_chans p 1) = kAdded" "ch_index (ep_chans p 2) = kAdded"
    "ep_calls p = [EpollCtl CtlAdd 7 3 1, EpollCtl CtlAdd 7 3 2]"
    by (simp add: poll_step_def ep_channel_op_def ep_setEvents_def setEvents_def ep_updateChannel_def ep_update_def
        setIndex_def Let_def poller_states new_epoll_poller_def new_channel_def event_bits)
  have "ep_removeChannel 1 p = Inr p
      \<and> (\<exists>q. ep_channel_op DisableAll 1 p = Inr q \<and> ep_known q 2 \<and> ch_index (ep_chans q 2) = kAdded \<and> ep_watched q 2 = 0)"
    by (rule stale_channel) (use p in simp_all)
  then show ?thesis using p(1) by blast
qed

end
