(* ===== verification/TcpConn.thy ===== *)
theory TcpConn
  imports ByteBuffer Pollers
begin

text \<open>
  \<^verbatim>\<open>TcpConnection\<close> (include/net/tcp_connection.h, src/net/tcp_connection.cpp) over the input and output
  buffer of ByteBuffer and the channel operations of Pollers. The answers of the system to \<^verbatim>\<open>readv\<close>
  and \<^verbatim>\<open>write\<close> are arguments; functions the connection queues into its loop wait in a queue. The user's
  callbacks are notifications in a log; what they do to the connection (\<^verbatim>\<open>send\<close>, \<^verbatim>\<open>shutdown\<close>) are steps
  of their own, which is exact because each callback is the last thing its handler does that reads or
  writes the state \<^verbatim>\<open>send\<close> and \<^verbatim>\<open>shutdown\<close> depend on.
\<close>

section \<open>State\<close>

datatype conn_state = kDisconnected | kConnecting | kConnected | kDisconnecting

text \<open>Functions queued into the loop, and the notifications of the user and the server.\<close>

datatype conn_task = QSend bytes | QShutdown | QWriteComplete
datatype conn_note = NConnection conn_state | NMessage | NWriteComplete | NClose

record tcp_conn =
  tc_id :: nat                   \<comment> \<open>the channel\<close>
  tc_state :: conn_state
  tc_channel :: channel
  tc_input :: byte_buffer
  tc_output :: byte_buffer
  tc_has_wcb :: bool             \<comment> \<open>a write-complete callback is set\<close>
  tc_queue :: "conn_task list"
  tc_polls :: "poll_op list"     \<comment> \<open>what the connection asked of the poller\<close>
  tc_removed :: bool             \<comment> \<open>the channel has been removed from the poller\<close>
  tc_wire :: bytes               \<comment> \<open>bytes the system took\<close>
  tc_fin :: bool                 \<comment> \<open>the writing side is shut down\<close>
  tc_log :: "conn_note list"
  tc_accepted :: bytes           \<comment> \<open>history: the bytes \<open>sendInLoop\<close> took on\<close>
  tc_closed :: bool              \<comment> \<open>history: all events have been switched off\<close>

definition new_conn :: "nat \<Rightarrow> int \<Rightarrow> bool \<Rightarrow> tcp_conn" where
  "new_conn i fd wcb = \<lparr>tc_id = i, tc_state = kConnecting, tc_channel = new_channel fd, tc_input = mk_buffer kInitSize,
     tc_output = mk_buffer kInitSize, tc_has_wcb = wcb, tc_queue = [], tc_polls = [], tc_removed = False, tc_wire = [],
     tc_fin = False, tc_log = [], tc_accepted = [], tc_closed = False\<rparr>"

section \<open>Operations\<close>

definition tc_channel_op :: "channel_op \<Rightarrow> tcp_conn \<Rightarrow> tcp_conn" where
  "tc_channel_op op c = c\<lparr>tc_channel := (tc_channel c)\<lparr>ch_events := set_events op (ch_events (tc_channel c))\<rparr>,
     tc_polls := tc_polls c @ [Update op (tc_id c)]\<rparr>"

definition notify :: "conn_note \<Rightarrow> tcp_conn \<Rightarrow> tcp_conn" where
  "notify n c = c\<lparr>tc_log := tc_log c @ [n]\<rparr>"

definition tc_queueInLoop :: "conn_task \<Rightarrow> tcp_conn \<Rightarrow> tcp_conn" where
  "tc_queueInLoop t c = c\<lparr>tc_queue := tc_queue c @ [t]\<rparr>"

definition tc_isWriting :: "tcp_conn \<Rightarrow> bool" where
  "tc_isWriting c \<longleftrightarrow> isWriting (tc_channel c)"

definition shutdownInLoop :: "tcp_conn \<Rightarrow> tcp_conn" where
  "shutdownInLoop c =
     (let c = c\<lparr>tc_state := kDisconnecting\<rparr> in if \<not> tc_isWriting c then c\<lparr>tc_fin := True\<rparr> else c)"


text \<open>What the socket did not take goes to the output buffer, and write events are switched on.\<close>

definition keep_rest :: "bytes \<Rightarrow> tcp_conn \<Rightarrow> tcp_conn" where
  "keep_rest rest c =
     (if rest = [] then c
      else
        (let c = c\<lparr>tc_output := buf_append rest (ensureWritableBytes (length rest) (tc_output c))\<rparr>
         in if \<not> tc_isWriting c then tc_channel_op EnableWriting c else c))"

definition sendInLoop :: "write_result \<Rightarrow> bytes \<Rightarrow> tcp_conn \<Rightarrow> tcp_conn" where
  "sendInLoop w message c =
     (if tc_state c \<noteq> kConnected then c
      else if \<not> tc_isWriting c \<and> readableBytes (tc_output c) = 0 then
        (case w of
           WriteErr e \<Rightarrow>
             if e \<noteq> EAGAIN \<and> e \<noteq> EWOULDBLOCK then c
             else keep_rest message (c\<lparr>tc_accepted := tc_accepted c @ message\<rparr>)
         | WriteOk n \<Rightarrow>
             (let c = c\<lparr>tc_wire := tc_wire c @ take n message, tc_accepted := tc_accepted c @ message\<rparr>;
                  remain = length message - n
              in if remain = 0 \<and> tc_has_wcb c then tc_queueInLoop QWriteComplete c
                 else keep_rest (drop n message) c))
      else keep_rest message (c\<lparr>tc_accepted := tc_accepted c @ message\<rparr>))"

definition tc_send :: "bool \<Rightarrow> write_result \<Rightarrow> bytes \<Rightarrow> tcp_conn \<Rightarrow> tcp_conn" where
  "tc_send in_loop w buf c =
     (if tc_state c = kConnected then (if in_loop then sendInLoop w buf c else tc_queueInLoop (QSend buf) c) else c)"

definition tc_shutdown :: "bool \<Rightarrow> tcp_conn \<Rightarrow> tcp_conn" where
  "tc_shutdown in_loop c =
     (if tc_state c = kConnected then (if in_loop then shutdownInLoop c else tc_queueInLoop QShutdown c) else c)"

definition connectEstablished :: "tcp_conn \<Rightarrow> tcp_conn" where
  "connectEstablished c =
     (let c = c\<lparr>tc_state := kConnected, tc_channel := (tc_channel c)\<lparr>ch_tied := True\<rparr>\<rparr>;
          c = tc_channel_op EnableReading c
      in notify (NConnection (tc_state c)) c)"

definition tc_remove :: "tcp_conn \<Rightarrow> tcp_conn" where
  "tc_remove c = c\<lparr>tc_polls := tc_polls c @ [Remove (tc_id c)], tc_removed := True\<rparr>"

definition connectDestroyed :: "tcp_conn \<Rightarrow> tcp_conn" where
  "connectDestroyed c =
     (let c = (if tc_state c = kConnected then
                 (let c = (tc_channel_op DisableAll (c\<lparr>tc_state := kDisconnected\<rparr>))\<lparr>tc_closed := True\<rparr>
                  in notify (NConnection (tc_state c)) c)
               else c)
      in tc_remove c)"

definition tc_handleClose :: "tcp_conn \<Rightarrow> tcp_conn" where
  "tc_handleClose c =
     (let c = (tc_channel_op DisableAll (c\<lparr>tc_state := kDisconnected\<rparr>))\<lparr>tc_closed := True\<rparr>
      in notify NClose (notify (NConnection (tc_state c)) c))"

definition tc_handleRead :: "(nat \<Rightarrow> read_result) \<Rightarrow> tcp_conn \<Rightarrow> tcp_conn" where
  "tc_handleRead readv c =
     (case readFd readv (tc_input c) of (n, saved_errno, b) \<Rightarrow>
        let c = c\<lparr>tc_input := b\<rparr> in
        if n < 0 then c else if n = 0 then tc_handleClose c else notify NMessage c)"

definition tc_handleWrite :: "write_result \<Rightarrow> tcp_conn \<Rightarrow> tcp_conn" where
  "tc_handleWrite w c =
     (if tc_isWriting c then
        (case writeFd (\<lambda>_. w) (tc_output c) of (n, saved_errno) \<Rightarrow>
           if n < 0 then c
           else
             (let c = c\<lparr>tc_wire := tc_wire c @ take (nat n) (contents (tc_output c)),
                        tc_output := reset (nat n) (tc_output c)\<rparr>
              in if readableBytes (tc_output c) = 0 then
                   (let c = tc_channel_op DisableWriting c;
                        c = (if tc_has_wcb c then tc_queueInLoop QWriteComplete c else c)
                    in if tc_state c = kDisconnecting then shutdownInLoop c else c)
                 else c))
      else c)"

text \<open>A function the connection had queued, run by the loop.\<close>

definition run_queued :: "write_result \<Rightarrow> conn_task \<Rightarrow> tcp_conn \<Rightarrow> tcp_conn" where
  "run_queued w t c =
     (case t of QSend buf \<Rightarrow> sendInLoop w buf c | QShutdown \<Rightarrow> shutdownInLoop c | QWriteComplete \<Rightarrow> notify NWriteComplete c)"

section \<open>Steps\<close>

text \<open>The steps of a connection: the server establishes it once and destroys it once, the channel
  reports events while it listens for some and is not removed, the user sends and shuts down in the
  loop thread or in another one, and the loop runs the queued functions. The system takes at most the
  bytes offered.\<close>

datatype conn_label =
    Establish | Destroy | Readable "nat \<Rightarrow> read_result" | Writable write_result | HangUp
  | Send write_result bytes | SendOther bytes | Shutdown | ShutdownOther | RunQueued write_result

definition taken_ok :: "write_result \<Rightarrow> bytes \<Rightarrow> bool" where
  "taken_ok w offered \<longleftrightarrow> (case w of WriteErr e \<Rightarrow> True | WriteOk n \<Rightarrow> n \<le> length offered)"

definition can_report :: "tcp_conn \<Rightarrow> bool" where
  "can_report c \<longleftrightarrow> tc_state c \<noteq> kConnecting \<and> \<not> tc_removed c \<and> \<not> tc_closed c"

fun conn_step :: "conn_label \<Rightarrow> tcp_conn \<Rightarrow> tcp_conn option" where
  "conn_step Establish c = (if tc_state c = kConnecting then Some (connectEstablished c) else None)"
| "conn_step Destroy c = (if tc_state c \<noteq> kConnecting \<and> \<not> tc_removed c then Some (connectDestroyed c) else None)"
| "conn_step (Readable readv) c =
     (if can_report c \<and> (\<forall>data. readv (readv_capacity (tc_input c)) = ReadOk data \<longrightarrow> length data \<le> readv_capacity (tc_input c))
      then Some (tc_handleRead readv c) else None)"
| "conn_step (Writable w) c =
     (if can_report c \<and> taken_ok w (contents (tc_output c)) then Some (tc_handleWrite w c) else None)"
| "conn_step HangUp c = (if can_report c then Some (tc_handleClose c) else None)"
| "conn_step (Send w buf) c = (if taken_ok w buf then Some (tc_send True w buf c) else None)"
| "conn_step (SendOther buf) c = Some (tc_send False (WriteOk 0) buf c)"
| "conn_step Shutdown c = Some (tc_shutdown True c)"
| "conn_step ShutdownOther c = Some (tc_shutdown False c)"
| "conn_step (RunQueued w) c =
     (case tc_queue c of [] \<Rightarrow> None
      | t # ts \<Rightarrow> if (\<forall>buf. t = QSend buf \<longrightarrow> taken_ok w buf) then Some (run_queued w t (c\<lparr>tc_queue := ts\<rparr>)) else None)"

inductive conn_reach :: "tcp_conn \<Rightarrow> bool" where
  start: "conn_reach (new_conn i fd wcb)"
| step: "conn_reach c \<Longrightarrow> conn_step l c = Some c' \<Longrightarrow> conn_reach c'"


section \<open>The invariant\<close>

lemma writing_bit: "(e :: 32 word) AND 4 = 0 \<longleftrightarrow> \<not> bit e 2"
  using and_exp_eq_0_iff_not_bit [of e 2] by simp

lemma isWriting_op [simp]:
  "tc_isWriting (tc_channel_op op c) = (case op of EnableWriting \<Rightarrow> True | DisableWriting \<Rightarrow> False | DisableAll \<Rightarrow> False
     | EnableReading \<Rightarrow> tc_isWriting c | DisableReading \<Rightarrow> tc_isWriting c)"
  by (cases op) (simp_all add: tc_isWriting_def isWriting_def tc_channel_op_def event_bits writing_bit bit_simps)

lemma channel_op_frame [simp]:
  "tc_state (tc_channel_op op c) = tc_state c" "tc_output (tc_channel_op op c) = tc_output c"
  "tc_wire (tc_channel_op op c) = tc_wire c" "tc_fin (tc_channel_op op c) = tc_fin c"
  "tc_accepted (tc_channel_op op c) = tc_accepted c" "tc_closed (tc_channel_op op c) = tc_closed c"
  "tc_has_wcb (tc_channel_op op c) = tc_has_wcb c" "tc_log (tc_channel_op op c) = tc_log c"
  "tc_removed (tc_channel_op op c) = tc_removed c" "tc_id (tc_channel_op op c) = tc_id c"
  by (simp_all add: tc_channel_op_def)

lemma isWriting_frame [simp]:
  "tc_isWriting (c\<lparr>tc_closed := b\<rparr>) = tc_isWriting c" "tc_isWriting (c\<lparr>tc_output := buf\<rparr>) = tc_isWriting c"
  "tc_isWriting (c\<lparr>tc_wire := bs\<rparr>) = tc_isWriting c" "tc_isWriting (c\<lparr>tc_accepted := bs\<rparr>) = tc_isWriting c"
  "tc_isWriting (c\<lparr>tc_state := s\<rparr>) = tc_isWriting c" "tc_isWriting (c\<lparr>tc_fin := b\<rparr>) = tc_isWriting c"
  "tc_isWriting (c\<lparr>tc_log := l\<rparr>) = tc_isWriting c" "tc_isWriting (c\<lparr>tc_queue := q\<rparr>) = tc_isWriting c"
  by (simp_all add: tc_isWriting_def)

text \<open>The bytes the system took followed by those in the output buffer are the bytes taken on; write
  events are on exactly while the buffer holds bytes; the writing side is shut down only behind the
  last byte.\<close>

definition base_inv :: "tcp_conn \<Rightarrow> bool" where
  "base_inv c \<longleftrightarrow> buf_inv (tc_output c) \<and> tc_wire c @ contents (tc_output c) = tc_accepted c
     \<and> (if tc_closed c then \<not> tc_isWriting c else tc_isWriting c \<longleftrightarrow> contents (tc_output c) \<noteq> [])
     \<and> (tc_state c = kConnected \<or> tc_state c = kConnecting \<longrightarrow> \<not> tc_closed c \<and> \<not> tc_fin c)
     \<and> (tc_fin c \<longrightarrow> tc_closed c \<or> contents (tc_output c) = [])"

text \<open>While a shutdown waits for the output, write events are on.\<close>

definition out_inv :: "tcp_conn \<Rightarrow> bool" where
  "out_inv c \<longleftrightarrow> base_inv c \<and> (tc_state c = kDisconnecting \<and> \<not> tc_fin c \<longrightarrow> tc_isWriting c)"

lemma out_inv_frame [simp]:
  "out_inv (notify n c) = out_inv c" "out_inv (tc_queueInLoop t c) = out_inv c" "out_inv (tc_remove c) = out_inv c"
  "out_inv (c\<lparr>tc_queue := q\<rparr>) = out_inv c" "out_inv (c\<lparr>tc_input := b\<rparr>) = out_inv c"
  by (simp_all add: out_inv_def base_inv_def notify_def tc_queueInLoop_def tc_remove_def tc_isWriting_def)

lemma base_inv_queue [simp]: "base_inv (tc_queueInLoop t c) = base_inv c"
  by (simp add: base_inv_def tc_queueInLoop_def tc_isWriting_def)

lemma keep_rest_inv:
  assumes "buf_inv (tc_output c)" "tc_wire c @ contents (tc_output c) @ rest = tc_accepted c"
    "tc_isWriting c \<longleftrightarrow> contents (tc_output c) \<noteq> []" "tc_state c = kConnected" "\<not> tc_closed c" "\<not> tc_fin c"
  shows "out_inv (keep_rest rest c)"
proof (cases "rest = []")
  case False
  have "contents (buf_append rest (ensureWritableBytes (length rest) (tc_output c))) = contents (tc_output c) @ rest"
    "buf_inv (buf_append rest (ensureWritableBytes (length rest) (tc_output c)))"
    using assms(1) by (simp_all add: bq.cont_push bq.inv_push ensureWritableBytes_inv contents_ensureWritableBytes)
  then show ?thesis using assms False
    by (auto simp: keep_rest_def out_inv_def base_inv_def Let_def)
qed (use assms in \<open>simp add: keep_rest_def out_inv_def base_inv_def\<close>)

lemma sendInLoop_inv:
  assumes "out_inv c" "taken_ok w m" shows "out_inv (sendInLoop w m c)"
proof -
  have c: "buf_inv (tc_output c)" "tc_wire c @ contents (tc_output c) = tc_accepted c" using assms(1) by (simp_all add: out_inv_def base_inv_def)
  show ?thesis
  proof (cases "tc_state c = kConnected")
    case True
    then have w: "tc_isWriting c \<longleftrightarrow> contents (tc_output c) \<noteq> []" "\<not> tc_closed c" "\<not> tc_fin c"
      using assms(1) by (auto simp: out_inv_def base_inv_def)
    have keep: "out_inv (keep_rest m (c\<lparr>tc_accepted := tc_accepted c @ m\<rparr>))"
      using c w True by (intro keep_rest_inv) (auto simp: tc_isWriting_def)
    show ?thesis
    proof (cases "\<not> tc_isWriting c \<and> readableBytes (tc_output c) = 0")
      case idle: True
      then have e: "contents (tc_output c) = []" using w by simp
      show ?thesis
      proof (cases w)
        case (WriteErr err)
        then show ?thesis using idle True keep assms(1) by (simp add: sendInLoop_def)
      next
        case (WriteOk n)
        let ?c = "c\<lparr>tc_wire := tc_wire c @ take n m, tc_accepted := tc_accepted c @ m\<rparr>"
        have k: "out_inv (keep_rest (drop n m) ?c)"
          using c w True e by (intro keep_rest_inv) (auto simp: tc_isWriting_def)
        have "drop n m = [] \<Longrightarrow> out_inv ?c" using k by (simp add: keep_rest_def)
        then show ?thesis using WriteOk idle True k by (auto simp: sendInLoop_def Let_def)
      qed
    qed (use True keep in \<open>auto simp: sendInLoop_def\<close>)
  qed (use assms in \<open>simp add: sendInLoop_def\<close>)
qed

lemma shutdown_base: "base_inv c \<Longrightarrow> out_inv (shutdownInLoop c)"
  by (auto simp: out_inv_def base_inv_def shutdownInLoop_def Let_def tc_isWriting_def split: if_splits)

lemma shutdownInLoop_inv: "out_inv c \<Longrightarrow> out_inv (shutdownInLoop c)"
  using shutdown_base by (simp add: out_inv_def)

lemma close_inv:
  assumes "out_inv c"
  shows "out_inv ((tc_channel_op DisableAll (c\<lparr>tc_state := kDisconnected\<rparr>))\<lparr>tc_closed := True\<rparr>)"
  using assms by (auto simp: out_inv_def base_inv_def)

lemma handleWrite_inv:
  assumes "out_inv c" "taken_ok w (contents (tc_output c))" "\<not> tc_closed c"
  shows "out_inv (tc_handleWrite w c)"
proof (cases "tc_isWriting c")
  case True
  show ?thesis
  proof (cases w)
    case (WriteErr e)
    then show ?thesis using assms(1) True by (simp add: tc_handleWrite_def writeFd_def)
  next
    case (WriteOk n)
    let ?b = "reset n (tc_output c)"
    let ?c = "c\<lparr>tc_wire := tc_wire c @ take n (contents (tc_output c)), tc_output := ?b\<rparr>"
    have b: "buf_inv ?b" "contents ?b = drop n (contents (tc_output c))"
      using assms(1) by (simp_all add: out_inv_def base_inv_def bq.inv_drain bq.cont_drain)
    have empty: "readableBytes ?b = 0 \<longleftrightarrow> contents ?b = []" using length_contents [OF b(1)] by auto
    show ?thesis
    proof (cases "readableBytes ?b = 0")
      case e: True
      let ?d = "tc_channel_op DisableWriting ?c"
      have d: "base_inv ?d"
        using assms(1,3) b e unfolding empty by (auto simp: out_inv_def base_inv_def)
      let ?f = "if tc_has_wcb ?d then tc_queueInLoop QWriteComplete ?d else ?d"
      have "base_inv ?f" using d by simp
      then have "out_inv (if tc_state ?f = kDisconnecting then shutdownInLoop ?f else ?f)"
        using shutdown_base [of ?f] by (simp add: out_inv_def)
      then show ?thesis using WriteOk True e by (simp add: tc_handleWrite_def writeFd_def Let_def)
    next
      case False
      then have "out_inv ?c" using assms(1,3) b True unfolding empty by (auto simp: out_inv_def base_inv_def tc_isWriting_def)
      then show ?thesis using WriteOk True False by (simp add: tc_handleWrite_def writeFd_def Let_def)
    qed
  qed
qed (use assms in \<open>simp add: tc_handleWrite_def\<close>)


lemma tc_handleRead_inv:
  "out_inv c \<Longrightarrow> out_inv (tc_handleRead readv c)"
  using close_inv [of "c\<lparr>tc_input := b\<rparr>" for b]
  by (auto simp: tc_handleRead_def tc_handleClose_def Let_def split: prod.splits)

lemma run_queued_inv:
  assumes "out_inv c" "\<forall>buf. t = QSend buf \<longrightarrow> taken_ok w buf"
  shows "out_inv (run_queued w t c)"
  using assms by (cases t) (auto simp: run_queued_def sendInLoop_inv shutdownInLoop_inv)

lemma established_inv: "out_inv c \<Longrightarrow> tc_state c = kConnecting \<Longrightarrow> out_inv (connectEstablished c)"
proof -
  assume c: "out_inv c" "tc_state c = kConnecting"
  let ?c = "c\<lparr>tc_state := kConnected, tc_channel := (tc_channel c)\<lparr>ch_tied := True\<rparr>\<rparr>"
  have "tc_isWriting ?c = tc_isWriting c" by (simp add: tc_isWriting_def isWriting_def)
  then have "out_inv (tc_channel_op EnableReading ?c)" using c by (auto simp: out_inv_def base_inv_def)
  then show ?thesis by (simp add: connectEstablished_def Let_def)
qed

lemma destroyed_inv: "out_inv c \<Longrightarrow> out_inv (connectDestroyed c)"
  using close_inv [of c] by (simp add: connectDestroyed_def Let_def)

lemma conn_step_out_inv:
  assumes "out_inv c" "conn_step l c = Some c'" shows "out_inv c'"
proof (cases l)
  case (Readable readv)
  then show ?thesis using assms tc_handleRead_inv by (auto split: if_splits)
next
  case (Writable w)
  then show ?thesis using assms handleWrite_inv [of c w] by (auto simp: can_report_def split: if_splits)
next
  case HangUp
  then show ?thesis using assms close_inv [of c] by (auto simp: tc_handleClose_def Let_def split: if_splits)
next
  case (Send w buf)
  then show ?thesis using assms sendInLoop_inv by (auto simp: tc_send_def split: if_splits)
next
  case (RunQueued w)
  then show ?thesis using assms run_queued_inv by (auto split: if_splits list.splits)
qed (use assms established_inv destroyed_inv shutdownInLoop_inv in
      \<open>auto simp: tc_send_def tc_shutdown_def split: if_splits\<close>)

text \<open>The life cycle: the notifications of the connection, and what it asks of the poller.\<close>

definition life :: "conn_note list \<Rightarrow> conn_note list" where
  "life = filter (\<lambda>n. case n of NConnection s \<Rightarrow> True | NClose \<Rightarrow> True | _ \<Rightarrow> False)"

lemma life_simps [simp]:
  "life [] = []" "life (l @ l') = life l @ life l'" "life (NConnection s # l) = NConnection s # life l"
  "life (NClose # l) = NClose # life l" "life (NMessage # l) = life l" "life (NWriteComplete # l) = life l"
  by (simp_all add: life_def)

definition life_inv :: "tcp_conn \<Rightarrow> bool" where
  "life_inv c \<longleftrightarrow>
     (tc_state c = kConnecting \<longrightarrow> life (tc_log c) = [] \<and> tc_queue c = [] \<and> tc_polls c = [] \<and> \<not> tc_removed c \<and> \<not> tc_closed c
        \<and> ch_events (tc_channel c) = 0)
     \<and> (tc_state c \<noteq> kConnecting \<and> \<not> tc_closed c \<longrightarrow> life (tc_log c) = [NConnection kConnected])
     \<and> (tc_closed c \<longrightarrow> life (tc_log c) = [NConnection kConnected, NConnection kDisconnected]
          \<or> life (tc_log c) = [NConnection kConnected, NConnection kDisconnected, NClose])
     \<and> (tc_state c = kConnected \<longrightarrow> \<not> tc_closed c \<and> \<not> tc_removed c)"

lemma keep_rest_frame [simp]:
  "tc_state (keep_rest r c) = tc_state c" "tc_log (keep_rest r c) = tc_log c" "tc_closed (keep_rest r c) = tc_closed c"
  "tc_removed (keep_rest r c) = tc_removed c"
  by (simp_all add: keep_rest_def Let_def)

lemma sendInLoop_frame [simp]:
  "tc_state (sendInLoop w m c) = tc_state c" "tc_log (sendInLoop w m c) = tc_log c"
  "tc_closed (sendInLoop w m c) = tc_closed c" "tc_removed (sendInLoop w m c) = tc_removed c"
  by (simp_all add: sendInLoop_def tc_queueInLoop_def Let_def split: write_result.split)

lemma sendInLoop_connected: "tc_state c \<noteq> kConnected \<Longrightarrow> sendInLoop w m c = c"
  by (simp add: sendInLoop_def)

lemma shutdownInLoop_frame [simp]:
  "tc_state (shutdownInLoop c) = kDisconnecting" "tc_log (shutdownInLoop c) = tc_log c"
  "tc_closed (shutdownInLoop c) = tc_closed c" "tc_removed (shutdownInLoop c) = tc_removed c"
  "tc_polls (shutdownInLoop c) = tc_polls c" "tc_channel (shutdownInLoop c) = tc_channel c" "tc_id (shutdownInLoop c) = tc_id c"
  by (simp_all add: shutdownInLoop_def Let_def)

lemma notify_frame [simp]:
  "tc_state (notify n c) = tc_state c" "tc_log (notify n c) = tc_log c @ [n]" "tc_closed (notify n c) = tc_closed c"
  "tc_removed (notify n c) = tc_removed c" "tc_polls (notify n c) = tc_polls c" "tc_channel (notify n c) = tc_channel c"
  "tc_id (notify n c) = tc_id c"
  by (simp_all add: notify_def)

lemma queue_frame [simp]:
  "tc_state (tc_queueInLoop t c) = tc_state c" "tc_log (tc_queueInLoop t c) = tc_log c"
  "tc_closed (tc_queueInLoop t c) = tc_closed c" "tc_removed (tc_queueInLoop t c) = tc_removed c"
  "tc_polls (tc_queueInLoop t c) = tc_polls c" "tc_channel (tc_queueInLoop t c) = tc_channel c"
  "tc_id (tc_queueInLoop t c) = tc_id c" "tc_has_wcb (tc_queueInLoop t c) = tc_has_wcb c"
  by (simp_all add: tc_queueInLoop_def)

lemma remove_frame [simp]:
  "tc_state (tc_remove c) = tc_state c" "tc_log (tc_remove c) = tc_log c" "tc_closed (tc_remove c) = tc_closed c"
  "tc_removed (tc_remove c)" "tc_channel (tc_remove c) = tc_channel c" "tc_id (tc_remove c) = tc_id c"
  by (simp_all add: tc_remove_def)

lemma handleWrite_frame [simp]:
  "tc_state (tc_handleWrite w c) = tc_state c" "tc_log (tc_handleWrite w c) = tc_log c"
  "tc_closed (tc_handleWrite w c) = tc_closed c" "tc_removed (tc_handleWrite w c) = tc_removed c"
  by (simp_all add: tc_handleWrite_def Let_def split: prod.splits)

lemma life_inv_step:
  assumes c: "life_inv c" and s: "conn_step l c = Some c'" shows "life_inv c'"
proof (cases l)
  case Establish
  then show ?thesis using c s by (auto simp: life_inv_def connectEstablished_def Let_def split: if_splits)
next
  case Destroy
  then show ?thesis using c s by (auto simp: life_inv_def connectDestroyed_def Let_def split: if_splits)
next
  case (Readable readv)
  then show ?thesis using c s
    by (auto simp: life_inv_def tc_handleRead_def tc_handleClose_def can_report_def Let_def split: if_splits prod.splits)
next
  case (Writable w)
  then show ?thesis using c s by (auto simp: life_inv_def can_report_def split: if_splits)
next
  case HangUp
  then show ?thesis using c s by (auto simp: life_inv_def can_report_def tc_handleClose_def Let_def split: if_splits)
next
  case (Send w buf)
  then show ?thesis using c s by (auto simp: life_inv_def tc_send_def split: if_splits)
next
  case (RunQueued w)
  then obtain t ts where t: "tc_queue c = t # ts" "c' = run_queued w t (c\<lparr>tc_queue := ts\<rparr>)"
    using s by (auto split: if_splits list.splits)
  then have "tc_state c \<noteq> kConnecting" using c by (auto simp: life_inv_def)
  then show ?thesis using c t by (cases t) (auto simp: life_inv_def run_queued_def)
qed (use c s in \<open>auto simp: life_inv_def tc_send_def tc_shutdown_def split: if_splits\<close>)

text \<open>What the connection asks of the poller, replayed on the abstract poller.\<close>

definition polls_ok :: "bool \<Rightarrow> tcp_conn \<Rightarrow> bool" where
  "polls_ok b c \<longleftrightarrow> removes_known (tc_polls c) no_polls \<and> ap_known (fold abs_step (tc_polls c) no_polls) (tc_id c) = b
     \<and> ap_events (fold abs_step (tc_polls c) no_polls) (tc_id c) = ch_events (tc_channel c)"

lemma polls_ok_op [simp]: "polls_ok b c \<Longrightarrow> polls_ok True (tc_channel_op op c)"
  by (simp add: polls_ok_def tc_channel_op_def removes_known_append)

lemma polls_ok_remove [simp]: "polls_ok True c \<Longrightarrow> polls_ok False (tc_remove c)"
  by (simp add: polls_ok_def tc_remove_def removes_known_append)

lemma polls_ok_frame [simp]:
  "polls_ok b (notify n c) = polls_ok b c" "polls_ok b (tc_queueInLoop t c) = polls_ok b c"
  "polls_ok b (c\<lparr>tc_output := buf\<rparr>) = polls_ok b c" "polls_ok b (c\<lparr>tc_wire := bs\<rparr>) = polls_ok b c"
  "polls_ok b (c\<lparr>tc_accepted := bs\<rparr>) = polls_ok b c" "polls_ok b (c\<lparr>tc_state := s\<rparr>) = polls_ok b c"
  "polls_ok b (c\<lparr>tc_closed := x\<rparr>) = polls_ok b c" "polls_ok b (c\<lparr>tc_queue := q\<rparr>) = polls_ok b c"
  "polls_ok b (c\<lparr>tc_input := buf\<rparr>) = polls_ok b c" "polls_ok b (shutdownInLoop c) = polls_ok b c"
  "polls_ok b (c\<lparr>tc_state := s, tc_channel := (tc_channel c)\<lparr>ch_tied := x\<rparr>\<rparr>) = polls_ok b c"
  by (simp_all add: polls_ok_def notify_def tc_queueInLoop_def)

lemma keep_rest_polls [simp]: "polls_ok True c \<Longrightarrow> polls_ok True (keep_rest r c)"
  by (auto simp: keep_rest_def Let_def)

lemma sendInLoop_polls [simp]: "polls_ok True c \<Longrightarrow> polls_ok True (sendInLoop w m c)"
  by (auto simp: sendInLoop_def Let_def split: write_result.split)

lemma handleWrite_polls [simp]: "polls_ok True c \<Longrightarrow> polls_ok True (tc_handleWrite w c)"
  by (auto simp: tc_handleWrite_def Let_def split: prod.split)

definition held :: "tcp_conn \<Rightarrow> bool" where
  "held c \<longleftrightarrow> tc_state c \<noteq> kConnecting \<and> \<not> tc_removed c"

lemma polls_step:
  assumes p: "polls_ok (held c) c" and c: "life_inv c" and s: "conn_step l c = Some c'"
  shows "polls_ok (held c') c'"
proof -
  have con: "tc_state c = kConnected \<Longrightarrow> held c" using c by (simp add: life_inv_def held_def)
  have rep: "can_report c \<Longrightarrow> held c" by (simp add: can_report_def held_def)
  have send: "polls_ok (held (sendInLoop w m d)) (sendInLoop w m d)"
    if "polls_ok (held d) d" "tc_state d = kConnected \<Longrightarrow> held d" for w m d
  proof (cases "tc_state d = kConnected")
    case True
    then show ?thesis using that by (simp add: held_def)
  qed (use that in \<open>simp add: sendInLoop_connected\<close>)
  show ?thesis
  proof (cases l)
    case Establish
    then show ?thesis using p c s
      by (auto simp: connectEstablished_def Let_def held_def life_inv_def split: if_splits)
  next
    case Destroy
    then show ?thesis using p s by (auto simp: connectDestroyed_def Let_def held_def split: if_splits)
  next
    case (Readable readv)
    then show ?thesis using p s rep
      by (auto simp: tc_handleRead_def tc_handleClose_def Let_def held_def can_report_def split: if_splits prod.splits)
  next
    case (Writable w)
    then show ?thesis using p s rep by (auto simp: held_def can_report_def split: if_splits)
  next
    case HangUp
    then show ?thesis using p s rep by (auto simp: tc_handleClose_def Let_def held_def can_report_def split: if_splits)
  next
    case (Send w buf)
    then show ?thesis using p s send con by (auto simp: tc_send_def split: if_splits)
  next
    case (RunQueued w)
    then obtain t ts where t: "tc_queue c = t # ts" "c' = run_queued w t (c\<lparr>tc_queue := ts\<rparr>)"
      using s by (auto split: if_splits list.splits)
    then have "tc_state c \<noteq> kConnecting" using c by (auto simp: life_inv_def)
    then show ?thesis using p t send [of "c\<lparr>tc_queue := ts\<rparr>"] con
      by (cases t) (auto simp: run_queued_def held_def)
  next
    case Shutdown
    then show ?thesis using p s con by (auto simp: tc_shutdown_def held_def split: if_splits)
  qed (use p s in \<open>auto simp: tc_send_def tc_shutdown_def held_def split: if_splits\<close>)
qed

lemma conn_reach_inv: "conn_reach c \<Longrightarrow> out_inv c \<and> life_inv c \<and> polls_ok (held c) c"
proof (induction rule: conn_reach.induct)
  case (start i fd wcb)
  show ?case
    by (simp add: new_conn_def out_inv_def base_inv_def life_inv_def polls_ok_def held_def no_polls_def tc_isWriting_def
        isWriting_def new_channel_def)
next
  case (step c l c')
  then show ?case using conn_step_out_inv life_inv_step polls_step by blast
qed

lemma fin_quiet:
  assumes "out_inv c" "tc_fin c" "conn_step l c = Some c'"
  shows "tc_wire c' = tc_wire c"
proof -
  have c: "tc_state c \<noteq> kConnected" "tc_state c \<noteq> kConnecting" "\<not> tc_isWriting c"
    using assms(1,2) by (auto simp: out_inv_def base_inv_def split: if_splits)
  show ?thesis
  proof (cases l)
    case (Readable readv)
    then show ?thesis using assms(3)
      by (auto simp: tc_handleRead_def tc_handleClose_def notify_def Let_def split: if_splits prod.splits)
  next
    case (RunQueued w)
    then obtain t ts where t: "c' = run_queued w t (c\<lparr>tc_queue := ts\<rparr>)" using assms(3) by (auto split: if_splits list.splits)
    then show ?thesis using c
      by (cases t) (auto simp: run_queued_def sendInLoop_connected shutdownInLoop_def notify_def Let_def)
  qed (use assms(3) c in \<open>auto simp: connectDestroyed_def tc_handleClose_def tc_handleWrite_def tc_remove_def notify_def
        tc_send_def tc_shutdown_def shutdownInLoop_def Let_def split: if_splits\<close>)
qed

lemma shutdown_drains:
  assumes "out_inv c" "tc_state c = kDisconnecting" "\<not> tc_fin c" "\<not> tc_closed c"
  shows "tc_fin (tc_handleWrite (WriteOk (length (contents (tc_output c)))) c)
    \<and> tc_wire (tc_handleWrite (WriteOk (length (contents (tc_output c)))) c) = tc_accepted c"
proof -
  let ?n = "length (contents (tc_output c))"
  have b: "buf_inv (tc_output c)" "tc_wire c @ contents (tc_output c) = tc_accepted c" "tc_isWriting c"
    using assms by (auto simp: out_inv_def base_inv_def)
  have "contents (reset ?n (tc_output c)) = []" "buf_inv (reset ?n (tc_output c))"
    using b(1) by (simp_all add: bq.cont_drain bq.inv_drain)
  then have "readableBytes (reset ?n (tc_output c)) = 0" using length_contents by fastforce
  then show ?thesis using assms b
    by (simp add: tc_handleWrite_def writeFd_def Let_def shutdownInLoop_def tc_queueInLoop_def)
qed

section \<open>The connection as a first-in first-out service\<close>

lemma keep_rest_histories [simp]:
  "tc_wire (keep_rest m c) = tc_wire c" "tc_accepted (keep_rest m c) = tc_accepted c"
  by (simp_all add: keep_rest_def Let_def)

lemma sendInLoop_histories:
  "prefix (tc_accepted c) (tc_accepted (sendInLoop w m c)) \<and> prefix (tc_wire c) (tc_wire (sendInLoop w m c))"
  by (cases w) (simp_all add: sendInLoop_def Let_def tc_queueInLoop_def)

lemma conn_histories_grow:
  assumes "conn_step l c = Some c'"
  shows "prefix (tc_accepted c) (tc_accepted c') \<and> prefix (tc_wire c) (tc_wire c')"
proof (cases l)
  case (Writable w)
  with assms show ?thesis
    by (cases w) (auto simp: tc_handleWrite_def writeFd_def Let_def shutdownInLoop_def tc_queueInLoop_def split: if_splits)
next
  case (Send w m)
  with assms show ?thesis by (auto simp: tc_send_def sendInLoop_histories split: if_splits)
next
  case (RunQueued w)
  then obtain t ts where t: "tc_queue c = t # ts" "c' = run_queued w t (c\<lparr>tc_queue := ts\<rparr>)"
    using assms by (auto split: list.splits if_splits)
  then show ?thesis using sendInLoop_histories [of "c\<lparr>tc_queue := ts\<rparr>" w]
    by (cases t) (simp_all add: run_queued_def shutdownInLoop_def notify_def Let_def)
next
  case (Readable readv)
  with assms show ?thesis by (auto simp: tc_handleRead_def tc_handleClose_def notify_def Let_def split: if_splits prod.splits)
qed (use assms in \<open>auto simp: connectEstablished_def connectDestroyed_def tc_remove_def tc_handleClose_def tc_send_def
      tc_shutdown_def shutdownInLoop_def tc_queueInLoop_def notify_def Let_def split: if_splits\<close>)

interpretation cf: fifo_service conn_reach "\<lambda>c c'. \<exists>l. conn_step l c = Some c'" tc_accepted tc_wire
  "\<lambda>c. contents (tc_output c)"
proof
  show "tc_accepted c = tc_wire c @ contents (tc_output c)" if "conn_reach c" for c
    using conn_reach_inv [OF that] by (auto simp: out_inv_def base_inv_def)
qed (auto intro: conn_reach.step dest: conn_histories_grow)

fun conn_run :: "conn_label list \<Rightarrow> tcp_conn \<Rightarrow> tcp_conn option" where
  "conn_run [] c = Some c"
| "conn_run (l # ls) c = (case conn_step l c of None \<Rightarrow> None | Some c' \<Rightarrow> conn_run ls c')"

lemma conn_run_moves: "conn_run ls c = Some c' \<Longrightarrow> (\<lambda>c c'. \<exists>l. conn_step l c = Some c')\<^sup>*\<^sup>* c c'"
proof (induction ls arbitrary: c)
  case (Cons l ls)
  then obtain d where d: "conn_step l c = Some d" "conn_run ls d = Some c'" by (auto split: option.splits)
  with Cons.IH [of d] show ?case by (blast intro: converse_rtranclp_into_rtranclp)
qed simp

section \<open>Properties\<close>

text \<open>C3. A connection sends what it took on: however the loop, the user's threads and the system's partial
  writes interleave, the bytes on the wire followed by those in the output buffer are the bytes of the
  accepted messages, in order and without loss or repetition; and while the connection is open, write
  events are on exactly as long as bytes are waiting, so none of them is forgotten. Whatever happens from there on,
  the wire only grows, and bytes accepted later follow the ones accepted by now.\<close>

theorem connection_stream:
  assumes "conn_reach c"
  shows "tc_wire c @ contents (tc_output c) = tc_accepted c
    \<and> (\<not> tc_closed c \<longrightarrow> (tc_isWriting c \<longleftrightarrow> tc_wire c \<noteq> tc_accepted c))
    \<and> (\<forall>ls c'. conn_run ls c = Some c' \<longrightarrow> prefix (tc_wire c) (tc_wire c') \<and>
         (prefix (tc_wire c') (tc_accepted c) \<or> prefix (tc_accepted c) (tc_wire c')))"
proof -
  have "base_inv c" using conn_reach_inv [OF assms] by (simp add: out_inv_def)
  then show ?thesis using cf.no_overtaking [OF conn_run_moves assms] cf.later [OF conn_run_moves assms]
    by (auto simp: base_inv_def split: if_splits)
qed

lemma conn_stepI: "conn_reach c \<Longrightarrow> conn_step l c = Some c' \<Longrightarrow> conn_reach (the (conn_step l c))"
  using conn_reach.step by auto

text \<open>A connection that took on three bytes of which the system accepted one.\<close>

definition busy_conn :: tcp_conn where
  "busy_conn = sendInLoop (WriteOk 1) ''abc'' (connectEstablished (new_conn 1 7 True))"

lemma busy_conn_reach: "conn_reach busy_conn"
proof -
  have "conn_step Establish (new_conn 1 7 True) = Some (connectEstablished (new_conn 1 7 True))" by (simp add: new_conn_def)
  then have e: "conn_reach (connectEstablished (new_conn 1 7 True))" by (rule conn_reach.step [OF conn_reach.start])
  have "conn_step (Send (WriteOk 1) ''abc'') (connectEstablished (new_conn 1 7 True)) = Some busy_conn"
    by (simp add: busy_conn_def tc_send_def taken_ok_def connectEstablished_def Let_def)
  then show ?thesis by (rule conn_reach.step [OF e])
qed

lemma busy_conn_facts: "tc_state busy_conn = kConnected" "tc_accepted busy_conn = ''abc''" "tc_wire busy_conn = ''a''"
  "\<not> tc_closed busy_conn"
  by (simp_all add: busy_conn_def sendInLoop_def connectEstablished_def Let_def new_conn_def keep_rest_def
      tc_isWriting_def isWriting_def readableBytes_def mk_buffer_def kReadEvent_def event_bits tc_channel_op_def notify_def
      new_channel_def tc_queueInLoop_def)

theorem connection_stream_witness:
  "tc_wire busy_conn @ contents (tc_output busy_conn) = ''abc'' \<and> tc_isWriting busy_conn"
  using connection_stream [OF busy_conn_reach] busy_conn_facts by simp


text \<open>A connection closes its writing side gracefully: while it has not been closed from outside, it
  shuts down only when every byte it took on is on the wire, and in any case no byte follows.\<close>

theorem fin_behind_last_byte:
  assumes "conn_reach c" "tc_fin c"
  shows "(\<not> tc_closed c \<longrightarrow> tc_wire c = tc_accepted c) \<and> (\<forall>l c'. conn_step l c = Some c' \<longrightarrow> tc_wire c' = tc_wire c)"
proof -
  have o: "out_inv c" using conn_reach_inv [OF assms(1)] by simp
  then have "\<not> tc_closed c \<longrightarrow> tc_wire c = tc_accepted c" using assms(2) by (auto simp: out_inv_def base_inv_def)
  then show ?thesis using fin_quiet [OF o assms(2)] by blast
qed

text \<open>The busy connection, shut down by its user while two bytes are waiting.\<close>

definition closing_conn :: tcp_conn where
  "closing_conn = tc_shutdown True busy_conn"

lemma closing_conn_reach: "conn_reach closing_conn"
  by (rule conn_reach.step [OF busy_conn_reach, of Shutdown]) (simp add: closing_conn_def)

lemma closing_conn_facts:
  "tc_state closing_conn = kDisconnecting" "\<not> tc_closed closing_conn" "\<not> tc_fin closing_conn" "\<not> tc_removed closing_conn"
  "tc_accepted closing_conn = ''abc''" "length (contents (tc_output closing_conn)) = 2"
proof -
  have w: "tc_isWriting busy_conn" "tc_wire busy_conn @ contents (tc_output busy_conn) = ''abc''" "\<not> tc_fin busy_conn"
    using conn_reach_inv [OF busy_conn_reach] busy_conn_facts by (auto simp: out_inv_def base_inv_def)
  have r: "\<not> tc_removed busy_conn" using conn_reach_inv [OF busy_conn_reach] busy_conn_facts by (simp add: life_inv_def)
  have c: "closing_conn = busy_conn\<lparr>tc_state := kDisconnecting\<rparr>"
    using w busy_conn_facts by (simp add: closing_conn_def tc_shutdown_def shutdownInLoop_def)
  show "tc_state closing_conn = kDisconnecting" "\<not> tc_closed closing_conn" "\<not> tc_fin closing_conn" "\<not> tc_removed closing_conn"
    "tc_accepted closing_conn = ''abc''"
    using w r busy_conn_facts by (simp_all add: c)
  show "length (contents (tc_output closing_conn)) = 2" using w(2) busy_conn_facts by (simp add: c)
qed

definition closed_conn :: tcp_conn where
  "closed_conn = tc_handleWrite (WriteOk 2) closing_conn"

lemma closed_conn_facts: "conn_reach closed_conn" "tc_fin closed_conn" "\<not> tc_closed closed_conn" "tc_accepted closed_conn = ''abc''"
proof -
  have "conn_step (Writable (WriteOk 2)) closing_conn = Some closed_conn"
    using closing_conn_facts by (simp add: closed_conn_def can_report_def taken_ok_def)
  then show "conn_reach closed_conn" by (rule conn_reach.step [OF closing_conn_reach])
  have o: "out_inv closing_conn" using conn_reach_inv [OF closing_conn_reach] by simp
  show "tc_fin closed_conn" using shutdown_drains [OF o] closing_conn_facts by (simp add: closed_conn_def)
  show "\<not> tc_closed closed_conn" using closing_conn_facts by (simp add: closed_conn_def)
  show "tc_accepted closed_conn = ''abc''" using closing_conn_facts
    by (simp add: closed_conn_def tc_handleWrite_def shutdownInLoop_def tc_queueInLoop_def Let_def split: prod.split)
qed

theorem fin_behind_last_byte_witness: "tc_fin closed_conn \<and> tc_wire closed_conn = ''abc''"
  using fin_behind_last_byte [OF closed_conn_facts(1,2)] closed_conn_facts by simp



text \<open>The life cycle the user and the server see: the connection is announced once, its end at most
  once and only after that, and the server's close callback comes at most once and last.\<close>

theorem life_cycle:
  assumes "conn_reach c"
  shows "prefix (life (tc_log c)) [NConnection kConnected, NConnection kDisconnected, NClose]
    \<and> (life (tc_log c) = [] \<longleftrightarrow> tc_state c = kConnecting)"
proof -
  have "life_inv c" using conn_reach_inv [OF assms] by simp
  then show ?thesis by (cases "tc_state c = kConnecting"; cases "tc_closed c") (auto simp: life_inv_def)
qed

theorem life_cycle_witness:
  "prefix (life (tc_log (tc_handleClose closing_conn))) [NConnection kConnected, NConnection kDisconnected, NClose]"
proof -
  have "can_report closing_conn" using closing_conn_facts by (simp add: can_report_def)
  then have "conn_step HangUp closing_conn = Some (tc_handleClose closing_conn)" by simp
  then have "conn_reach (tc_handleClose closing_conn)" by (rule conn_reach.step [OF closing_conn_reach])
  from life_cycle [OF this] show ?thesis by blast
qed



text \<open>A connection that is destroyed while its shutdown waits is removed without a notification.\<close>

lemma destroyed_unannounced:
  "tc_state c = kDisconnecting \<Longrightarrow> tc_log (connectDestroyed c) = tc_log c \<and> tc_removed (connectDestroyed c)"
  by (simp add: connectDestroyed_def Let_def)

end
