(* ===== verification/EventLoop.thy ===== *)
theory EventLoop
  imports Prelude
begin

text \<open>
  The event loop (include/net/event_loop.h, src/net/event_loop.cpp) with the threads that queue work
  into it, and \<^verbatim>\<open>EventLoopThreadPool\<close> (src/base/event_loop_thread_pool.cpp). The loop is a state machine
  whose steps are the lines of \<^verbatim>\<open>loop()\<close> and \<^verbatim>\<open>doPendingFuncs()\<close> and the single operations of the
  callbacks they run; between any two of them other threads take the steps of \<^verbatim>\<open>queueInLoop\<close> and
  \<^verbatim>\<open>quit\<close>, whose queueing (under the mutex) and wake-up are separate. The wake-up descriptor is the
  counter of its \<^verbatim>\<open>eventfd\<close>.
\<close>

section \<open>Callbacks\<close>

text \<open>A callback is what it does to the loop: queue a function, run one in the loop, or quit.\<close>

datatype task = Task (task_id: nat) (task_body: "act list")
  and act = ActQueue task | ActRun task | ActQuit

section \<open>The loop\<close>

text \<open>Where the loop thread is: before \<^verbatim>\<open>loop()\<close>, at the test of \<^verbatim>\<open>_quit\<close>, in \<^verbatim>\<open>poll\<close>, in the handlers of
  the active channels, in \<^verbatim>\<open>doPendingFuncs\<close> before the swap, in its for loop, or behind \<^verbatim>\<open>loop()\<close>.\<close>

datatype loop_pc = Before | AtTest | InPoll | InHandlers | AtSwap | InPending | Gone

record event_loop =
  lp_pc :: loop_pc
  lp_looping :: bool
  lp_quit :: bool
  lp_callingPending :: bool
  lp_pending :: "task list"
  lp_counter :: nat             \<comment> \<open>the wake-up descriptor\<close>
  lp_wake_ready :: bool         \<comment> \<open>the wake-up channel is active and not yet handled\<close>
  lp_batch :: "task list"       \<comment> \<open>the swapped-out functions still to run\<close>
  lp_work :: "act list"         \<comment> \<open>what is left of the running callbacks\<close>
  lp_owed :: nat                \<comment> \<open>threads between their queueing or quit and their wake-up\<close>
  lp_early :: bool              \<comment> \<open>the loop thread queued a function before \<open>loop()\<close>\<close>
  lp_queued :: "nat list"       \<comment> \<open>history: the functions queued\<close>
  lp_started :: "nat list"      \<comment> \<open>history: the queued functions entered\<close>

text \<open>A loop whose thread will run \<open>init\<close> (the thread initialisation callback) before \<^verbatim>\<open>loop()\<close>.\<close>

definition new_loop :: "act list \<Rightarrow> event_loop" where
  "new_loop init = \<lparr>lp_pc = Before, lp_looping = False, lp_quit = True, lp_callingPending = False, lp_pending = [],
     lp_counter = 0, lp_wake_ready = False, lp_batch = [], lp_work = init, lp_owed = 0, lp_early = False,
     lp_queued = [], lp_started = []\<rparr>"

definition wakeup :: "event_loop \<Rightarrow> event_loop" where
  "wakeup s = s\<lparr>lp_counter := lp_counter s + 1\<rparr>"

definition loop_handleRead :: "event_loop \<Rightarrow> event_loop" where
  "loop_handleRead s = s\<lparr>lp_counter := 0\<rparr>"

definition push_pending :: "task \<Rightarrow> event_loop \<Rightarrow> event_loop" where
  "push_pending t s = s\<lparr>lp_pending := lp_pending s @ [t], lp_queued := lp_queued s @ [task_id t]\<rparr>"

definition needs_wakeup :: "bool \<Rightarrow> event_loop \<Rightarrow> bool" where
  "needs_wakeup in_loop s \<longleftrightarrow> \<not> in_loop \<or> lp_callingPending s"

definition queueInLoop :: "bool \<Rightarrow> task \<Rightarrow> event_loop \<Rightarrow> event_loop" where
  "queueInLoop in_loop t s =
     (let s = push_pending t s in if needs_wakeup in_loop s then wakeup s else s)"

definition loop_quit :: "bool \<Rightarrow> event_loop \<Rightarrow> event_loop" where
  "loop_quit in_loop s = (let s = s\<lparr>lp_quit := True\<rparr> in if \<not> in_loop then wakeup s else s)"

text \<open>One operation of a callback; \<^verbatim>\<open>runInLoop\<close> in the loop thread runs the function at once.\<close>

fun do_act :: "act \<Rightarrow> event_loop \<Rightarrow> event_loop" where
  "do_act (ActQueue t) s = (queueInLoop True t s)\<lparr>lp_early := (lp_early s \<or> lp_pc s = Before)\<rparr>"
| "do_act (ActRun t) s = s\<lparr>lp_work := task_body t @ lp_work s\<rparr>"
| "do_act ActQuit s = loop_quit True s"

text \<open>The steps. \<open>PollIO\<close> is a return of \<^verbatim>\<open>poll\<close> with active channels whose handlers do the given
  operations; the wake-up channel is among them when the counter is positive. Another thread's
  \<^verbatim>\<open>queueInLoop\<close> is \<open>OtherPush\<close> and \<open>OtherWake\<close>, its \<^verbatim>\<open>quit\<close> \<open>OtherQuit\<close> and \<open>OtherWake\<close>.\<close>

datatype loop_label =
    Enter | Test | PollWake "act list" | PollIO "act list" | PollTimeout | HandleWake | DoAct | HandlersDone | Swap
  | NextFunc | PendingDone | OtherPush task | OtherWake | OtherQuit

fun loop_step :: "loop_label \<Rightarrow> event_loop \<Rightarrow> event_loop option" where
  "loop_step Enter s =
     (if lp_pc s = Before \<and> lp_work s = [] then Some (s\<lparr>lp_pc := AtTest, lp_looping := True, lp_quit := False\<rparr>) else None)"
| "loop_step Test s =
     (if lp_pc s = AtTest then Some (s\<lparr>lp_pc := (if lp_quit s then Gone else InPoll)\<rparr>) else None)"
| "loop_step (PollWake acts) s =
     (if lp_pc s = InPoll \<and> lp_counter s > 0
      then Some (s\<lparr>lp_pc := InHandlers, lp_wake_ready := True, lp_work := acts\<rparr>) else None)"
| "loop_step (PollIO acts) s =
     (if lp_pc s = InPoll then Some (s\<lparr>lp_pc := InHandlers, lp_wake_ready := (lp_counter s > 0), lp_work := acts\<rparr>) else None)"
| "loop_step PollTimeout s =
     (if lp_pc s = InPoll \<and> lp_counter s = 0 then Some (s\<lparr>lp_pc := InHandlers\<rparr>) else None)"
| "loop_step HandleWake s =
     (if lp_pc s = InHandlers \<and> lp_wake_ready s then Some ((loop_handleRead s)\<lparr>lp_wake_ready := False\<rparr>) else None)"
| "loop_step DoAct s =
     (if lp_pc s \<in> {Before, InHandlers, InPending} then
        (case lp_work s of [] \<Rightarrow> None | a # as \<Rightarrow> Some (do_act a (s\<lparr>lp_work := as\<rparr>)))
      else None)"
| "loop_step HandlersDone s =
     (if lp_pc s = InHandlers \<and> lp_work s = [] \<and> \<not> lp_wake_ready s
      then Some (s\<lparr>lp_pc := AtSwap, lp_callingPending := True\<rparr>) else None)"
| "loop_step Swap s =
     (if lp_pc s = AtSwap
      then Some (s\<lparr>lp_pc := InPending, lp_batch := lp_pending s, lp_pending := [], lp_early := False\<rparr>) else None)"
| "loop_step NextFunc s =
     (if lp_pc s = InPending \<and> lp_work s = [] then
        (case lp_batch s of [] \<Rightarrow> None
         | t # ts \<Rightarrow> Some (s\<lparr>lp_batch := ts, lp_work := task_body t, lp_started := lp_started s @ [task_id t]\<rparr>))
      else None)"
| "loop_step PendingDone s =
     (if lp_pc s = InPending \<and> lp_work s = [] \<and> lp_batch s = []
      then Some (s\<lparr>lp_pc := AtTest, lp_callingPending := False\<rparr>) else None)"
| "loop_step (OtherPush t) s = Some ((push_pending t s)\<lparr>lp_owed := lp_owed s + 1\<rparr>)"
| "loop_step OtherWake s = (if lp_owed s > 0 then Some ((wakeup s)\<lparr>lp_owed := lp_owed s - 1\<rparr>) else None)"
| "loop_step OtherQuit s = Some (s\<lparr>lp_quit := True, lp_owed := lp_owed s + 1\<rparr>)"

fun loop_run :: "loop_label list \<Rightarrow> event_loop \<Rightarrow> event_loop option" where
  "loop_run [] s = Some s"
| "loop_run (l # ls) s = (case loop_step l s of None \<Rightarrow> None | Some s' \<Rightarrow> loop_run ls s')"

inductive loop_reach :: "event_loop \<Rightarrow> bool" where
  start: "loop_reach (new_loop init)"
| step: "loop_reach s \<Longrightarrow> loop_step l s = Some s' \<Longrightarrow> loop_reach s'"

lemmas loop_defs = queueInLoop_def push_pending_def needs_wakeup_def wakeup_def loop_handleRead_def loop_quit_def

section \<open>The invariant\<close>

text \<open>Work that is pending while the loop is past the swap comes with a wake-up that has happened or is
  owed; so does a request to quit while the loop is in \<^verbatim>\<open>poll\<close>.\<close>

definition ctl_inv :: "event_loop \<Rightarrow> bool" where
  "ctl_inv s \<longleftrightarrow> lp_callingPending s = (lp_pc s = AtSwap \<or> lp_pc s = InPending)
     \<and> (lp_work s \<noteq> [] \<longrightarrow> lp_pc s = Before \<or> lp_pc s = InHandlers \<or> lp_pc s = InPending)
     \<and> (lp_batch s \<noteq> [] \<longrightarrow> lp_pc s = InPending) \<and> (lp_wake_ready s \<longrightarrow> lp_pc s = InHandlers)"

definition awake :: "event_loop \<Rightarrow> bool" where
  "awake s \<longleftrightarrow> lp_counter s > 0 \<or> lp_owed s > 0"

definition wake_inv :: "event_loop \<Rightarrow> bool" where
  "wake_inv s \<longleftrightarrow> (lp_pending s \<noteq> [] \<longrightarrow> awake s \<or> lp_early s \<or> lp_pc s = InHandlers \<or> lp_pc s = AtSwap)
     \<and> (lp_pc s = InPoll \<longrightarrow> lp_quit s \<longrightarrow> awake s) \<and> (lp_early s \<longrightarrow> lp_pc s \<noteq> InPending)"

definition hist_inv :: "event_loop \<Rightarrow> bool" where
  "hist_inv s \<longleftrightarrow> lp_started s @ map task_id (lp_batch s) @ map task_id (lp_pending s) = lp_queued s"

lemma act_step:
  assumes "loop_step DoAct s = Some s'"
  obtains a as where "lp_work s = a # as" "s' = do_act a (s\<lparr>lp_work := as\<rparr>)"
    "lp_pc s = Before \<or> lp_pc s = InHandlers \<or> lp_pc s = InPending"
  using assms by (auto split: if_splits list.splits)

lemma ctl_inv_step:
  assumes s: "ctl_inv s" "loop_step l s = Some s'" shows "ctl_inv s'"
proof (cases "l = DoAct")
  case True
  then obtain a as where a: "lp_work s = a # as" "s' = do_act a (s\<lparr>lp_work := as\<rparr>)"
    "lp_pc s = Before \<or> lp_pc s = InHandlers \<or> lp_pc s = InPending"
    using act_step s(2) by metis
  show ?thesis using s(1) a by (cases a) (auto simp: ctl_inv_def loop_defs Let_def)
next
  case False
  with s show ?thesis by (cases l; (auto simp: ctl_inv_def loop_defs split: if_splits list.splits)[1])
qed

lemma hist_inv_step:
  assumes s: "ctl_inv s" "hist_inv s" "loop_step l s = Some s'" shows "hist_inv s'"
proof (cases "l = DoAct")
  case True
  then obtain a as where a: "lp_work s = a # as" "s' = do_act a (s\<lparr>lp_work := as\<rparr>)"
    using act_step s(3) by metis
  show ?thesis using s(2) a by (cases a) (auto simp: hist_inv_def loop_defs Let_def)
next
  case False
  with s show ?thesis by (cases l; (auto simp: hist_inv_def ctl_inv_def loop_defs split: if_splits list.splits)[1])
qed

lemma wake_inv_step:
  assumes s: "ctl_inv s" "wake_inv s" "loop_step l s = Some s'" shows "wake_inv s'"
proof (cases "l = DoAct")
  case True
  then obtain a as where a: "lp_work s = a # as" "s' = do_act a (s\<lparr>lp_work := as\<rparr>)"
    "lp_pc s = Before \<or> lp_pc s = InHandlers \<or> lp_pc s = InPending"
    using act_step s(3) by metis
  show ?thesis using s(1,2) a by (cases a) (auto simp: wake_inv_def ctl_inv_def awake_def loop_defs Let_def)
next
  case False
  with s(2,3) show ?thesis by (cases l; (auto simp: wake_inv_def awake_def loop_defs split: if_splits list.splits)[1])
qed

definition loop_inv :: "event_loop \<Rightarrow> bool" where
  "loop_inv s \<longleftrightarrow> ctl_inv s \<and> wake_inv s \<and> hist_inv s"

lemma loop_inv_step: "loop_inv s \<Longrightarrow> loop_step l s = Some s' \<Longrightarrow> loop_inv s'"
  using ctl_inv_step hist_inv_step wake_inv_step unfolding loop_inv_def by blast

lemma loop_reach_inv: "loop_reach s \<Longrightarrow> loop_inv s"
proof (induction rule: loop_reach.induct)
  case (start init)
  then show ?case by (simp add: loop_inv_def ctl_inv_def wake_inv_def hist_inv_def new_loop_def)
next
  case (step s l s')
  then show ?case by (blast intro: loop_inv_step)
qed


section \<open>The loop thread on its own\<close>

text \<open>The next step of the loop thread when no other thread interferes and no other channel is active.\<close>

definition own_label :: "event_loop \<Rightarrow> loop_label" where
  "own_label s = (case lp_pc s of
     Before \<Rightarrow> if lp_work s = [] then Enter else DoAct
   | AtTest \<Rightarrow> Test
   | InPoll \<Rightarrow> if lp_counter s > 0 then PollWake [] else PollTimeout
   | InHandlers \<Rightarrow> if lp_wake_ready s then HandleWake else if lp_work s \<noteq> [] then DoAct else HandlersDone
   | AtSwap \<Rightarrow> Swap
   | InPending \<Rightarrow> if lp_work s \<noteq> [] then DoAct else if lp_batch s \<noteq> [] then NextFunc else PendingDone
   | Gone \<Rightarrow> Test)"

definition own_step :: "event_loop \<Rightarrow> event_loop" where
  "own_step s = (case loop_step (own_label s) s of Some s' \<Rightarrow> s' | None \<Rightarrow> s)"

fun own_run :: "nat \<Rightarrow> event_loop \<Rightarrow> event_loop" where
  "own_run 0 s = s"
| "own_run (Suc n) s = own_run n (own_step s)"

lemma own_run_add: "own_run (m + n) s = own_run n (own_run m s)"
  by (induction m arbitrary: s) auto

lemma own_enabled: "lp_pc s \<noteq> Gone \<Longrightarrow> loop_step (own_label s) s = Some (own_step s)"
  by (cases "lp_pc s") (auto simp: own_step_def own_label_def split: list.splits)

lemma own_step_reach: "loop_reach s \<Longrightarrow> loop_reach (own_step s)"
  using loop_reach.step [of s "own_label s"] by (auto simp: own_step_def split: option.splits)

lemma own_run_reach: "loop_reach s \<Longrightarrow> loop_reach (own_run n s)"
  by (induction n arbitrary: s) (auto intro: own_step_reach)

text \<open>What callbacks leave alone.\<close>

definition extends :: "event_loop \<Rightarrow> event_loop \<Rightarrow> bool" where
  "extends s s' \<longleftrightarrow> lp_pc s' = lp_pc s \<and> lp_batch s' = lp_batch s \<and> lp_started s' = lp_started s
     \<and> lp_wake_ready s' = lp_wake_ready s \<and> (lp_quit s \<longrightarrow> lp_quit s') \<and> prefix (lp_queued s) (lp_queued s')"

lemma extends_refl [simp]: "extends s s"
  by (simp add: extends_def)

lemma extends_trans: "extends s t \<Longrightarrow> extends t u \<Longrightarrow> extends s u"
  unfolding extends_def by (metis prefix_order.trans)

lemma do_act_extends: "extends s (do_act a (s\<lparr>lp_work := as\<rparr>))"
  by (cases a) (simp_all add: extends_def loop_defs Let_def)

definition work_size :: "act list \<Rightarrow> nat" where
  "work_size as = sum_list (map (\<lambda>a. Suc (size a)) as)"

lemma do_act_work: "work_size (lp_work (do_act a (s\<lparr>lp_work := as\<rparr>))) < work_size (a # as)"
proof (cases a)
  case (ActRun t)
  have "sum_list (map (\<lambda>a. Suc (size a)) bs) = size_list size bs" for bs :: "act list"
    by (induction bs) auto
  then show ?thesis using ActRun by (cases t) (simp add: work_size_def)
qed (auto simp: work_size_def loop_defs Let_def)

text \<open>The callbacks that run come to their end.\<close>

lemma work_ends:
  assumes "lp_pc s = InHandlers \<and> \<not> lp_wake_ready s \<or> lp_pc s = InPending"
  shows "\<exists>n. extends s (own_run n s) \<and> lp_work (own_run n s) = []"
  using assms
proof (induction "work_size (lp_work s)" arbitrary: s rule: less_induct)
  case less
  show ?case
  proof (cases "lp_work s")
    case Nil
    then show ?thesis by (intro exI [of _ 0]) simp
  next
    case (Cons a as)
    let ?t = "do_act a (s\<lparr>lp_work := as\<rparr>)"
    have t: "own_step s = ?t" using Cons less.prems by (auto simp: own_step_def own_label_def)
    have e: "extends s ?t" by (rule do_act_extends)
    then have "lp_pc ?t = InHandlers \<and> \<not> lp_wake_ready ?t \<or> lp_pc ?t = InPending" using less.prems by (simp add: extends_def)
    then obtain n where "extends ?t (own_run n ?t)" "lp_work (own_run n ?t) = []"
      using less.hyps [of ?t] do_act_work [where a = a and s = s and as = as] Cons by auto
    then show ?thesis using e t extends_trans by (intro exI [of _ "Suc n"]) auto
  qed
qed

text \<open>So do the functions of a batch.\<close>

lemma batch_ends:
  assumes "lp_pc s = InPending"
  shows "\<exists>n. lp_pc (own_run n s) = AtTest \<and> lp_started (own_run n s) = lp_started s @ map task_id (lp_batch s)
    \<and> (lp_quit s \<longrightarrow> lp_quit (own_run n s))"
  using assms
proof (induction "lp_batch s" arbitrary: s)
  case Nil
  obtain n where n: "extends s (own_run n s)" "lp_work (own_run n s) = []" using work_ends [of s] Nil.prems by blast
  let ?t = "own_run n s"
  have "own_step ?t = ?t\<lparr>lp_pc := AtTest, lp_callingPending := False\<rparr>"
    using n Nil by (simp add: own_step_def own_label_def extends_def)
  then show ?case using n Nil own_run_add [of n 1 s] by (intro exI [of _ "n + 1"]) (simp add: extends_def)
next
  case (Cons t ts)
  obtain n where n: "extends s (own_run n s)" "lp_work (own_run n s) = []" using work_ends [of s] Cons.prems by blast
  let ?t = "own_run n s"
  let ?u = "?t\<lparr>lp_batch := ts, lp_work := task_body t, lp_started := lp_started ?t @ [task_id t]\<rparr>"
  have u: "own_step ?t = ?u" using n Cons.prems Cons.hyps(2) [symmetric] by (simp add: own_step_def own_label_def extends_def)
  have "lp_pc ?u = InPending" "ts = lp_batch ?u" using n Cons.prems by (simp_all add: extends_def)
  then obtain m where m: "lp_pc (own_run m ?u) = AtTest" "lp_started (own_run m ?u) = lp_started ?u @ map task_id ts"
      "lp_quit ?u \<longrightarrow> lp_quit (own_run m ?u)"
    using Cons.hyps(1) [of ?u] by auto
  have "own_run (n + Suc m) s = own_run m ?u" using u own_run_add [of n "Suc m" s] by simp
  then show ?case using m n Cons.hyps(2) [symmetric] by (intro exI [of _ "n + Suc m"]) (simp add: extends_def)
qed

text \<open>And a whole round: from the handlers on, every function queued so far is entered.\<close>

lemma round_ends:
  assumes "lp_pc s = InHandlers" "hist_inv s" "ctl_inv s"
  shows "\<exists>n. lp_pc (own_run n s) = AtTest \<and> prefix (lp_queued s) (lp_started (own_run n s)) \<and> (lp_quit s \<longrightarrow> lp_quit (own_run n s))"
proof -
  let ?r = "if lp_wake_ready s then own_step s else s"
  have r: "\<exists>k. ?r = own_run k s" by (cases "lp_wake_ready s") (auto intro: exI [of _ 1] exI [of _ 0])
  have r': "lp_pc ?r = InHandlers" "\<not> lp_wake_ready ?r" "lp_queued ?r = lp_queued s" "lp_quit ?r = lp_quit s"
    "hist_inv ?r" "ctl_inv ?r"
    using assms by (auto simp: own_step_def own_label_def loop_handleRead_def hist_inv_def ctl_inv_def)
  obtain n where n: "extends ?r (own_run n ?r)" "lp_work (own_run n ?r) = []" using work_ends [of ?r] r' by blast
  let ?t = "own_run n ?r"
  have "hist_inv ?t \<and> ctl_inv ?t"
  proof -
    have "ctl_inv s \<and> hist_inv s \<longrightarrow> ctl_inv (own_step s) \<and> hist_inv (own_step s)" for s
      using ctl_inv_step hist_inv_step by (auto simp: own_step_def split: option.splits)
    then have "ctl_inv s \<and> hist_inv s \<longrightarrow> ctl_inv (own_run m s) \<and> hist_inv (own_run m s)" for m s
      by (induction m arbitrary: s) auto
    with r' show ?thesis by blast
  qed
  then have t: "hist_inv ?t" "lp_batch ?t = []" using n r' by (auto simp: ctl_inv_def extends_def)
  let ?u = "?t\<lparr>lp_pc := AtSwap, lp_callingPending := True\<rparr>"
  let ?v = "?u\<lparr>lp_pc := InPending, lp_batch := lp_pending ?t, lp_pending := [], lp_early := False\<rparr>"
  have "own_step ?t = ?u" "own_step ?u = ?v"
    using n r' by (simp_all add: own_step_def own_label_def extends_def)
  then have v: "own_run (n + 2) ?r = ?v" using own_run_add [of n 2 ?r] by (simp add: numeral_2_eq_2)
  obtain m where m: "lp_pc (own_run m ?v) = AtTest" "lp_started (own_run m ?v) = lp_started ?v @ map task_id (lp_batch ?v)"
      "lp_quit ?v \<longrightarrow> lp_quit (own_run m ?v)"
    using batch_ends [of ?v] by auto
  have "lp_started (own_run m ?v) = lp_queued ?t" using m(2) t by (simp add: hist_inv_def)
  moreover obtain k where k: "?r = own_run k s" using r by blast
  have "own_run (k + ((n + 2) + m)) s = own_run m ?v"
    unfolding own_run_add [of k "(n + 2) + m"] k [symmetric] own_run_add [of "n + 2" m] v ..
  ultimately show ?thesis using m(1,3) n(1) r'
    by (intro exI [of _ "k + ((n + 2) + m)"]) (auto simp: extends_def)
qed

section \<open>\<open>EventLoopThreadPool\<close>\<close>

record loop_pool =
  elp_baseLoop :: nat
  elp_started :: bool
  elp_threadNums :: int
  elp_next :: int
  elp_loops :: "nat list"

definition new_loop_pool :: "nat \<Rightarrow> loop_pool" where
  "new_loop_pool base = \<lparr>elp_baseLoop = base, elp_started = False, elp_threadNums = 0, elp_next = - 1, elp_loops = []\<rparr>"

definition setThreadNum :: "int \<Rightarrow> loop_pool \<Rightarrow> loop_pool" where
  "setThreadNum nums p = p\<lparr>elp_threadNums := nums\<rparr>"

text \<open>\<^verbatim>\<open>start\<close>, where the \<open>i\<close>-th thread it starts brings up the loop \<open>spawn i\<close>; the result says whether
  the callback is run on the base loop.\<close>

definition elp_start :: "(nat \<Rightarrow> nat) \<Rightarrow> bool \<Rightarrow> loop_pool \<Rightarrow> bool \<times> loop_pool" where
  "elp_start spawn has_callback p =
     (elp_threadNums p = 0 \<and> has_callback,
      p\<lparr>elp_started := True, elp_loops := elp_loops p @ map spawn [0..<nat (elp_threadNums p)]\<rparr>)"

definition getNextLoop :: "bool \<Rightarrow> loop_pool \<Rightarrow> cpp_error + (nat \<times> loop_pool)" where
  "getNextLoop in_base_thread p =
     (if \<not> in_base_thread then Inl AssertFail
      else if elp_loops p = [] then Inr (elp_baseLoop p, p\<lparr>elp_next := 0\<rparr>)
      else if elp_threadNums p = 0 then Inl DivByZero
      else
        (let next = (elp_next p + 1) mod elp_threadNums p; p = p\<lparr>elp_next := next\<rparr> in
         if 0 \<le> next \<and> nat next < length (elp_loops p) then Inr (elp_loops p ! nat next, p) else Inl OutOfBounds))"

definition getAllLoops :: "loop_pool \<Rightarrow> nat list" where
  "getAllLoops p = (if elp_loops p = [] then [elp_baseLoop p] else elp_loops p)"

fun next_loops :: "nat \<Rightarrow> loop_pool \<Rightarrow> cpp_error + nat list" where
  "next_loops 0 p = Inr []"
| "next_loops (Suc k) p =
     ebind (getNextLoop True p) (\<lambda>(l, p). ebind (next_loops k p) (\<lambda>ls. Inr (l # ls)))"

lemma next_loops_from:
  assumes "elp_loops p \<noteq> []" "elp_threadNums p = int (length (elp_loops p))" "elp_next p = int j - 1"
  shows "next_loops k p = Inr (map (\<lambda>i. elp_loops p ! ((j + i) mod length (elp_loops p))) [0..<k])"
  using assms
proof (induction k arbitrary: p j)
  case (Suc k)
  let ?n = "length (elp_loops p)"
  have n: "0 < ?n" using Suc.prems by simp
  let ?p = "p\<lparr>elp_next := int (j mod ?n)\<rparr>"
  have "(elp_next p + 1) mod elp_threadNums p = int (j mod ?n)" using Suc.prems by (simp add: zmod_int)
  then have g: "getNextLoop True p = Inr (elp_loops p ! (j mod ?n), ?p)"
    using Suc.prems n by (simp add: getNextLoop_def Let_def)
  have "next_loops k ?p = Inr (map (\<lambda>i. elp_loops p ! ((j mod ?n + 1 + i) mod ?n)) [0..<k])"
    using Suc.IH [of ?p "j mod ?n + 1"] Suc.prems by simp
  moreover have "(j mod ?n + 1 + i) mod ?n = (j + Suc i) mod ?n" for i
  proof -
    have "(j mod ?n + 1 + i) mod ?n = (j mod ?n + (1 + i)) mod ?n" by (simp only: add.assoc)
    also have "\<dots> = (j + (1 + i)) mod ?n" by (rule mod_add_left_eq)
    finally show ?thesis by simp
  qed
  moreover have "[0..<Suc k] = 0 # map Suc [0..<k]" by (simp add: map_Suc_upt upt_conv_Cons del: upt_Suc)
  ultimately show ?case using g by (simp add: comp_def)
qed simp

lemma loop_run_reach: "loop_reach s \<Longrightarrow> loop_run ls s = Some s' \<Longrightarrow> loop_reach s'"
  by (induction ls arbitrary: s) (auto split: option.splits intro: loop_reach.step)

section \<open>The loop as a first-in first-out service\<close>

lemma loop_histories_grow:
  assumes "loop_step l s = Some s'"
  shows "prefix (lp_queued s) (lp_queued s') \<and> prefix (lp_started s) (lp_started s')"
proof (cases "l = DoAct")
  case True
  then obtain a as where a: "s' = do_act a (s\<lparr>lp_work := as\<rparr>)" using act_step assms by metis
  from do_act_extends [of s a as] show ?thesis unfolding a [symmetric] by (simp add: extends_def)
next
  case False
  with assms show ?thesis by (cases l; (auto simp: loop_defs split: if_splits list.splits)[1])
qed

interpretation lf: fifo_service loop_reach "\<lambda>s s'. \<exists>l. loop_step l s = Some s'" lp_queued lp_started
  "\<lambda>s. map task_id (lp_batch s) @ map task_id (lp_pending s)"
proof
  show "lp_queued s = lp_started s @ map task_id (lp_batch s) @ map task_id (lp_pending s)" if "loop_reach s" for s
    using loop_reach_inv [OF that] by (simp add: loop_inv_def hist_inv_def)
qed (auto intro: loop_reach.step dest: loop_histories_grow)

lemma loop_run_moves: "loop_run ls s = Some s' \<Longrightarrow> (\<lambda>s s'. \<exists>l. loop_step l s = Some s')\<^sup>*\<^sup>* s s'"
proof (induction ls arbitrary: s)
  case (Cons l ls)
  then obtain t where t: "loop_step l s = Some t" "loop_run ls t = Some s'" by (auto split: option.splits)
  with Cons.IH [of t] show ?case by (blast intro: converse_rtranclp_into_rtranclp)
qed simp

text \<open>A function queued by another thread while the loop sleeps.\<close>

definition asleep_with_work :: event_loop where
  "asleep_with_work = the (loop_run [Enter, Test, OtherPush (Task 7 [ActQueue (Task 8 [])]), OtherWake] (new_loop []))"

lemma asleep_facts:
  "loop_reach asleep_with_work" "lp_pc asleep_with_work = InPoll" "lp_owed asleep_with_work = 0"
  "lp_counter asleep_with_work = 1" "map task_id (lp_pending asleep_with_work) = [7]" "lp_early asleep_with_work = False"
  "lp_queued asleep_with_work = [7]"
proof -
  let ?ls = "[Enter, Test, OtherPush (Task 7 [ActQueue (Task 8 [])]), OtherWake]"
  have r: "loop_run ?ls (new_loop []) = Some asleep_with_work"
    by (simp add: asleep_with_work_def new_loop_def loop_defs)
  show "loop_reach asleep_with_work" by (rule loop_run_reach [OF loop_reach.start r])
  show "lp_pc asleep_with_work = InPoll" "lp_owed asleep_with_work = 0" "lp_counter asleep_with_work = 1"
    "map task_id (lp_pending asleep_with_work) = [7]" "lp_early asleep_with_work = False" "lp_queued asleep_with_work = [7]"
    by (simp_all add: asleep_with_work_def new_loop_def loop_defs)
qed

section \<open>Properties\<close>





text \<open>Functions that are pending while the loop sleeps in \<^verbatim>\<open>poll\<close> do get run: once the wake-up is
  there, the loop thread needs nothing but its own steps to enter every function queued before and to
  come back to the test of \<^verbatim>\<open>_quit\<close>, whatever the functions queue and run in turn; and if it has been
  told to quit by then, it leaves \<^verbatim>\<open>loop()\<close>.\<close>

theorem round_runs_pending:
  assumes "loop_reach s" "lp_pc s = InPoll" "0 < lp_counter s"
  shows "\<exists>n. lp_pc (own_run n s) = AtTest \<and> prefix (lp_queued s) (lp_started (own_run n s))
    \<and> (lp_quit s \<longrightarrow> lp_pc (own_run (n + 1) s) = Gone)"
proof -
  let ?t = "s\<lparr>lp_pc := InHandlers, lp_wake_ready := True, lp_work := []\<rparr>"
  have t: "own_step s = ?t" using assms by (simp add: own_step_def own_label_def)
  then have "loop_reach ?t" using own_step_reach [OF assms(1)] by simp
  then have "hist_inv ?t" "ctl_inv ?t" using loop_reach_inv [of ?t] by (simp_all add: loop_inv_def)
  then obtain n where n: "lp_pc (own_run n ?t) = AtTest" "prefix (lp_queued ?t) (lp_started (own_run n ?t))"
      "lp_quit ?t \<longrightarrow> lp_quit (own_run n ?t)"
    using round_ends [of ?t] by auto
  have "own_run (Suc n + 1) s = own_step (own_run n ?t)" using own_run_add [of "Suc n" 1 s] t by simp
  moreover have "lp_quit s \<longrightarrow> lp_pc (own_step (own_run n ?t)) = Gone"
    using n(1,3) by (simp add: own_step_def own_label_def)
  ultimately have "lp_quit s \<longrightarrow> lp_pc (own_run (Suc n + 1) s) = Gone" by (simp only:)
  moreover have "own_run (Suc n) s = own_run n ?t" by (simp add: t)
  moreover have "prefix (lp_queued s) (lp_started (own_run n ?t))" using n(2) by simp
  ultimately show ?thesis using n(1) by (intro exI [of _ "Suc n"]) (simp only: simp_thms)
qed

theorem round_runs_pending_witness:
  "\<exists>n. lp_pc (own_run n asleep_with_work) = AtTest \<and> prefix [7] (lp_started (own_run n asleep_with_work))"
  using round_runs_pending [OF asleep_facts(1,2)] asleep_facts(4,7) by auto

text \<open>A request to quit that another thread makes before the loop thread has entered \<^verbatim>\<open>loop()\<close> is lost,
  because \<^verbatim>\<open>loop()\<close> clears \<^verbatim>\<open>_quit\<close>: the loop goes to sleep in \<^verbatim>\<open>poll\<close>, and a round later, with no
  request left, it does so again. (A thread that then joins the loop thread, as
  \<^verbatim>\<open>~EventLoopThread\<close> does, waits for ever.)\<close>

theorem quit_before_loop_lost:
  assumes "lp_pc s = Before" "lp_work s = []" "lp_pending s = []" "lp_batch s = []"
  shows "\<exists>t u. loop_run [OtherQuit, OtherWake, Enter, Test] s = Some t \<and> lp_pc t = InPoll \<and> \<not> lp_quit t
    \<and> loop_run [PollWake [], HandleWake, HandlersDone, Swap, PendingDone, Test] t = Some u
    \<and> lp_pc u = InPoll \<and> lp_counter u = 0 \<and> lp_owed u = lp_owed s \<and> \<not> lp_quit u"
  using assms by (simp add: loop_defs)

theorem quit_before_loop_lost_witness:
  "\<exists>t. loop_run [OtherQuit, OtherWake, Enter, Test] (new_loop []) = Some t \<and> lp_pc t = InPoll \<and> \<not> lp_quit t"
proof -
  have "lp_pc (new_loop []) = Before" "lp_work (new_loop []) = []" "lp_pending (new_loop []) = []" "lp_batch (new_loop []) = []"
    by (simp_all add: new_loop_def)
  from quit_before_loop_lost [OF this] show ?thesis by blast
qed

text \<open>\<^verbatim>\<open>getNextLoop\<close> hands out the loops of the started pool in turn: the \<open>k\<close>-th call gets loop \<open>k mod n\<close>,
  and without threads every call gets the base loop.\<close>

theorem round_robin:
  assumes "0 \<le> n"
  shows "next_loops k (snd (elp_start spawn cb (setThreadNum n (new_loop_pool base))))
    = Inr (map (\<lambda>i. if n = 0 then base else spawn (i mod nat n)) [0..<k])"
proof (cases "n = 0")
  case True
  have "elp_loops p = [] \<Longrightarrow> next_loops k p = Inr (map (\<lambda>i. elp_baseLoop p) [0..<k])" for p
  proof (induction k arbitrary: p)
    case (Suc k)
    have "[0..<Suc k] = 0 # map Suc [0..<k]" by (simp add: map_Suc_upt upt_conv_Cons del: upt_Suc)
    then show ?case using Suc by (simp add: getNextLoop_def comp_def del: upt_Suc)
  qed simp
  with True show ?thesis by (simp add: elp_start_def setThreadNum_def new_loop_pool_def)
next
  case False
  let ?p = "snd (elp_start spawn cb (setThreadNum n (new_loop_pool base)))"
  have p: "elp_loops ?p = map spawn [0..<nat n]" "elp_threadNums ?p = n" "elp_next ?p = int 0 - 1"
    by (simp_all add: elp_start_def setThreadNum_def new_loop_pool_def)
  have "next_loops k ?p = Inr (map (\<lambda>i. elp_loops ?p ! ((0 + i) mod length (elp_loops ?p))) [0..<k])"
    by (rule next_loops_from) (use False assms p in auto)
  moreover have "elp_loops ?p ! ((0 + i) mod length (elp_loops ?p)) = (if n = 0 then base else spawn (i mod nat n))" for i
  proof -
    have "i mod nat n < nat n" using False assms by simp
    then show ?thesis using False unfolding p(1) by simp
  qed
  ultimately show ?thesis by (simp only:)
qed

theorem round_robin_witness:
  "next_loops 5 (snd (elp_start (\<lambda>i. 10 + i) False (setThreadNum 3 (new_loop_pool 0)))) = Inr [10, 11, 12, 10, 11]"
  using round_robin [of 3 5 "\<lambda>i. 10 + i" False 0] by (simp add: upt_rec)

end
