(* ===== verification/TcpServer.thy ===== *)
theory TcpServer
  imports TcpConn EventLoop CppStrings
begin

text \<open>
  \<^verbatim>\<open>TcpServer\<close> (include/net/tcp_server.h, src/net/tcp_server.cpp) and \<^verbatim>\<open>Acceptor\<close>
  (src/net/acceptor.cpp) over the connections of TcpConn and the loop pool of EventLoop. The base loop
  accepts and removes connections, the sub loops run them; what one queues for the other waits in a
  queue per loop, and the steps of all loops interleave. A connection object is a number; the table of
  objects is the heap, the map of the server the names it holds.
\<close>

section \<open>State\<close>

datatype sub_task = TEstablish (st_conn: nat) | TDestroy (st_conn: nat)

record tcp_server =
  sv_name :: bytes
  sv_started :: nat
  sv_listening :: bool
  sv_pool :: loop_pool
  sv_has_wcb :: bool
  sv_nextConnId :: nat               \<comment> \<open>\<^verbatim>\<open>_nextConnId\<close> before its wrap to 32 bits\<close>
  sv_connections :: "bytes \<rightharpoonup> nat"
  sv_conns :: "nat \<rightharpoonup> tcp_conn"      \<comment> \<open>the connection objects\<close>
  sv_conn_name :: "nat \<Rightarrow> bytes"
  sv_conn_loop :: "nat \<Rightarrow> nat"
  sv_base_queue :: "nat list"        \<comment> \<open>\<^verbatim>\<open>removeConnectionInLoop\<close> calls queued in the base loop\<close>
  sv_sub_queue :: "nat \<Rightarrow> sub_task list"

definition new_server :: "bytes \<Rightarrow> nat \<Rightarrow> bool \<Rightarrow> tcp_server" where
  "new_server name base wcb = \<lparr>sv_name = name, sv_started = 0, sv_listening = False, sv_pool = new_loop_pool base,
     sv_has_wcb = wcb, sv_nextConnId = 1, sv_connections = Map.empty, sv_conns = Map.empty, sv_conn_name = (\<lambda>_. []),
     sv_conn_loop = (\<lambda>_. 0), sv_base_queue = [], sv_sub_queue = (\<lambda>_. [])\<rparr>"

definition sv_baseLoop :: "tcp_server \<Rightarrow> nat" where
  "sv_baseLoop s = elp_baseLoop (sv_pool s)"

definition sv_setThreadNum :: "int \<Rightarrow> tcp_server \<Rightarrow> tcp_server" where
  "sv_setThreadNum nums s = s\<lparr>sv_pool := setThreadNum nums (sv_pool s)\<rparr>"

definition acceptor_listen :: "tcp_server \<Rightarrow> tcp_server" where
  "acceptor_listen s = s\<lparr>sv_listening := True\<rparr>"

definition sv_start :: "(nat \<Rightarrow> nat) \<Rightarrow> bool \<Rightarrow> tcp_server \<Rightarrow> tcp_server" where
  "sv_start spawn has_init s =
     (if sv_started s > 0 then s
      else acceptor_listen (s\<lparr>sv_started := sv_started s + 1, sv_pool := snd (elp_start spawn has_init (sv_pool s))\<rparr>))"

section \<open>The map of connections\<close>

definition addConnection :: "bytes \<Rightarrow> nat \<Rightarrow> tcp_server \<Rightarrow> tcp_server" where
  "addConnection name i s = s\<lparr>sv_connections := (sv_connections s)(name \<mapsto> i)\<rparr>"

definition getConnection :: "bytes \<Rightarrow> tcp_server \<Rightarrow> nat option" where
  "getConnection name s = sv_connections s name"

definition delConnection :: "bytes \<Rightarrow> tcp_server \<Rightarrow> tcp_server" where
  "delConnection name s = s\<lparr>sv_connections := (sv_connections s)(name := None)\<rparr>"

section \<open>Accepting\<close>

definition conn_name :: "bytes \<Rightarrow> bytes \<Rightarrow> nat \<Rightarrow> bytes" where
  "conn_name server peer k =
     server @ ''-'' @ peer @ [CHR 0x23] @ to_dec_int (sint (of_nat k :: 32 word))"

definition sub_queueInLoop :: "nat \<Rightarrow> sub_task \<Rightarrow> tcp_server \<Rightarrow> tcp_server" where
  "sub_queueInLoop l t s = s\<lparr>sv_sub_queue := (sv_sub_queue s)(l := sv_sub_queue s l @ [t])\<rparr>"

definition set_conn :: "nat \<Rightarrow> tcp_conn \<Rightarrow> tcp_server \<Rightarrow> tcp_server" where
  "set_conn i c s = s\<lparr>sv_conns := (sv_conns s)(i \<mapsto> c)\<rparr>"

definition conn_of :: "tcp_server \<Rightarrow> nat \<Rightarrow> tcp_conn" where
  "conn_of s i = (case sv_conns s i of Some c \<Rightarrow> c | None \<Rightarrow> new_conn i 0 False)"

text \<open>A task of a sub loop: a member function of a connection.\<close>

definition run_sub_task :: "sub_task \<Rightarrow> tcp_server \<Rightarrow> tcp_server" where
  "run_sub_task t s =
     (case t of TEstablish i \<Rightarrow> set_conn i (connectEstablished (conn_of s i)) s
              | TDestroy i \<Rightarrow> set_conn i (connectDestroyed (conn_of s i)) s)"

text \<open>\<^verbatim>\<open>newConnection\<close>, in the base loop. \<^verbatim>\<open>runInLoop\<close> on the sub loop runs the task at once when the
  sub loop is the base loop itself.\<close>

definition newConnection :: "int \<Rightarrow> bytes \<Rightarrow> tcp_server \<Rightarrow> cpp_error + tcp_server" where
  "newConnection sockfd peer s =
     (let k = sv_nextConnId s; name = conn_name (sv_name s) peer k; s = s\<lparr>sv_nextConnId := k + 1\<rparr> in
      ebind (getNextLoop True (sv_pool s)) (\<lambda>(sub_loop, pool).
        let s = s\<lparr>sv_pool := pool, sv_conns := (sv_conns s)(k \<mapsto> new_conn k sockfd (sv_has_wcb s)),
                  sv_conn_name := (sv_conn_name s)(k := name), sv_conn_loop := (sv_conn_loop s)(k := sub_loop)\<rparr>;
            s = addConnection name k s
        in Inr (if sub_loop = sv_baseLoop s then run_sub_task (TEstablish k) s
                else sub_queueInLoop sub_loop (TEstablish k) s)))"

definition acceptor_handleRead :: "int \<Rightarrow> bytes \<Rightarrow> tcp_server \<Rightarrow> cpp_error + tcp_server" where
  "acceptor_handleRead connfd peer s = (if connfd < 0 then Inr s else newConnection connfd peer s)"

section \<open>Removing\<close>

definition removeConnectionInLoop :: "nat \<Rightarrow> tcp_server \<Rightarrow> tcp_server" where
  "removeConnectionInLoop i s =
     sub_queueInLoop (sv_conn_loop s i) (TDestroy i) (delConnection (sv_conn_name s i) s)"

definition removeConnection :: "nat \<Rightarrow> tcp_server \<Rightarrow> tcp_server" where
  "removeConnection i s =
     (if sv_conn_loop s i = sv_baseLoop s then removeConnectionInLoop i s
      else s\<lparr>sv_base_queue := sv_base_queue s @ [i]\<rparr>)"

section \<open>Steps\<close>

text \<open>A step of a connection on its own (anything but being established or destroyed); the close
  callback is the server's \<^verbatim>\<open>removeConnection\<close>.\<close>

definition close_calls :: "tcp_conn \<Rightarrow> nat" where
  "close_calls c = count_list (tc_log c) NClose"

definition own_conn_label :: "conn_label \<Rightarrow> bool" where
  "own_conn_label l \<longleftrightarrow> (case l of Establish \<Rightarrow> False | Destroy \<Rightarrow> False | _ \<Rightarrow> True)"

datatype sv_label = Accept int bytes | BaseTask | SubTask nat | Conn nat conn_label

fun sv_step :: "sv_label \<Rightarrow> tcp_server \<Rightarrow> tcp_server option" where
  "sv_step (Accept fd peer) s =
     (if sv_listening s then (case acceptor_handleRead fd peer s of Inl e \<Rightarrow> None | Inr s' \<Rightarrow> Some s') else None)"
| "sv_step BaseTask s =
     (case sv_base_queue s of [] \<Rightarrow> None | i # is \<Rightarrow> Some (removeConnectionInLoop i (s\<lparr>sv_base_queue := is\<rparr>)))"
| "sv_step (SubTask l) s =
     (case sv_sub_queue s l of [] \<Rightarrow> None
      | t # ts \<Rightarrow> Some (run_sub_task t (s\<lparr>sv_sub_queue := (sv_sub_queue s)(l := ts)\<rparr>)))"
| "sv_step (Conn i l) s =
     (if own_conn_label l then
        (case sv_conns s i of None \<Rightarrow> None
         | Some c \<Rightarrow>
             (case conn_step l c of None \<Rightarrow> None
              | Some c' \<Rightarrow> Some (if close_calls c' > close_calls c then removeConnection i (set_conn i c' s) else set_conn i c' s)))
      else None)"

text \<open>A server that was configured, started once and ran.\<close>

inductive sv_reach :: "tcp_server \<Rightarrow> bool" where
  start: "0 \<le> n \<Longrightarrow> sv_reach (sv_start spawn has_init (sv_setThreadNum n (new_server name base wcb)))"
| step: "sv_reach s \<Longrightarrow> sv_step l s = Some s' \<Longrightarrow> sv_reach s'"

section \<open>The invariant\<close>

definition pool_ok :: "loop_pool \<Rightarrow> bool" where
  "pool_ok p \<longleftrightarrow> elp_loops p = [] \<or> elp_threadNums p = int (length (elp_loops p)) \<and> - 1 \<le> elp_next p"

text \<open>The tasks waiting for a connection.\<close>

definition waiting_est :: "tcp_server \<Rightarrow> nat \<Rightarrow> nat" where
  "waiting_est s i = count_list (sv_sub_queue s (sv_conn_loop s i)) (TEstablish i)"

definition waiting_des :: "tcp_server \<Rightarrow> nat \<Rightarrow> nat" where
  "waiting_des s i = count_list (sv_sub_queue s (sv_conn_loop s i)) (TDestroy i)"

text \<open>Every close call of a connection waits in the base loop, waits as a destruction in the sub loop, or
  has been served; \<open>k\<close> of them are just being passed on. The server holds the name as long as the base
  loop has not served the call.\<close>

definition conn_ok :: "tcp_server \<Rightarrow> nat \<Rightarrow> nat \<Rightarrow> tcp_conn \<Rightarrow> bool" where
  "conn_ok s k i c \<longleftrightarrow> conn_reach c \<and> i < sv_nextConnId s
     \<and> waiting_est s i = (if tc_state c = kConnecting then 1 else 0)
     \<and> close_calls c = k + count_list (sv_base_queue s) i + waiting_des s i + (if tc_removed c then 1 else 0)
     \<and> (\<exists>peer. sv_conn_name s i = conn_name (sv_name s) peer i)
     \<and> (sv_connections s (sv_conn_name s i) = Some i \<longleftrightarrow> close_calls c = k + count_list (sv_base_queue s) i)"

definition sv_inv :: "nat option \<Rightarrow> tcp_server \<Rightarrow> bool" where
  "sv_inv x s \<longleftrightarrow> pool_ok (sv_pool s) \<and> (\<forall>i c. sv_conns s i = Some c \<longrightarrow> conn_ok s (if x = Some i then 1 else 0) i c)
     \<and> (\<forall>l. \<forall>t\<in>set (sv_sub_queue s l). st_conn t \<in> dom (sv_conns s) \<and> sv_conn_loop s (st_conn t) = l)
     \<and> set (sv_base_queue s) \<subseteq> dom (sv_conns s)
     \<and> (\<forall>name i. sv_connections s name = Some i \<longrightarrow> i \<in> dom (sv_conns s) \<and> sv_conn_name s i = name)"

definition sv_no_wrap :: "tcp_server \<Rightarrow> bool" where
  "sv_no_wrap s \<longleftrightarrow> sv_nextConnId s \<le> 2 ^ 31"

lemma to_dec_inj: "to_dec m = to_dec n \<longleftrightarrow> m = n"
  by (metis digits_value_to_dec)

text \<open>Names of different connections differ.\<close>

lemma conn_name_inj:
  assumes "conn_name s p i = conn_name s q j" "i < 2 ^ 31" "j < 2 ^ 31"
  shows "i = j"
proof -
  have w: "sint (of_nat k :: 32 word) = int k" if "k < 2 ^ 31" for k :: nat
  proof -
    have "sint (word_of_int (int k) :: 32 word) = int k" using that by (intro sint_word_of_int_32) simp_all
    then show ?thesis by simp
  qed
  have "to_dec_int (int k) = to_dec k" for k by (simp add: to_dec_int_def)
  then have n: "conn_name s r k = (s @ ''-'' @ r) @ CHR 0x23 # to_dec k" if "k < 2 ^ 31" for r k
    using w [OF that] by (simp add: conn_name_def)
  have nd: "CHR 0x23 \<notin> set (to_dec k)" for k
    using to_dec_digits [of k] by (auto simp: is_digit_def)
  have "rev (to_dec i) @ CHR 0x23 # rev (s @ ''-'' @ p) = rev (to_dec j) @ CHR 0x23 # rev (s @ ''-'' @ q)"
    using assms n by (metis (no_types, lifting) append.assoc rev.simps(2) rev_append append_Cons append_Nil)
  then have "takeWhile (\<lambda>c. c \<noteq> CHR 0x23) (rev (to_dec i) @ CHR 0x23 # rev (s @ ''-'' @ p))
      = takeWhile (\<lambda>c. c \<noteq> CHR 0x23) (rev (to_dec j) @ CHR 0x23 # rev (s @ ''-'' @ q))" by (simp only:)
  moreover have "takeWhile (\<lambda>c. c \<noteq> CHR 0x23) (rev (to_dec k) @ CHR 0x23 # r) = rev (to_dec k)" for k r
    using nd [of k] by (subst takeWhile_append2) auto
  ultimately have "rev (to_dec i) = rev (to_dec j)" by simp
  then show ?thesis by (simp add: to_dec_inj)
qed


text \<open>The connection's side.\<close>

lemma close_calls_life: "close_calls c = count_list (life (tc_log c)) NClose"
proof -
  have "count_list l NClose = count_list (life l) NClose" for l
    by (induction l) (auto simp: life_def split: conn_note.split)
  then show ?thesis by (simp add: close_calls_def)
qed

lemma reach_life: "conn_reach c \<Longrightarrow> life_inv c"
  using conn_reach_inv by blast

lemma close_calls_bound: "conn_reach c \<Longrightarrow> close_calls c \<le> 1"
  using reach_life [of c] by (cases "tc_state c = kConnecting"; cases "tc_closed c") (auto simp: close_calls_life life_inv_def)

lemma close_calls_open: "conn_reach c \<Longrightarrow> \<not> tc_closed c \<Longrightarrow> close_calls c = 0"
  using reach_life [of c] by (cases "tc_state c = kConnecting") (auto simp: close_calls_life life_inv_def)

lemma close_calls_connecting: "conn_reach c \<Longrightarrow> tc_state c = kConnecting \<Longrightarrow> close_calls c = 0"
  using reach_life [of c] by (auto simp: close_calls_life life_inv_def)

lemma close_calls_log: "tc_log c = tc_log d \<Longrightarrow> close_calls c = close_calls d"
  by (simp add: close_calls_def)

lemma own_step:
  assumes c: "conn_reach c" and l: "own_conn_label l" and s: "conn_step l c = Some c'"
  shows "(tc_state c' = kConnecting \<longleftrightarrow> tc_state c = kConnecting) \<and> tc_removed c' = tc_removed c
    \<and> (close_calls c' = close_calls c \<or> close_calls c = 0 \<and> close_calls c' = 1)"
proof -
  have open_: "can_report c \<Longrightarrow> close_calls c = 0" using close_calls_open [OF c] by (simp add: can_report_def)
  have q: "tc_queue c \<noteq> [] \<Longrightarrow> tc_state c \<noteq> kConnecting" using reach_life [OF c] by (auto simp: life_inv_def)
  show ?thesis
  proof (cases l)
    case (Readable readv)
    then show ?thesis using s open_
      by (auto simp: tc_handleRead_def tc_handleClose_def can_report_def close_calls_def Let_def split: if_splits prod.splits)
  next
    case (Writable w)
    then show ?thesis using s by (auto simp: close_calls_def split: if_splits)
  next
    case HangUp
    then show ?thesis using s open_ by (auto simp: tc_handleClose_def can_report_def close_calls_def Let_def split: if_splits)
  next
    case (RunQueued w)
    then obtain t ts where t: "tc_queue c = t # ts" "c' = run_queued w t (c\<lparr>tc_queue := ts\<rparr>)"
      using s by (auto split: if_splits list.splits)
    then show ?thesis using q by (cases t) (auto simp: run_queued_def close_calls_def)
  qed (use s l in \<open>auto simp: tc_send_def tc_shutdown_def close_calls_def own_conn_label_def split: if_splits\<close>)
qed

lemma established_step:
  assumes "conn_reach c" "tc_state c = kConnecting"
  shows "conn_reach (connectEstablished c) \<and> tc_state (connectEstablished c) \<noteq> kConnecting
    \<and> tc_removed (connectEstablished c) = tc_removed c \<and> close_calls (connectEstablished c) = close_calls c"
proof -
  have "conn_step Establish c = Some (connectEstablished c)" using assms(2) by simp
  then have "conn_reach (connectEstablished c)" by (rule conn_reach.step [OF assms(1)])
  then show ?thesis by (simp add: connectEstablished_def Let_def close_calls_def)
qed

lemma destroyed_step:
  assumes "conn_reach c" "tc_state c \<noteq> kConnecting" "\<not> tc_removed c"
  shows "conn_reach (connectDestroyed c) \<and> tc_state (connectDestroyed c) \<noteq> kConnecting
    \<and> tc_removed (connectDestroyed c) \<and> close_calls (connectDestroyed c) = close_calls c"
proof -
  have "conn_step Destroy c = Some (connectDestroyed c)" using assms(2,3) by simp
  then have "conn_reach (connectDestroyed c)" by (rule conn_reach.step [OF assms(1)])
  then show ?thesis using assms(2) by (simp add: connectDestroyed_def Let_def close_calls_def)
qed

text \<open>The pool's side.\<close>

lemma getNextLoop_ok:
  assumes "pool_ok p"
  obtains l q where "getNextLoop True p = Inr (l, q)" "pool_ok q" "elp_baseLoop q = elp_baseLoop p"
proof (cases "elp_loops p = []")
  case True
  then show ?thesis by (intro that [of "elp_baseLoop p" "p\<lparr>elp_next := 0\<rparr>"]) (simp_all add: getNextLoop_def pool_ok_def)
next
  case False
  then have n: "elp_threadNums p = int (length (elp_loops p))" "0 < elp_threadNums p" using assms by (auto simp: pool_ok_def)
  let ?k = "(elp_next p + 1) mod elp_threadNums p"
  have k: "0 \<le> ?k" "?k < elp_threadNums p" using n by simp_all
  then have eq: "getNextLoop True p = Inr (elp_loops p ! nat ?k, p\<lparr>elp_next := ?k\<rparr>)"
    using False n by (simp add: getNextLoop_def Let_def nat_less_iff)
  have "- 1 \<le> ?k" using k(1) by linarith
  then show ?thesis using n(1) by (intro that [OF eq]) (simp_all add: pool_ok_def)
qed

lemma conn_ok_names:
  assumes "conn_ok s k i c" "conn_ok s m j d" "sv_conn_name s i = sv_conn_name s j" "sv_no_wrap s"
  shows "i = j"
proof -
  obtain p q where "sv_conn_name s i = conn_name (sv_name s) p i" "sv_conn_name s j = conn_name (sv_name s) q j"
    using assms(1,2) unfolding conn_ok_def by blast
  then have e: "conn_name (sv_name s) p i = conn_name (sv_name s) q j" using assms(3) by simp
  have "i < sv_nextConnId s" "j < sv_nextConnId s" using assms(1,2) by (simp_all add: conn_ok_def)
  then have "i < 2 ^ 31" "j < 2 ^ 31" using assms(4) unfolding sv_no_wrap_def by (metis less_le_trans)+
  then show ?thesis by (rule conn_name_inj [OF e])
qed

lemma count_pos: "x \<in> set xs \<longleftrightarrow> 0 < count_list xs x"
  by (metis count_list_0_iff gr0I less_numeral_extra(3))

text \<open>Replacing a connection object by one that counts the same.\<close>

lemma set_conn_inv:
  assumes s: "sv_inv None s" and c: "sv_conns s i = Some c"
    and d: "conn_reach d" "tc_state d = kConnecting \<longleftrightarrow> tc_state c = kConnecting" "tc_removed d = tc_removed c"
      "close_calls d = close_calls c"
  shows "sv_inv None (set_conn i d s)"
  using assms by (auto simp: sv_inv_def set_conn_def conn_ok_def waiting_est_def waiting_des_def split: if_splits)

text \<open>A connection whose handler has just called the close callback.\<close>

lemma set_closed_inv:
  assumes s: "sv_inv None s" and c: "sv_conns s i = Some c"
    and d: "conn_reach d" "tc_state d = kConnecting \<longleftrightarrow> tc_state c = kConnecting" "tc_removed d = tc_removed c"
      "close_calls c = 0" "close_calls d = 1"
  shows "sv_inv (Some i) (set_conn i d s)"
  using assms by (auto simp: sv_inv_def set_conn_def conn_ok_def waiting_est_def waiting_des_def split: if_splits)

text \<open>Passing a close call on to the base loop, and serving it there.\<close>

lemma base_queue_inv:
  assumes s: "sv_inv (Some i) s" and i: "i \<in> dom (sv_conns s)"
  shows "sv_inv None (s\<lparr>sv_base_queue := sv_base_queue s @ [i]\<rparr>)"
  using assms by (auto simp: sv_inv_def conn_ok_def waiting_est_def waiting_des_def split: if_splits)

lemma base_pop_inv:
  assumes s: "sv_inv None s" and q: "sv_base_queue s = i # is"
  shows "sv_inv (Some i) (s\<lparr>sv_base_queue := is\<rparr>)"
  using assms by (auto simp: sv_inv_def conn_ok_def waiting_est_def waiting_des_def split: if_splits)

lemma removeInLoop_inv:
  assumes s: "sv_inv (Some i) s" "sv_no_wrap s" and i: "i \<in> dom (sv_conns s)"
  shows "sv_inv None (removeConnectionInLoop i s)"
proof -
  obtain c where c: "sv_conns s i = Some c" using i by blast
  let ?s = "removeConnectionInLoop i s"
  have ok: "conn_ok s (if j = i then 1 else 0) j d" if "sv_conns s j = Some d" for j d
  proof -
    have "conn_ok s (if Some i = Some j then 1 else 0) j d" using s(1) that unfolding sv_inv_def by blast
    then show ?thesis by (simp add: eq_commute)
  qed
  have one: "close_calls c = 1" "count_list (sv_base_queue s) i = 0" "waiting_des s i = 0" "\<not> tc_removed c"
    using ok [OF c] close_calls_bound [of c] by (auto simp: conn_ok_def split: if_splits)
  have f: "sv_conns ?s = sv_conns s" "sv_base_queue ?s = sv_base_queue s" "sv_conn_name ?s = sv_conn_name s"
    "sv_conn_loop ?s = sv_conn_loop s" "sv_name ?s = sv_name s" "sv_nextConnId ?s = sv_nextConnId s" "sv_pool ?s = sv_pool s"
    "sv_connections ?s = (sv_connections s)(sv_conn_name s i := None)"
    "sv_sub_queue ?s = (sv_sub_queue s)(sv_conn_loop s i := sv_sub_queue s (sv_conn_loop s i) @ [TDestroy i])"
    by (simp_all add: removeConnectionInLoop_def sub_queueInLoop_def delConnection_def)
  have w: "waiting_est ?s j = waiting_est s j" "waiting_des ?s j = waiting_des s j + (if j = i then 1 else 0)" for j
    by (simp_all add: waiting_est_def waiting_des_def f)
  have "conn_ok ?s 0 j d" if d: "sv_conns s j = Some d" for j d
  proof (cases "j = i")
    case True
    then show ?thesis using ok [OF c] one c d by (simp add: conn_ok_def w f)
  next
    case False
    then have "sv_conn_name s j \<noteq> sv_conn_name s i" using conn_ok_names [OF ok [OF d] ok [OF c] _ s(2)] by blast
    then show ?thesis using ok [OF d] False by (simp add: conn_ok_def w f)
  qed
  then show ?thesis using s(1) i unfolding sv_inv_def f by (auto split: if_splits)
qed

lemma removeConnection_inv:
  "sv_inv (Some i) s \<Longrightarrow> sv_no_wrap s \<Longrightarrow> i \<in> dom (sv_conns s) \<Longrightarrow> sv_inv None (removeConnection i s)"
  by (simp add: removeConnection_def removeInLoop_inv base_queue_inv)

text \<open>A task of a sub loop is due: its guard holds.\<close>

lemma sub_task_due:
  assumes s: "sv_inv None s" and q: "sv_sub_queue s l = t # ts"
  obtains c where "sv_conns s (st_conn t) = Some c" "conn_ok s 0 (st_conn t) c" "sv_conn_loop s (st_conn t) = l"
    "case t of TEstablish i \<Rightarrow> tc_state c = kConnecting | TDestroy i \<Rightarrow> tc_state c \<noteq> kConnecting \<and> \<not> tc_removed c \<and> close_calls c = 1"
proof -
  have t: "st_conn t \<in> dom (sv_conns s)" "sv_conn_loop s (st_conn t) = l"
    using s q unfolding sv_inv_def by (metis list.set_intros(1))+
  then obtain c where c: "sv_conns s (st_conn t) = Some c" by blast
  then have ok: "conn_ok s 0 (st_conn t) c" using s by (simp add: sv_inv_def)
  have "case t of TEstablish i \<Rightarrow> tc_state c = kConnecting | TDestroy i \<Rightarrow> tc_state c \<noteq> kConnecting \<and> \<not> tc_removed c \<and> close_calls c = 1"
  proof (cases t)
    case (TEstablish i)
    then show ?thesis using ok q t(2) by (auto simp: conn_ok_def waiting_est_def split: if_splits)
  next
    case (TDestroy i)
    then have "waiting_des s i \<ge> 1" using q t(2) by (simp add: waiting_des_def)
    then have "close_calls c = 1" "\<not> tc_removed c"
      using ok TDestroy close_calls_bound [of c] by (auto simp: conn_ok_def split: if_splits)
    then show ?thesis using ok TDestroy close_calls_connecting [of c] by (auto simp: conn_ok_def)
  qed
  with c ok t(2) show thesis by (rule that)
qed


lemma sub_task_inv:
  assumes s: "sv_inv None s" and q: "sv_sub_queue s l = t # ts"
  shows "sv_inv None (run_sub_task t (s\<lparr>sv_sub_queue := (sv_sub_queue s)(l := ts)\<rparr>))"
proof -
  let ?i = "st_conn t"
  obtain c where c: "sv_conns s ?i = Some c" "conn_ok s 0 ?i c" "sv_conn_loop s ?i = l"
    "case t of TEstablish i \<Rightarrow> tc_state c = kConnecting | TDestroy i \<Rightarrow> tc_state c \<noteq> kConnecting \<and> \<not> tc_removed c \<and> close_calls c = 1"
    by (rule sub_task_due [OF s q])
  define d where "d = (case t of TEstablish i \<Rightarrow> connectEstablished c | TDestroy i \<Rightarrow> connectDestroyed c)"
  define r where "r = s\<lparr>sv_sub_queue := (sv_sub_queue s)(l := ts), sv_conns := (sv_conns s)(?i \<mapsto> d)\<rparr>"
  have run: "run_sub_task t (s\<lparr>sv_sub_queue := (sv_sub_queue s)(l := ts)\<rparr>) = r"
    using c(1) by (cases t) (simp_all add: run_sub_task_def set_conn_def conn_of_def r_def d_def)
  have f: "sv_base_queue r = sv_base_queue s" "sv_conn_name r = sv_conn_name s" "sv_conn_loop r = sv_conn_loop s"
    "sv_name r = sv_name s" "sv_nextConnId r = sv_nextConnId s" "sv_pool r = sv_pool s" "sv_connections r = sv_connections s"
    "sv_conns r = (sv_conns s)(?i \<mapsto> d)" "sv_sub_queue r = (sv_sub_queue s)(l := ts)"
    by (simp_all add: r_def)
  have reach: "conn_reach c" using c(2) by (simp add: conn_ok_def)
  have w: "waiting_est s j = waiting_est r j + (if t = TEstablish j then 1 else 0)"
    "waiting_des s j = waiting_des r j + (if t = TDestroy j then 1 else 0)" for j
    using q c(3) by (auto simp: waiting_est_def waiting_des_def f)
  have own: "conn_ok r 0 ?i d"
  proof (cases t)
    case (TEstablish i)
    then show ?thesis using c(2,4) established_step [OF reach] w [of i] by (simp add: conn_ok_def f d_def)
  next
    case (TDestroy i)
    then show ?thesis using c(2,4) destroyed_step [OF reach] w [of i] by (simp add: conn_ok_def f d_def)
  qed
  have "conn_ok r 0 j e" if e: "sv_conns r j = Some e" for j e
  proof (cases "j = ?i")
    case True
    then show ?thesis using e own by (simp add: f)
  next
    case False
    then have "conn_ok s 0 j e" "t \<noteq> TEstablish j" "t \<noteq> TDestroy j" using e s by (auto simp: sv_inv_def f)
    then show ?thesis using w [of j] by (simp add: conn_ok_def f)
  qed
  moreover have "st_conn u \<in> dom (sv_conns r) \<and> sv_conn_loop r (st_conn u) = m" if u: "u \<in> set (sv_sub_queue r m)" for u m
  proof -
    have "u \<in> set (sv_sub_queue s m)" using u q by (cases "m = l") (auto simp: f)
    then show ?thesis using s by (auto simp: sv_inv_def f)
  qed
  ultimately show ?thesis using s unfolding run sv_inv_def by (auto simp: f)
qed

lemma accept_inv:
  assumes s: "sv_inv None s" and w: "sv_nextConnId s < 2 ^ 31"
  obtains s' where "newConnection fd peer s = Inr s'" "sv_inv None s'" "sv_nextConnId s' = sv_nextConnId s + 1"
proof -
  let ?k = "sv_nextConnId s"
  let ?name = "conn_name (sv_name s) peer ?k"
  let ?c = "new_conn ?k fd (sv_has_wcb s)"
  obtain l q where l: "getNextLoop True (sv_pool s) = Inr (l, q)" "pool_ok q" "elp_baseLoop q = elp_baseLoop (sv_pool s)"
    using s by (auto simp: sv_inv_def intro: getNextLoop_ok)
  define b where "b \<longleftrightarrow> l = elp_baseLoop q"
  let ?d = "if b then connectEstablished ?c else ?c"
  let ?s = "s\<lparr>sv_nextConnId := ?k + 1, sv_pool := q, sv_conns := (sv_conns s)(?k \<mapsto> ?d),
      sv_conn_name := (sv_conn_name s)(?k := ?name), sv_conn_loop := (sv_conn_loop s)(?k := l),
      sv_connections := (sv_connections s)(?name \<mapsto> ?k),
      sv_sub_queue := (if b then sv_sub_queue s else (sv_sub_queue s)(l := sv_sub_queue s l @ [TEstablish ?k]))\<rparr>"
  have r: "newConnection fd peer s = Inr ?s"
    using l(1,3) by (simp add: newConnection_def Let_def sv_baseLoop_def addConnection_def sub_queueInLoop_def
        run_sub_task_def set_conn_def conn_of_def b_def)
  have ok: "conn_ok s 0 j d" if "sv_conns s j = Some d" for j d using s that by (simp add: sv_inv_def)
  have fresh: "?k \<notin> dom (sv_conns s)" using ok by (auto simp: conn_ok_def)
  then have none: "t \<notin> set (sv_sub_queue s m)" if "st_conn t = ?k" for t m
    using s that unfolding sv_inv_def by metis
  have base: "?k \<notin> set (sv_base_queue s)" using s fresh by (auto simp: sv_inv_def)
  have c: "conn_reach ?c" "tc_state ?c = kConnecting" "\<not> tc_removed ?c" "close_calls ?c = 0"
    by (rule conn_reach.start, simp_all add: new_conn_def close_calls_def)
  have cnt: "count_list (sv_sub_queue s m) (TEstablish ?k) = 0" "count_list (sv_sub_queue s m) (TDestroy ?k) = 0" for m
    using none by (simp_all add: count_list_0_iff)
  have own: "conn_ok ?s 0 ?k ?d"
    using c established_step [OF c(1,2)] base cnt
    by (auto simp: conn_ok_def waiting_est_def waiting_des_def count_list_0_iff)
  have other: "conn_ok ?s 0 j d" if d: "sv_conns s j = Some d" for j d
  proof -
    have j: "j < ?k" "conn_ok s 0 j d" using ok [OF d] by (simp_all add: conn_ok_def)
    obtain p where p: "sv_conn_name s j = conn_name (sv_name s) p j" using j(2) by (auto simp: conn_ok_def)
    have "j < 2 ^ 31" using j(1) w by (rule less_trans)
    then have "sv_conn_name s j \<noteq> ?name" using conn_name_inj [of "sv_name s" p j peer ?k] j(1) w p by auto
    then show ?thesis using j by (auto simp: conn_ok_def waiting_est_def waiting_des_def)
  qed
  have "conn_ok ?s 0 j d" if "sv_conns ?s j = Some d" for j d
    using that own other by (cases "j = ?k") auto
  moreover have "st_conn u \<in> dom (sv_conns ?s) \<and> sv_conn_loop ?s (st_conn u) = m" if "u \<in> set (sv_sub_queue ?s m)" for u m
  proof (cases "u = TEstablish ?k")
    case True
    then show ?thesis using that none [of u] by (auto split: if_splits)
  next
    case False
    then have "u \<in> set (sv_sub_queue s m)" using that by (auto split: if_splits)
    then have "st_conn u \<in> dom (sv_conns s)" "sv_conn_loop s (st_conn u) = m" using s by (auto simp: sv_inv_def)
    then show ?thesis using fresh by auto
  qed
  moreover have "i \<in> dom (sv_conns ?s) \<and> sv_conn_name ?s i = name" if "sv_connections ?s name = Some i" for name i
    using that s fresh unfolding sv_inv_def by (cases "name = ?name") auto
  ultimately have "sv_inv None ?s" using s l(2) unfolding sv_inv_def by auto
  then show thesis using r by (intro that [of ?s]) simp_all
qed

lemma sv_step_next: "sv_step l s = Some s' \<Longrightarrow> sv_nextConnId s \<le> sv_nextConnId s'"
proof (cases l)
  case (Accept fd peer)
  assume "sv_step l s = Some s'"
  then show ?thesis using Accept
    by (auto simp: acceptor_handleRead_def newConnection_def ebind_Inr Let_def run_sub_task_def sub_queueInLoop_def
        addConnection_def set_conn_def split: if_splits sum.splits prod.splits)
qed (auto simp: removeConnection_def removeConnectionInLoop_def sub_queueInLoop_def delConnection_def run_sub_task_def
      set_conn_def split: if_splits list.splits option.splits sub_task.splits)

lemma sv_step_inv:
  assumes s: "sv_inv None s" and r: "sv_step l s = Some s'" "sv_no_wrap s'"
  shows "sv_inv None s'"
proof -
  have w: "sv_no_wrap s" using sv_step_next [OF r(1)] r(2) by (simp add: sv_no_wrap_def)
  show ?thesis
  proof (cases l)
    case (Accept fd peer)
    show ?thesis
    proof (cases "fd < 0")
      case True
      then show ?thesis using Accept r(1) s by (simp add: acceptor_handleRead_def split: if_splits)
    next
      case False
      then have n: "newConnection fd peer s = Inr s'"
        using Accept r(1) by (auto simp: acceptor_handleRead_def split: if_splits sum.splits)
      then have "sv_nextConnId s' = sv_nextConnId s + 1"
        by (auto simp: newConnection_def ebind_Inr Let_def run_sub_task_def sub_queueInLoop_def
            addConnection_def set_conn_def split: if_splits prod.splits)
      then have "sv_nextConnId s < 2 ^ 31" using r(2) by (simp add: sv_no_wrap_def)
      then show ?thesis using accept_inv [OF s, of fd peer] n by (metis sum.inject(2))
    qed
  next
    case BaseTask
    then obtain i is' where q: "sv_base_queue s = i # is'" "s' = removeConnectionInLoop i (s\<lparr>sv_base_queue := is'\<rparr>)"
      using r(1) by (auto split: list.splits)
    then have "i \<in> dom (sv_conns s)" using s by (auto simp: sv_inv_def)
    then show ?thesis using removeInLoop_inv [OF base_pop_inv [OF s q(1)]] w q(2) by (simp add: sv_no_wrap_def)
  next
    case (SubTask m)
    then show ?thesis using r(1) sub_task_inv [OF s] by (auto split: list.splits)
  next
    case (Conn i cl)
    then obtain c c' where c: "own_conn_label cl" "sv_conns s i = Some c" "conn_step cl c = Some c'"
      "s' = (if close_calls c' > close_calls c then removeConnection i (set_conn i c' s) else set_conn i c' s)"
      using r(1) by (auto split: if_splits option.splits)
    have reach: "conn_reach c" using s c(2) by (simp add: sv_inv_def conn_ok_def)
    have reach': "conn_reach c'" by (rule conn_reach.step [OF reach c(3)])
    have o: "(tc_state c' = kConnecting) = (tc_state c = kConnecting)" "tc_removed c' = tc_removed c"
      "close_calls c' = close_calls c \<or> close_calls c = 0 \<and> close_calls c' = 1"
      using own_step [OF reach c(1,3)] by blast+
    show ?thesis
    proof (cases "close_calls c' = close_calls c")
      case True
      then show ?thesis using set_conn_inv [OF s c(2) reach' o(1,2)] c(4) by simp
    next
      case False
      then have z: "close_calls c = 0" "close_calls c' = 1" using o(3) by auto
      have "sv_no_wrap (set_conn i c' s)" "i \<in> dom (sv_conns (set_conn i c' s))" using w by (simp_all add: sv_no_wrap_def set_conn_def)
      then show ?thesis using removeConnection_inv [OF set_closed_inv [OF s c(2) reach' o(1,2) z]] c(4) z by simp
    qed
  qed
qed

lemma sv_reach_inv: "sv_reach s \<Longrightarrow> sv_no_wrap s \<Longrightarrow> sv_inv None s"
proof (induction rule: sv_reach.induct)
  case (start n spawn has_init name base wcb)
  then show ?case
    by (simp add: sv_start_def sv_setThreadNum_def new_server_def acceptor_listen_def sv_inv_def pool_ok_def elp_start_def
        setThreadNum_def new_loop_pool_def)
next
  case (step s l s')
  then have "sv_no_wrap s" using sv_step_next [OF step.hyps(2)] by (simp add: sv_no_wrap_def)
  then show ?case using step sv_step_inv by blast
qed


text \<open>A server with one sub loop that has accepted one connection.\<close>

definition sv_started_example :: tcp_server where
  "sv_started_example = sv_start (\<lambda>i. 5) False (sv_setThreadNum 1 (new_server ''srv'' 0 True))"

definition sv_example :: tcp_server where
  "sv_example = the (sv_step (Accept 7 ''peer'') sv_started_example)"

lemma sv_example_facts:
  "sv_reach sv_example" "sv_no_wrap sv_example" "sv_sub_queue sv_example 5 = [TEstablish 1]"
  "sv_conns sv_example 1 = Some (new_conn 1 7 True)" "sv_base_queue sv_example = []" "sv_conn_loop sv_example 1 = 5"
proof -
  have st: "sv_reach sv_started_example" unfolding sv_started_example_def by (rule sv_reach.start) simp
  have e: "sv_step (Accept 7 ''peer'') sv_started_example = Some sv_example"
    by (simp add: sv_example_def sv_started_example_def sv_start_def sv_setThreadNum_def new_server_def acceptor_listen_def
        elp_start_def setThreadNum_def new_loop_pool_def acceptor_handleRead_def newConnection_def getNextLoop_def Let_def
        sv_baseLoop_def addConnection_def sub_queueInLoop_def)
  show "sv_reach sv_example" by (rule sv_reach.step [OF st e])
  show "sv_no_wrap sv_example" "sv_sub_queue sv_example 5 = [TEstablish 1]"
    "sv_conns sv_example 1 = Some (new_conn 1 7 True)" "sv_base_queue sv_example = []" "sv_conn_loop sv_example 1 = 5"
    by (simp_all add: sv_example_def sv_started_example_def sv_start_def sv_setThreadNum_def new_server_def acceptor_listen_def
        elp_start_def setThreadNum_def new_loop_pool_def acceptor_handleRead_def newConnection_def getNextLoop_def Let_def
        sv_baseLoop_def addConnection_def sub_queueInLoop_def sv_no_wrap_def)
qed

section \<open>Properties\<close>



text \<open>C25. The server's map holds a connection under its name exactly until the base loop has served its
  close; different connections have different names; and once the loops have nothing queued, every
  connection that closed has left the map and its poller, so none leaks.\<close>

theorem connection_map_exact:
  assumes "sv_reach s" "sv_no_wrap s" "sv_conns s i = Some c"
  shows "(getConnection (sv_conn_name s i) s = Some i \<longleftrightarrow> close_calls c = 0 \<or> i \<in> set (sv_base_queue s))
    \<and> (\<forall>j. j \<in> dom (sv_conns s) \<and> sv_conn_name s j = sv_conn_name s i \<longrightarrow> j = i)
    \<and> (sv_base_queue s = [] \<and> sv_sub_queue s (sv_conn_loop s i) = [] \<and> close_calls c > 0
        \<longrightarrow> tc_removed c \<and> getConnection (sv_conn_name s i) s \<noteq> Some i)"
proof -
  have s: "sv_inv None s" using sv_reach_inv [OF assms(1,2)] .
  then have ok: "conn_ok s 0 j d" if "sv_conns s j = Some d" for j d using that by (simp add: sv_inv_def)
  have c: "conn_ok s 0 i c" using ok assms(3) .
  have "conn_reach c" using c by (simp add: conn_ok_def)
  then have "close_calls c \<le> 1" by (rule close_calls_bound)
  then have "close_calls c = count_list (sv_base_queue s) i \<longleftrightarrow> close_calls c = 0 \<or> i \<in> set (sv_base_queue s)"
    using c count_pos [of i "sv_base_queue s"] by (auto simp: conn_ok_def)
  moreover have "j = i" if "j \<in> dom (sv_conns s)" "sv_conn_name s j = sv_conn_name s i" for j
    using that ok conn_ok_names [OF _ c that(2) assms(2)] by blast
  moreover have "tc_removed c" if "sv_base_queue s = []" "sv_sub_queue s (sv_conn_loop s i) = []" "close_calls c > 0"
    using that c by (auto simp: conn_ok_def waiting_des_def split: if_splits)
  ultimately show ?thesis using c by (auto simp: getConnection_def conn_ok_def)
qed

theorem connection_map_exact_witness:
  "getConnection (sv_conn_name sv_example 1) sv_example = Some 1"
  using connection_map_exact [OF sv_example_facts(1,2,4)] by (simp add: close_calls_def new_conn_def)

end
