(* ===== verification/AsyncUdp.thy ===== *)
theory AsyncUdp
  imports ByteBuffer Pollers
begin

text \<open>
  \<^verbatim>\<open>AsyncUdpDatagram\<close> (include/net/async_udp_datagram.h, src/net/async_udp_datagram.cpp) and the receiving
  side of \<^verbatim>\<open>UdpDatagram\<close> (src/net/udp_datagram.cpp). Addresses of peers are numbers. The answers of \<^verbatim>\<open>sendto\<close> and
  \<^verbatim>\<open>recvfrom\<close> are arguments. The user's callbacks are notifications in a log; what a callback does to the
  endpoint is a step of its own where the callback is the last thing its handler does, and a list of calls run on the
  spot for the error callback that \<^verbatim>\<open>handleWrite\<close> invokes in its loop.
\<close>

section \<open>State\<close>

datatype udp_state = kUdpNew | kActive | kClosing | kClosed

type_synonym dgram = "bytes \<times> nat"

datatype udp_task = DStart | DSend dgram | DClose | DForceClose | DDestroy | DWriteComplete
datatype udp_note = UMessage bytes nat | UError int nat | UWriteDone

text \<open>What became of an accepted datagram.\<close>

datatype fate = FSent | FFailed int | FDropped

record async_udp =
  au_id :: nat                   \<comment> \<open>the channel\<close>
  au_state :: udp_state
  au_channel :: channel
  au_known :: bool               \<comment> \<open>the poller has given the channel an index\<close>
  au_channel_removed :: bool
  au_pending :: "dgram list"
  au_has_mcb :: bool
  au_has_wcb :: bool
  au_has_ecb :: bool
  au_queue :: "udp_task list"    \<comment> \<open>functions queued into the loop\<close>
  au_polls :: "poll_op list"     \<comment> \<open>what the endpoint asked of the poller\<close>
  au_log :: "udp_note list"
  au_released :: bool            \<comment> \<open>the last owner is gone\<close>
  au_deleted :: bool
  au_accepted :: "dgram list"    \<comment> \<open>history: the datagrams \<open>sendInLoop\<close> took on\<close>
  au_fate :: "(dgram \<times> fate) list" \<comment> \<open>history: what became of them\<close>

definition new_async_udp :: "nat \<Rightarrow> int \<Rightarrow> bool \<Rightarrow> bool \<Rightarrow> bool \<Rightarrow> async_udp" where
  "new_async_udp i fd mcb wcb ecb = \<lparr>au_id = i, au_state = kUdpNew, au_channel = new_channel fd, au_known = False,
     au_channel_removed = False, au_pending = [], au_has_mcb = mcb, au_has_wcb = wcb, au_has_ecb = ecb, au_queue = [],
     au_polls = [], au_log = [], au_released = False, au_deleted = False, au_accepted = [], au_fate = []\<rparr>"

section \<open>Operations\<close>

definition au_channel_op :: "channel_op \<Rightarrow> async_udp \<Rightarrow> async_udp" where
  "au_channel_op op c = c\<lparr>au_channel := (au_channel c)\<lparr>ch_events := set_events op (ch_events (au_channel c))\<rparr>,
     au_known := True, au_polls := au_polls c @ [Update op (au_id c)]\<rparr>"

definition au_remove :: "async_udp \<Rightarrow> async_udp" where
  "au_remove c = c\<lparr>au_known := False, au_polls := au_polls c @ [Remove (au_id c)]\<rparr>"

definition au_isWriting :: "async_udp \<Rightarrow> bool" where
  "au_isWriting c \<longleftrightarrow> isWriting (au_channel c)"

definition au_queueInLoop :: "udp_task \<Rightarrow> async_udp \<Rightarrow> async_udp" where
  "au_queueInLoop t c = c\<lparr>au_queue := au_queue c @ [t]\<rparr>"

definition startInLoop :: "async_udp \<Rightarrow> async_udp" where
  "startInLoop c =
     (if au_state c \<noteq> kUdpNew then c
      else au_channel_op EnableReading (c\<lparr>au_channel := (au_channel c)\<lparr>ch_tied := True\<rparr>, au_state := kActive\<rparr>))"

definition au_start :: "bool \<Rightarrow> async_udp \<Rightarrow> async_udp" where
  "au_start in_loop c =
     (if au_state c \<noteq> kUdpNew then c else if in_loop then startInLoop c else au_queueInLoop DStart c)"

definition drop_pending :: "async_udp \<Rightarrow> async_udp" where
  "drop_pending c = c\<lparr>au_pending := [], au_fate := au_fate c @ map (\<lambda>d. (d, FDropped)) (au_pending c)\<rparr>"

definition removeChannelInLoop :: "async_udp \<Rightarrow> async_udp" where
  "removeChannelInLoop c =
     (if au_state c = kClosed then c
      else
        (let c = (if \<not> au_channel_removed c then
                    (let c = (if au_known c then au_remove (au_channel_op DisableAll c) else c)
                     in c\<lparr>au_channel_removed := True\<rparr>)
                  else c)
         in (drop_pending c)\<lparr>au_state := kClosed\<rparr>))"

definition closeInLoop :: "async_udp \<Rightarrow> async_udp" where
  "closeInLoop c =
     (if au_state c = kClosed \<or> au_state c = kClosing then c
      else
        (let c = c\<lparr>au_state := kClosing\<rparr>
         in if \<not> au_channel_removed c \<and> au_isWriting c \<and> au_pending c \<noteq> []
            then au_channel_op DisableReading c else removeChannelInLoop c))"

definition forceCloseInLoop :: "async_udp \<Rightarrow> async_udp" where
  "forceCloseInLoop c = (if au_state c = kClosed then c else removeChannelInLoop (drop_pending c))"

definition au_close :: "bool \<Rightarrow> async_udp \<Rightarrow> async_udp" where
  "au_close in_loop c =
     (if au_state c = kClosed \<or> au_state c = kClosing then c
      else if in_loop then closeInLoop c else au_queueInLoop DClose c)"

definition au_forceClose :: "bool \<Rightarrow> async_udp \<Rightarrow> async_udp" where
  "au_forceClose in_loop c =
     (if au_state c = kClosed then c else if in_loop then forceCloseInLoop c else au_queueInLoop DForceClose c)"

definition destroyInLoop :: "async_udp \<Rightarrow> async_udp" where
  "destroyInLoop c = (forceCloseInLoop c)\<lparr>au_deleted := True\<rparr>"

text \<open>The deleter of the shared pointer.\<close>

definition au_Destroy :: "bool \<Rightarrow> async_udp \<Rightarrow> async_udp" where
  "au_Destroy in_loop c =
     (if in_loop \<or> au_state c = kUdpNew \<or> au_state c = kClosed then destroyInLoop (c\<lparr>au_released := True\<rparr>)
      else au_queueInLoop DDestroy (c\<lparr>au_released := True\<rparr>))"

definition notifyError :: "int \<Rightarrow> nat \<Rightarrow> async_udp \<Rightarrow> async_udp" where
  "notifyError err peer c = (if au_has_ecb c then c\<lparr>au_log := au_log c @ [UError err peer]\<rparr> else c)"

definition queueWriteCompleteCallback :: "async_udp \<Rightarrow> async_udp" where
  "queueWriteCompleteCallback c = (if \<not> au_has_wcb c then c else au_queueInLoop DWriteComplete c)"

definition EIO :: int where "EIO = 5"

text \<open>A datagram whose fate is known at once, and one that has to wait.\<close>

definition settle :: "dgram \<Rightarrow> fate \<Rightarrow> async_udp \<Rightarrow> async_udp" where
  "settle d f c = c\<lparr>au_accepted := au_accepted c @ [d], au_fate := au_fate c @ [(d, f)]\<rparr>"

definition queue_datagram :: "dgram \<Rightarrow> async_udp \<Rightarrow> async_udp" where
  "queue_datagram d c =
     (let c = c\<lparr>au_accepted := au_accepted c @ [d], au_pending := au_pending c @ [d]\<rparr>
      in if \<not> au_isWriting c then au_channel_op EnableWriting c else c)"

definition au_sendInLoop :: "write_result \<Rightarrow> dgram \<Rightarrow> async_udp \<Rightarrow> async_udp" where
  "au_sendInLoop w d c =
     (if au_state c \<noteq> kActive then c
      else if \<not> au_isWriting c \<and> au_pending c = [] then
        (case w of
           WriteErr e \<Rightarrow>
             if e \<noteq> EAGAIN \<and> e \<noteq> EWOULDBLOCK then notifyError e (snd d) (settle d (FFailed e) c) else queue_datagram d c
         | WriteOk n \<Rightarrow>
             if n \<noteq> length (fst d) then notifyError EIO (snd d) (settle d (FFailed EIO) c)
             else queueWriteCompleteCallback (settle d FSent c))
      else queue_datagram d c)"

definition au_send :: "bool \<Rightarrow> write_result \<Rightarrow> dgram \<Rightarrow> async_udp \<Rightarrow> async_udp" where
  "au_send in_loop w d c =
     (if au_state c \<noteq> kActive then c else if in_loop then au_sendInLoop w d c else au_queueInLoop (DSend d) c)"

text \<open>\<^verbatim>\<open>UdpDatagram::recvFrom\<close> offers a buffer of \<^verbatim>\<open>kMTU\<close> bytes; the system discards what does not fit.\<close>

definition kMTU :: nat where "kMTU = 1500"

definition udp_recvFrom :: "read_result \<Rightarrow> int \<times> bytes" where
  "udp_recvFrom arrived =
     (case arrived of
        ReadErr e \<Rightarrow> (- 1, replicate kMTU (CHR 0x00))
      | ReadOk d \<Rightarrow> (let n = min kMTU (length d) in (int n, take n d)))"

definition au_handleRead :: "read_result \<Rightarrow> nat \<Rightarrow> async_udp \<Rightarrow> async_udp" where
  "au_handleRead arrived peer c =
     (if au_state c \<noteq> kActive then c
      else
        (case udp_recvFrom arrived of (recv_size, message) \<Rightarrow>
           if recv_size < 0 then c
           else if au_has_mcb c then c\<lparr>au_log := au_log c @ [UMessage message peer]\<rparr> else c))"

text \<open>The calls the error callback may make on the endpoint.\<close>

datatype udp_call = CallSend write_result dgram | CallClose | CallForceClose

definition run_call :: "udp_call \<Rightarrow> async_udp \<Rightarrow> async_udp" where
  "run_call k c =
     (case k of CallSend w d \<Rightarrow> au_send True w d c | CallClose \<Rightarrow> au_close True c | CallForceClose \<Rightarrow> au_forceClose True c)"

definition call_error_cb :: "(int \<Rightarrow> nat \<Rightarrow> udp_call list) \<Rightarrow> int \<Rightarrow> nat \<Rightarrow> async_udp \<Rightarrow> async_udp" where
  "call_error_cb cb e peer c = (if au_has_ecb c then fold run_call (cb e peer) (notifyError e peer c) else c)"

text \<open>\<^verbatim>\<open>pop_front\<close> of an empty queue is undefined.\<close>

definition pop_front :: "fate \<Rightarrow> async_udp \<Rightarrow> cpp_error + async_udp" where
  "pop_front f c =
     (case au_pending c of [] \<Rightarrow> Inl OutOfBounds
      | d # ds \<Rightarrow> Inr (c\<lparr>au_pending := ds, au_fate := au_fate c @ [(d, f)]\<rparr>))"

datatype drain_result = Drained async_udp | WouldBlock async_udp | Broken cpp_error

text \<open>The loop of \<^verbatim>\<open>handleWrite\<close> over the answers of \<^verbatim>\<open>sendto\<close>, \<^term>\<open>None\<close> when it asks for more of them.\<close>

fun drain :: "(int \<Rightarrow> nat \<Rightarrow> udp_call list) \<Rightarrow> write_result list \<Rightarrow> async_udp \<Rightarrow> drain_result option" where
  "drain cb [] c = (if au_pending c = [] then Some (Drained c) else None)"
| "drain cb (w # ws) c =
     (case au_pending c of
        [] \<Rightarrow> Some (Drained c)
      | (msg, peer) # ds \<Rightarrow>
          (case w of
             WriteErr e \<Rightarrow>
               if e = EAGAIN \<or> e = EWOULDBLOCK then Some (WouldBlock c)
               else (case pop_front (FFailed e) (call_error_cb cb e peer c) of
                       Inl err \<Rightarrow> Some (Broken err) | Inr c' \<Rightarrow> drain cb ws c')
           | WriteOk n \<Rightarrow>
               if n \<noteq> length msg then
                 (case pop_front (FFailed EIO) (call_error_cb cb EIO peer c) of
                    Inl err \<Rightarrow> Some (Broken err) | Inr c' \<Rightarrow> drain cb ws c')
               else (case pop_front FSent c of Inl err \<Rightarrow> Some (Broken err) | Inr c' \<Rightarrow> drain cb ws c')))"

definition au_handleWrite ::
  "(int \<Rightarrow> nat \<Rightarrow> udp_call list) \<Rightarrow> write_result list \<Rightarrow> async_udp \<Rightarrow> (cpp_error + async_udp) option" where
  "au_handleWrite cb ws c =
     (if au_state c \<noteq> kActive \<and> au_state c \<noteq> kClosing then Some (Inr c)
      else if \<not> au_isWriting c then Some (Inr c)
      else
        (case drain cb ws c of
           None \<Rightarrow> None
         | Some (Broken err) \<Rightarrow> Some (Inl err)
         | Some (WouldBlock c) \<Rightarrow> Some (Inr c)
         | Some (Drained c) \<Rightarrow>
             (let c = queueWriteCompleteCallback (au_channel_op DisableWriting c)
              in Some (Inr (if au_state c = kClosing then removeChannelInLoop c else c)))))"

definition au_handleError :: "int \<Rightarrow> async_udp \<Rightarrow> async_udp" where
  "au_handleError err c = notifyError err 0 c"

text \<open>A function the endpoint had queued, run by the loop. The completion holds no reference to the endpoint.\<close>

definition au_run_queued :: "write_result \<Rightarrow> udp_task \<Rightarrow> async_udp \<Rightarrow> async_udp" where
  "au_run_queued w t c =
     (case t of
        DStart \<Rightarrow> startInLoop c
      | DSend d \<Rightarrow> au_sendInLoop w d c
      | DClose \<Rightarrow> closeInLoop c
      | DForceClose \<Rightarrow> forceCloseInLoop c
      | DDestroy \<Rightarrow> destroyInLoop c
      | DWriteComplete \<Rightarrow>
          if au_released c \<or> au_state c \<noteq> kActive then c
          else if au_has_wcb c then c\<lparr>au_log := au_log c @ [UWriteDone]\<rparr> else c)"

section \<open>Steps\<close>

text \<open>Calls of the owners, in the loop thread or in another one; events of the channel, while the endpoint
  is owned; the loop running a queued function; the last owner letting go, when no queued function holds the
  endpoint.\<close>

datatype udp_label = UStart bool | USend bool write_result dgram | UClose bool | UForceClose bool
  | UReadable read_result nat | UWritable "int \<Rightarrow> nat \<Rightarrow> udp_call list" "write_result list" | UErrorEvent int
  | URun write_result | URelease bool

fun udp_step :: "udp_label \<Rightarrow> async_udp \<Rightarrow> (cpp_error + async_udp) option" where
  "udp_step (URun w) c =
     (case au_queue c of [] \<Rightarrow> None | t # ts \<Rightarrow> Some (Inr (au_run_queued w t (c\<lparr>au_queue := ts\<rparr>))))"
| "udp_step (URelease b) c =
     (if \<not> au_released c \<and> set (au_queue c) \<subseteq> {DWriteComplete} then Some (Inr (au_Destroy b c)) else None)"
| "udp_step (UStart b) c = (if au_released c then None else Some (Inr (au_start b c)))"
| "udp_step (USend b w d) c = (if au_released c then None else Some (Inr (au_send b w d c)))"
| "udp_step (UClose b) c = (if au_released c then None else Some (Inr (au_close b c)))"
| "udp_step (UForceClose b) c = (if au_released c then None else Some (Inr (au_forceClose b c)))"
| "udp_step (UReadable r peer) c = (if au_released c then None else Some (Inr (au_handleRead r peer c)))"
| "udp_step (UWritable cb ws) c = (if au_released c then None else au_handleWrite cb ws c)"
| "udp_step (UErrorEvent e) c = (if au_released c then None else Some (Inr (au_handleError e c)))"

inductive udp_reach :: "async_udp \<Rightarrow> bool" where
  start: "udp_reach (new_async_udp i fd mcb wcb ecb)"
| step: "udp_reach c \<Longrightarrow> udp_step l c = Some (Inr c') \<Longrightarrow> udp_reach c'"

section \<open>The invariant\<close>

text \<open>The datagrams taken on are those whose fate is known followed by those that wait; what the endpoint asked of
  the poller is in step with its channel.\<close>

definition au_polls_ok :: "async_udp \<Rightarrow> bool" where
  "au_polls_ok c \<longleftrightarrow> removes_known (au_polls c) no_polls
     \<and> ap_known (fold abs_step (au_polls c) no_polls) (au_id c) = au_known c
     \<and> ap_events (fold abs_step (au_polls c) no_polls) (au_id c) = ch_events (au_channel c)"

definition udp_base :: "async_udp \<Rightarrow> bool" where
  "udp_base c \<longleftrightarrow> au_accepted c = map fst (au_fate c) @ au_pending c \<and> au_polls_ok c"

definition closed_ok :: "async_udp \<Rightarrow> bool" where
  "closed_ok c \<longleftrightarrow> au_state c = kClosed \<and> \<not> au_known c \<and> au_channel_removed c \<and> au_pending c = []
     \<and> ch_events (au_channel c) = 0"

definition open_ok :: "async_udp \<Rightarrow> bool" where
  "open_ok c \<longleftrightarrow> (au_state c = kActive \<or> au_state c = kClosing) \<and> au_known c \<and> \<not> au_channel_removed c"

text \<open>Inside \<^verbatim>\<open>handleWrite\<close>, and between the steps.\<close>

definition draining :: "async_udp \<Rightarrow> bool" where
  "draining c \<longleftrightarrow> udp_base c \<and> (open_ok c \<and> au_isWriting c \<or> closed_ok c)"

definition udp_ok :: "async_udp \<Rightarrow> bool" where
  "udp_ok c \<longleftrightarrow> udp_base c \<and>
     (case au_state c of
        kUdpNew \<Rightarrow> \<not> au_known c \<and> \<not> au_channel_removed c \<and> au_pending c = [] \<and> ch_events (au_channel c) = 0
      | kActive \<Rightarrow> open_ok c \<and> (au_isWriting c \<longleftrightarrow> au_pending c \<noteq> [])
      | kClosing \<Rightarrow> open_ok c \<and> au_isWriting c \<and> au_pending c \<noteq> []
      | kClosed \<Rightarrow> closed_ok c)"

lemma write_bit: "(e :: 32 word) AND 4 = 0 \<longleftrightarrow> \<not> bit e 2"
  using and_exp_eq_0_iff_not_bit [of e 2] by simp

lemma au_isWriting_op [simp]:
  "au_isWriting (au_channel_op op c) = (case op of EnableWriting \<Rightarrow> True | DisableWriting \<Rightarrow> False | DisableAll \<Rightarrow> False
     | EnableReading \<Rightarrow> au_isWriting c | DisableReading \<Rightarrow> au_isWriting c)"
  by (cases op) (simp_all add: au_isWriting_def isWriting_def au_channel_op_def event_bits write_bit bit_simps)

lemma au_channel_op_frame [simp]:
  "au_state (au_channel_op op c) = au_state c" "au_pending (au_channel_op op c) = au_pending c"
  "au_known (au_channel_op op c) = True" "au_channel_removed (au_channel_op op c) = au_channel_removed c"
  "au_accepted (au_channel_op op c) = au_accepted c" "au_fate (au_channel_op op c) = au_fate c"
  "au_has_wcb (au_channel_op op c) = au_has_wcb c" "au_has_ecb (au_channel_op op c) = au_has_ecb c"
  "au_queue (au_channel_op op c) = au_queue c" "au_released (au_channel_op op c) = au_released c"
  "au_deleted (au_channel_op op c) = au_deleted c" "au_log (au_channel_op op c) = au_log c"
  by (simp_all add: au_channel_op_def)

lemma au_polls_op [simp]: "au_polls_ok c \<Longrightarrow> au_polls_ok (au_channel_op op c)"
  by (simp add: au_polls_ok_def au_channel_op_def removes_known_append)

lemma au_polls_remove [simp]: "au_polls_ok c \<Longrightarrow> au_known c \<Longrightarrow> au_polls_ok (au_remove c)"
  by (simp add: au_polls_ok_def au_remove_def removes_known_append)

text \<open>Fields the channel and the queues do not depend on.\<close>

lemma au_polls_frame [simp]:
  "au_polls_ok (c\<lparr>au_state := s\<rparr>) = au_polls_ok c" "au_polls_ok (c\<lparr>au_pending := ds\<rparr>) = au_polls_ok c"
  "au_polls_ok (c\<lparr>au_fate := fs\<rparr>) = au_polls_ok c" "au_polls_ok (c\<lparr>au_accepted := as\<rparr>) = au_polls_ok c"
  "au_polls_ok (c\<lparr>au_log := l\<rparr>) = au_polls_ok c" "au_polls_ok (c\<lparr>au_queue := q\<rparr>) = au_polls_ok c"
  "au_polls_ok (c\<lparr>au_channel_removed := b\<rparr>) = au_polls_ok c" "au_polls_ok (c\<lparr>au_released := b\<rparr>) = au_polls_ok c"
  "au_polls_ok (c\<lparr>au_deleted := b\<rparr>) = au_polls_ok c"
  by (simp_all add: au_polls_ok_def)

lemma au_writing_frame [simp]:
  "au_isWriting (c\<lparr>au_state := s\<rparr>) = au_isWriting c" "au_isWriting (c\<lparr>au_pending := ds\<rparr>) = au_isWriting c"
  "au_isWriting (c\<lparr>au_fate := fs\<rparr>) = au_isWriting c" "au_isWriting (c\<lparr>au_accepted := as\<rparr>) = au_isWriting c"
  "au_isWriting (c\<lparr>au_log := l\<rparr>) = au_isWriting c" "au_isWriting (c\<lparr>au_queue := q\<rparr>) = au_isWriting c"
  by (simp_all add: au_isWriting_def)

lemma udp_ok_frame [simp]:
  "udp_ok (c\<lparr>au_log := l\<rparr>) = udp_ok c" "udp_ok (c\<lparr>au_queue := q\<rparr>) = udp_ok c"
  "udp_ok (c\<lparr>au_released := b\<rparr>) = udp_ok c" "udp_ok (c\<lparr>au_deleted := b\<rparr>) = udp_ok c"
  by (simp_all add: udp_ok_def udp_base_def open_ok_def closed_ok_def au_isWriting_def cong: udp_state.case_cong)

lemma draining_frame [simp]:
  "draining (c\<lparr>au_log := l\<rparr>) = draining c" "draining (c\<lparr>au_queue := q\<rparr>) = draining c"
  by (simp_all add: draining_def udp_base_def open_ok_def closed_ok_def)

lemma udp_base_events: "udp_base c \<Longrightarrow> ch_events (au_channel (au_channel_op DisableAll c)) = 0"
  by (simp add: au_channel_op_def kNonEvent_def)

text \<open>Removing the channel closes the endpoint, whatever it was doing.\<close>

lemma removeChannel_closed:
  assumes "udp_base c" "\<not> au_channel_removed c" "au_known c \<or> ch_events (au_channel c) = 0" "au_state c \<noteq> kClosed"
  shows "udp_base (removeChannelInLoop c) \<and> closed_ok (removeChannelInLoop c)"
proof (cases "au_known c")
  case True
  let ?d = "au_remove (au_channel_op DisableAll c)"
  have "au_polls_ok ?d" using assms(1) True by (simp add: udp_base_def)
  then have "au_polls_ok (removeChannelInLoop c)"
    using assms True by (simp add: removeChannelInLoop_def Let_def drop_pending_def)
  then show ?thesis using assms True
    by (auto simp: udp_base_def closed_ok_def removeChannelInLoop_def drop_pending_def au_remove_def au_channel_op_def
        kNonEvent_def Let_def comp_def)
next
  case False
  then show ?thesis using assms
    by (auto simp: udp_base_def closed_ok_def removeChannelInLoop_def drop_pending_def Let_def comp_def)
qed

lemma drop_pending_base: "udp_base c \<Longrightarrow> udp_base (drop_pending c)"
  by (auto simp: udp_base_def drop_pending_def comp_def)

lemma drop_pending_frame [simp]:
  "au_state (drop_pending c) = au_state c" "au_known (drop_pending c) = au_known c" "au_channel (drop_pending c) = au_channel c"
  "au_channel_removed (drop_pending c) = au_channel_removed c"
  by (simp_all add: drop_pending_def)

lemma udp_ok_closed: "udp_base c \<Longrightarrow> closed_ok c \<Longrightarrow> udp_ok c"
  by (simp add: udp_ok_def closed_ok_def)

lemma udp_ok_base: "udp_ok c \<Longrightarrow> udp_base c"
  by (simp add: udp_ok_def)

lemma udp_ok_removable:
  "udp_ok c \<Longrightarrow> au_state c \<noteq> kClosed \<Longrightarrow> \<not> au_channel_removed c \<and> (au_known c \<or> ch_events (au_channel c) = 0)"
  by (auto simp: udp_ok_def open_ok_def split: udp_state.splits)

section \<open>The operations keep it\<close>

lemma forceClose_ok:
  assumes "udp_ok c"
  shows "udp_ok (forceCloseInLoop c)"
proof (cases "au_state c = kClosed")
  case False
  then show ?thesis
    using removeChannel_closed [OF drop_pending_base [OF udp_ok_base [OF assms]]] udp_ok_removable [OF assms False]
    by (auto simp: forceCloseInLoop_def intro: udp_ok_closed)
qed (use assms in \<open>simp add: forceCloseInLoop_def\<close>)

lemma close_ok:
  assumes "udp_ok c"
  shows "udp_ok (closeInLoop c)"
proof (cases "au_state c = kClosed \<or> au_state c = kClosing")
  case False
  note rem = udp_ok_removable [OF assms]
  show ?thesis
  proof (cases "au_isWriting c \<and> au_pending c \<noteq> []")
    case True
    then show ?thesis using assms False rem
      by (auto simp: closeInLoop_def Let_def udp_ok_def udp_base_def open_ok_def split: udp_state.splits)
  next
    case no: False
    have "udp_base (c\<lparr>au_state := kClosing\<rparr>)" using udp_ok_base [OF assms] by (simp add: udp_base_def)
    then show ?thesis using removeChannel_closed [of "c\<lparr>au_state := kClosing\<rparr>"] no False rem
      by (auto simp: closeInLoop_def Let_def intro: udp_ok_closed)
  qed
qed (use assms in \<open>auto simp: closeInLoop_def\<close>)

lemma start_ok: "udp_ok c \<Longrightarrow> udp_ok (startInLoop c)"
proof (cases "au_state c = kUdpNew")
  case True
  assume c: "udp_ok c"
  let ?d = "c\<lparr>au_channel := (au_channel c)\<lparr>ch_tied := True\<rparr>, au_state := kActive\<rparr>"
  have "au_polls_ok ?d" using udp_ok_base [OF c] by (simp add: udp_base_def au_polls_ok_def)
  moreover have "\<not> au_isWriting ?d" using c True by (simp add: udp_ok_def au_isWriting_def isWriting_def)
  ultimately show ?thesis using c True
    by (auto simp: startInLoop_def udp_ok_def udp_base_def open_ok_def)
qed (simp add: startInLoop_def)

lemma queue_datagram_ok: "udp_ok c \<Longrightarrow> au_state c = kActive \<Longrightarrow> udp_ok (queue_datagram d c)"
  by (auto simp: queue_datagram_def Let_def udp_ok_def udp_base_def open_ok_def)

lemma notifyError_ok [simp]: "udp_ok (notifyError e p c) = udp_ok c" "draining (notifyError e p c) = draining c"
  by (simp_all add: notifyError_def)

lemma queueWriteComplete_ok [simp]: "udp_ok (queueWriteCompleteCallback c) = udp_ok c"
  by (simp add: queueWriteCompleteCallback_def au_queueInLoop_def)

lemma settle_ok:
  assumes "udp_ok c" "au_state c = kActive" "au_pending c = []"
  shows "udp_ok (settle d f c)"
  using assms by (auto simp: settle_def udp_ok_def udp_base_def open_ok_def)

lemma send_ok:
  assumes "udp_ok c"
  shows "udp_ok (au_sendInLoop w d c)"
proof (cases "au_state c = kActive")
  case True
  then show ?thesis using assms
    by (auto simp: au_sendInLoop_def queue_datagram_ok settle_ok split: write_result.splits)
qed (use assms in \<open>simp add: au_sendInLoop_def\<close>)

lemma run_queued_ok: "udp_ok c \<Longrightarrow> udp_ok (au_run_queued w t c)"
  by (cases t) (auto simp: au_run_queued_def start_ok send_ok close_ok forceClose_ok destroyInLoop_def)

text \<open>The error callback in the loop of \<^verbatim>\<open>handleWrite\<close>.\<close>

lemma draining_run_call:
  assumes "draining c"
  shows "draining (run_call k c)"
proof (cases "au_state c = kClosed")
  case True
  then show ?thesis using assms
    by (cases k) (auto simp: run_call_def au_send_def au_close_def au_forceClose_def)
next
  case False
  then have b: "udp_base c" "open_ok c" "au_isWriting c" using assms by (auto simp: draining_def closed_ok_def)
  have c: "udp_base (c\<lparr>au_state := kClosing\<rparr>)" using b(1) by (simp add: udp_base_def)
  show ?thesis
  proof (cases k)
    case (CallSend w d)
    then show ?thesis using b False
      by (auto simp: run_call_def au_send_def au_sendInLoop_def queue_datagram_def Let_def draining_def udp_base_def
          open_ok_def)
  next
    case CallClose
    have "draining (removeChannelInLoop (c\<lparr>au_state := kClosing\<rparr>))"
      using removeChannel_closed [OF c] b(2) by (auto simp: draining_def open_ok_def)
    then show ?thesis using CallClose b assms
      by (auto simp: run_call_def au_close_def closeInLoop_def Let_def draining_def udp_base_def open_ok_def)
  next
    case CallForceClose
    then show ?thesis using removeChannel_closed [OF drop_pending_base [OF b(1)]] b(2) False
      by (auto simp: run_call_def au_forceClose_def forceCloseInLoop_def draining_def open_ok_def)
  qed
qed

lemma draining_call_error_cb: "draining c \<Longrightarrow> draining (call_error_cb cb e p c)"
proof -
  have "draining d \<Longrightarrow> draining (fold run_call ks d)" for ks d
    by (induction ks arbitrary: d) (auto intro: draining_run_call)
  then show "draining c \<Longrightarrow> draining (call_error_cb cb e p c)" by (simp add: call_error_cb_def)
qed

lemma pop_front_draining:
  assumes "draining c" "pop_front f c = Inr d"
  shows "draining d \<and> open_ok d"
  using assms by (auto simp: pop_front_def draining_def udp_base_def open_ok_def closed_ok_def au_isWriting_def
      split: list.splits)

text \<open>One round of the loop: nothing to do, the socket is full, or the first datagram leaves the queue.\<close>

lemma drain_round:
  assumes "drain cb (w # ws) c = Some r" "draining c"
  shows "au_pending c = [] \<and> r = Drained c \<or> au_pending c \<noteq> [] \<and> r = WouldBlock c \<or> (\<exists>err. r = Broken err)
    \<or> (\<exists>f e e'. draining e \<and> pop_front f e = Inr e' \<and> drain cb ws e' = Some r)"
proof (cases "au_pending c")
  case (Cons d ds)
  obtain msg peer where d: "d = (msg, peer)" by force
  note cb_ok = draining_call_error_cb [OF assms(2), of cb]
  have step: ?thesis if "(case pop_front f e of Inl err \<Rightarrow> Some (Broken err) | Inr c' \<Rightarrow> drain cb ws c') = Some r" "draining e" for f e
    using that by (cases "pop_front f e") auto
  show ?thesis
  proof (cases w)
    case (WriteErr e)
    then show ?thesis using assms(1) Cons d step [OF _ cb_ok] by (simp split: if_splits)
  next
    case (WriteOk n)
    show ?thesis
    proof (cases "n = length msg")
      case True
      then show ?thesis using assms(1) Cons d WriteOk step [OF _ assms(2)] by simp
    next
      case False
      then show ?thesis using assms(1) Cons d WriteOk step [OF _ cb_ok] by simp
    qed
  qed
qed (use assms in simp)

lemma drain_ok:
  assumes "draining c" "open_ok c" "drain cb ws c = Some r"
  shows "(\<forall>d. r = Drained d \<longrightarrow> draining d \<and> open_ok d \<and> au_pending d = [])
    \<and> (\<forall>d. r = WouldBlock d \<longrightarrow> draining d \<and> open_ok d \<and> au_pending d \<noteq> [])"
  using assms
proof (induction ws arbitrary: c)
  case Nil
  then show ?case by (auto split: if_splits)
next
  case (Cons w ws)
  from drain_round [OF Cons.prems(3,1)] consider "au_pending c = [] \<and> r = Drained c" | "au_pending c \<noteq> [] \<and> r = WouldBlock c"
    | err where "r = Broken err" | f e e' where "draining e" "pop_front f e = Inr e'" "drain cb ws e' = Some r" by blast
  then show ?case
  proof cases
    case 4
    then show ?thesis using Cons.IH pop_front_draining by blast
  qed (use Cons.prems in auto)
qed

lemma handleWrite_ok:
  assumes "udp_ok c" "au_handleWrite cb ws c = Some (Inr c')"
  shows "udp_ok c'"
proof (cases "(au_state c = kActive \<or> au_state c = kClosing) \<and> au_isWriting c")
  case True
  then have d: "draining c" "open_ok c" using assms(1) by (auto simp: udp_ok_def draining_def)
  obtain r where r: "drain cb ws c = Some r" using assms(2) True by (auto simp: au_handleWrite_def split: option.splits)
  note ok = drain_ok [OF d r]
  show ?thesis
  proof (cases r)
    case (WouldBlock b)
    then show ?thesis using ok assms(2) True r
      by (auto simp: au_handleWrite_def udp_ok_def draining_def open_ok_def closed_ok_def split: udp_state.splits)
  next
    case (Drained b)
    let ?e = "au_channel_op DisableWriting b"
    have b: "udp_base b" "open_ok b" "au_pending b = []" using ok Drained by (auto simp: draining_def)
    then have e: "udp_base ?e" by (simp add: udp_base_def)
    have c': "c' = (if au_state b = kClosing then removeChannelInLoop (queueWriteCompleteCallback ?e)
        else queueWriteCompleteCallback ?e)"
      using assms(2) True r Drained
      by (auto simp: au_handleWrite_def Let_def queueWriteCompleteCallback_def au_queueInLoop_def split: if_splits)
    show ?thesis
    proof (cases "au_state b = kClosing")
      case True
      let ?f = "queueWriteCompleteCallback ?e"
      have "udp_base ?f" "\<not> au_channel_removed ?f" "au_known ?f" "au_state ?f = kClosing" using e b(2) True
        by (auto simp: queueWriteCompleteCallback_def au_queueInLoop_def udp_base_def open_ok_def)
      then show ?thesis using removeChannel_closed [of ?f] True by (auto simp: c' intro: udp_ok_closed)
    next
      case False
      then have "udp_ok ?e" using e b by (auto simp: udp_ok_def open_ok_def)
      then show ?thesis using False by (simp add: c')
    qed
  qed (use assms(2) True r in \<open>auto simp: au_handleWrite_def\<close>)
qed (use assms in \<open>auto simp: au_handleWrite_def split: if_splits\<close>)

lemma udp_step_ok:
  assumes "udp_ok c" "udp_step l c = Some (Inr c')"
  shows "udp_ok c'"
proof (cases l)
  case (UReadable r peer)
  then show ?thesis using assms by (auto simp: au_handleRead_def split: if_splits prod.splits)
next
  case (UWritable cb ws)
  then show ?thesis using assms handleWrite_ok by (auto split: if_splits)
next
  case (URun w)
  then show ?thesis using assms by (auto intro!: run_queued_ok split: list.splits)
next
  case (UStart b)
  then show ?thesis using assms by (auto simp: au_start_def au_queueInLoop_def start_ok split: if_splits)
next
  case (USend b w d)
  then show ?thesis using assms by (auto simp: au_send_def au_queueInLoop_def send_ok split: if_splits)
next
  case (UClose b)
  then show ?thesis using assms by (auto simp: au_close_def au_queueInLoop_def close_ok split: if_splits)
next
  case (UForceClose b)
  then show ?thesis using assms by (auto simp: au_forceClose_def au_queueInLoop_def forceClose_ok split: if_splits)
next
  case (URelease b)
  then show ?thesis using assms by (auto simp: au_Destroy_def au_queueInLoop_def destroyInLoop_def forceClose_ok split: if_splits)
next
  case (UErrorEvent e)
  then show ?thesis using assms by (auto simp: au_handleError_def split: if_splits)
qed

lemma udp_reach_ok: "udp_reach c \<Longrightarrow> udp_ok c"
proof (induction rule: udp_reach.induct)
  case (start i fd mcb wcb ecb)
  show ?case
    by (simp add: new_async_udp_def udp_ok_def udp_base_def au_polls_ok_def no_polls_def new_channel_def)
next
  case (step c l c')
  then show ?case by (blast intro: udp_step_ok)
qed

section \<open>Draining\<close>

text \<open>When the system takes every datagram whole, one call of \<^verbatim>\<open>handleWrite\<close> sends them all.\<close>

lemma drain_whole:
  "drain cb (map (\<lambda>d. WriteOk (length (fst d))) (au_pending c)) c
     = Some (Drained (c\<lparr>au_pending := [], au_fate := au_fate c @ map (\<lambda>d. (d, FSent)) (au_pending c)\<rparr>))"
proof (induction "au_pending c" arbitrary: c)
  case Nil
  then show ?case by (cases c) simp
next
  case (Cons d ds)
  let ?c = "c\<lparr>au_pending := ds, au_fate := au_fate c @ [(d, FSent)]\<rparr>"
  show ?case using Cons.hyps(1) [of ?c] Cons.hyps(2) [symmetric]
    by (cases d) (simp add: pop_front_def)
qed

text \<open>A callback that does not force the close leaves the datagram it was called for in the queue.\<close>

lemma run_call_pending:
  assumes "draining c" "au_pending c = d # ds" "k \<noteq> CallForceClose"
  shows "\<exists>ds'. au_pending (run_call k c) = d # ds'"
proof -
  have b: "open_ok c" "au_isWriting c" using assms(1,2) by (auto simp: draining_def closed_ok_def)
  show ?thesis
  proof (cases k)
    case (CallSend w e)
    then show ?thesis using b assms(2)
      by (auto simp: run_call_def au_send_def au_sendInLoop_def queue_datagram_def Let_def)
  next
    case CallClose
    then show ?thesis using b assms(2)
      by (auto simp: run_call_def au_close_def closeInLoop_def Let_def open_ok_def)
  qed (use assms(3) in simp)
qed

lemma call_error_cb_pending:
  assumes "draining c" "au_pending c = d # ds" "CallForceClose \<notin> set (cb e p)"
  shows "\<exists>ds'. au_pending (call_error_cb cb e p c) = d # ds'"
proof -
  have "\<exists>ds'. au_pending (fold run_call ks c') = d # ds'"
    if "draining c'" "\<exists>ds. au_pending c' = d # ds" "CallForceClose \<notin> set ks" for ks c'
    using that
  proof (induction ks arbitrary: c')
    case (Cons k ks)
    then show ?case using run_call_pending [of c' d _ k] draining_run_call [of c' k] by auto
  qed simp
  then show ?thesis using assms by (simp add: call_error_cb_def) (simp add: notifyError_def)
qed

lemma drain_safe:
  assumes "draining c" "\<forall>e p. CallForceClose \<notin> set (cb e p)"
  shows "drain cb ws c \<noteq> Some (Broken err)"
  using assms(1)
proof (induction ws arbitrary: c)
  case (Cons w ws)
  note IH = Cons.IH and prem = Cons.prems
  show ?case
  proof (cases "au_pending c")
    case Nil
    then show ?thesis by simp
  next
    case (Cons d ds)
    obtain msg peer where d: "d = (msg, peer)" by force
    have on: "(case pop_front f e of Inl x \<Rightarrow> Some (Broken x) | Inr c' \<Rightarrow> drain cb ws c') \<noteq> Some (Broken err)"
      if e: "draining e" "\<exists>ds'. au_pending e = d # ds'" for f e
    proof -
      obtain e' where "pop_front f e = Inr e'" using e(2) by (auto simp: pop_front_def)
      then show ?thesis using IH pop_front_draining [OF e(1)] by simp
    qed
    have cb_on: "draining (call_error_cb cb e peer c)" "\<exists>ds'. au_pending (call_error_cb cb e peer c) = d # ds'" for e
      using draining_call_error_cb [OF prem] call_error_cb_pending [OF prem Cons] assms(2) by auto
    show ?thesis
      using Cons d on [OF cb_on] on [OF prem] by (simp split: write_result.split)
  qed
qed simp

section \<open>The endpoint as a first-in first-out service\<close>

definition udp_grows :: "async_udp \<Rightarrow> async_udp \<Rightarrow> bool" where
  "udp_grows c c' \<longleftrightarrow> prefix (au_accepted c) (au_accepted c') \<and> prefix (au_fate c) (au_fate c')"

lemma udp_grows_refl [simp]: "udp_grows c c"
  by (simp add: udp_grows_def)

lemma udp_grows_trans: "udp_grows c d \<Longrightarrow> udp_grows d e \<Longrightarrow> udp_grows c e"
  unfolding udp_grows_def by (metis prefix_order.trans)

lemma removeChannel_grows: "udp_grows c (removeChannelInLoop c)"
  by (simp add: udp_grows_def removeChannelInLoop_def drop_pending_def au_remove_def Let_def)

lemma forceClose_grows: "udp_grows c (forceCloseInLoop c)"
proof -
  have "udp_grows c (drop_pending c)" by (simp add: udp_grows_def drop_pending_def)
  then show ?thesis
    using udp_grows_trans [OF _ removeChannel_grows [of "drop_pending c"]] by (simp add: forceCloseInLoop_def)
qed

lemma close_grows: "udp_grows c (closeInLoop c)"
  using removeChannel_grows [of "c\<lparr>au_state := kClosing\<rparr>"] by (auto simp: closeInLoop_def udp_grows_def Let_def)

lemma send_grows: "udp_grows c (au_sendInLoop w d c)"
  by (auto simp: au_sendInLoop_def udp_grows_def settle_def queue_datagram_def notifyError_def
      queueWriteCompleteCallback_def au_queueInLoop_def Let_def split: write_result.split)

lemma start_grows: "udp_grows c (startInLoop c)"
  by (simp add: startInLoop_def udp_grows_def)

lemma run_call_grows: "udp_grows c (run_call k c)"
  by (cases k) (simp_all add: run_call_def au_send_def au_close_def au_forceClose_def send_grows close_grows forceClose_grows)

lemma call_error_cb_grows: "udp_grows c (call_error_cb cb e p c)"
proof -
  have "udp_grows d (fold run_call ks d)" for ks d
    by (induction ks arbitrary: d) (auto intro: udp_grows_trans run_call_grows)
  from this [of "notifyError e p c" "cb e p"] show ?thesis
    by (auto simp: call_error_cb_def udp_grows_def notifyError_def)
qed

lemma pop_front_grows: "pop_front f c = Inr c' \<Longrightarrow> udp_grows c c'"
  by (auto simp: pop_front_def udp_grows_def split: list.splits)

lemma drain_grows:
  "drain cb ws c = Some r \<Longrightarrow> r = Drained c' \<or> r = WouldBlock c' \<Longrightarrow> udp_grows c c'"
proof (induction ws arbitrary: c)
  case (Cons w ws)
  have next_round: "udp_grows c c'"
    if "(case pop_front f e of Inl err \<Rightarrow> Some (Broken err) | Inr d \<Rightarrow> drain cb ws d) = Some r" "udp_grows c e" for f e
    using that Cons.IH Cons.prems(2)
    by (auto split: sum.splits intro: udp_grows_trans dest!: pop_front_grows)
  show ?case
  proof (cases "au_pending c")
    case (Cons d ds)
    obtain msg peer where d: "d = (msg, peer)" by force
    show ?thesis
    proof (cases w)
      case (WriteErr e)
      then show ?thesis using Cons.prems \<open>au_pending c = d # ds\<close> d next_round [OF _ call_error_cb_grows]
        by (auto split: if_splits)
    next
      case (WriteOk n)
      then show ?thesis
        using Cons.prems \<open>au_pending c = d # ds\<close> d next_round [OF _ call_error_cb_grows] next_round [OF _ udp_grows_refl]
        by (cases "n = length msg") auto
    qed
  qed (use Cons.prems in auto)
qed (auto split: if_splits)

lemma handleWrite_grows:
  assumes "au_handleWrite cb ws c = Some (Inr c')"
  shows "udp_grows c c'"
proof (cases "(au_state c = kActive \<or> au_state c = kClosing) \<and> au_isWriting c")
  case True
  then obtain r where r: "drain cb ws c = Some r" using assms by (auto simp: au_handleWrite_def split: option.splits)
  show ?thesis
  proof (cases r)
    case (Drained b)
    let ?e = "queueWriteCompleteCallback (au_channel_op DisableWriting b)"
    have "udp_grows c b" using drain_grows [OF r] Drained by simp
    then have "udp_grows c ?e" by (simp add: udp_grows_def queueWriteCompleteCallback_def au_queueInLoop_def)
    moreover have "c' = ?e \<or> c' = removeChannelInLoop ?e"
      using assms True r Drained by (auto simp: au_handleWrite_def Let_def split: if_splits)
    ultimately show ?thesis using removeChannel_grows udp_grows_trans by blast
  next
    case (WouldBlock b)
    then show ?thesis using assms True r drain_grows [OF r] by (auto simp: au_handleWrite_def)
  qed (use assms True r in \<open>auto simp: au_handleWrite_def\<close>)
qed (use assms in \<open>auto simp: au_handleWrite_def split: if_splits\<close>)

lemma udp_step_grows:
  assumes "udp_step l c = Some (Inr c')"
  shows "udp_grows c c'"
proof (cases l)
  case (URun w)
  then obtain t ts where t: "au_queue c = t # ts" "c' = au_run_queued w t (c\<lparr>au_queue := ts\<rparr>)"
    using assms by (auto split: list.splits)
  let ?c = "c\<lparr>au_queue := ts\<rparr>"
  have "udp_grows ?c (destroyInLoop ?c)" "udp_grows ?c (au_run_queued w DWriteComplete ?c)"
    using forceClose_grows [of ?c] by (simp_all add: destroyInLoop_def au_run_queued_def udp_grows_def)
  then have "udp_grows ?c (au_run_queued w t ?c)"
    by (cases t) (simp_all add: au_run_queued_def start_grows send_grows close_grows forceClose_grows)
  then show ?thesis using t by (simp add: udp_grows_def)
next
  case (UWritable cb ws)
  then show ?thesis using assms handleWrite_grows by (auto split: if_splits)
next
  case (URelease b)
  then show ?thesis using assms forceClose_grows [of "c\<lparr>au_released := True\<rparr>"]
    by (auto simp: au_Destroy_def au_queueInLoop_def destroyInLoop_def udp_grows_def split: if_splits)
next
  case (UReadable r peer)
  then show ?thesis using assms by (auto simp: au_handleRead_def udp_grows_def split: if_splits prod.splits)
qed (use assms in \<open>auto simp: au_start_def au_send_def au_close_def au_forceClose_def au_queueInLoop_def au_handleError_def
      notifyError_def udp_grows_def [of _ "_\<lparr>au_queue := _\<rparr>"] udp_grows_def [of _ "_\<lparr>au_log := _\<rparr>"] start_grows send_grows
      close_grows forceClose_grows split: if_splits\<close>)

interpretation uf: fifo_service udp_reach "\<lambda>c c'. \<exists>l. udp_step l c = Some (Inr c')" au_accepted
  "\<lambda>c. map fst (au_fate c)" au_pending
proof
  show "au_accepted c = map fst (au_fate c) @ au_pending c" if "udp_reach c" for c
    using udp_reach_ok [OF that] by (simp add: udp_ok_def udp_base_def)
qed (auto intro: udp_reach.step dest: udp_step_grows simp: udp_grows_def map_mono_prefix)

text \<open>Runs.\<close>

fun udp_run :: "udp_label list \<Rightarrow> async_udp \<Rightarrow> async_udp option" where
  "udp_run [] c = Some c"
| "udp_run (l # ls) c = (case udp_step l c of Some (Inr c') \<Rightarrow> udp_run ls c' | _ \<Rightarrow> None)"

lemma udp_run_reach: "udp_reach c \<Longrightarrow> udp_run ls c = Some c' \<Longrightarrow> udp_reach c'"
  by (induction ls arbitrary: c) (auto split: option.splits sum.splits intro: udp_reach.step)

lemma udp_run_moves: "udp_run ls c = Some c' \<Longrightarrow> (\<lambda>c c'. \<exists>l. udp_step l c = Some (Inr c'))\<^sup>*\<^sup>* c c'"
proof (induction ls arbitrary: c)
  case (Cons l ls)
  then obtain d where d: "udp_step l c = Some (Inr d)" "udp_run ls d = Some c'" by (auto split: option.splits sum.splits)
  with Cons.IH [of d] show ?case by (blast intro: converse_rtranclp_into_rtranclp)
qed simp

section \<open>Properties\<close>

text \<open>C27. \<^bold>\<open>Datagrams keep their boundaries and their order.\<close> In every reachable state the datagrams the
  endpoint took on are, in this order, those that were sent whole, failed or were dropped by a close, followed by
  those that wait; write events are on exactly while some wait, and an endpoint that is closing still has some.
  Whatever happens from there on, each datagram meets its fate at the position at which it was taken on.\<close>

theorem datagrams_in_order_once:
  assumes "udp_reach c"
  shows "au_accepted c = map fst (au_fate c) @ au_pending c
    \<and> (au_state c = kActive \<longrightarrow> au_isWriting c = (au_pending c \<noteq> []))
    \<and> (au_state c = kClosing \<longrightarrow> au_isWriting c \<and> au_pending c \<noteq> [])
    \<and> (au_state c = kUdpNew \<or> au_state c = kClosed \<longrightarrow> au_pending c = [])
    \<and> (\<forall>ls c' i. udp_run ls c = Some c' \<longrightarrow> i < length (au_accepted c) \<longrightarrow> i < length (au_fate c')
         \<longrightarrow> fst (au_fate c' ! i) = au_accepted c ! i)"
  using udp_reach_ok [OF assms] uf.served_at_its_turn [OF udp_run_moves assms]
  by (auto simp: udp_ok_def udp_base_def closed_ok_def simp del: udp_run.simps split: udp_state.splits)

definition closing_endpoint :: async_udp where
  "closing_endpoint = (case udp_run [UStart True, USend True (WriteErr EAGAIN) (''a'', 1), USend False (WriteOk 0) (''bc'', 2),
     URun (WriteOk 0), UClose True] (new_async_udp 0 5 True True True) of Some c \<Rightarrow> c | None \<Rightarrow> new_async_udp 0 5 True True True)"

lemmas eval_udp = new_async_udp_def new_channel_def au_start_def startInLoop_def au_channel_op_def au_send_def
  au_sendInLoop_def au_isWriting_def isWriting_def event_bits queue_datagram_def au_queueInLoop_def au_run_queued_def
  au_close_def closeInLoop_def EAGAIN_def EWOULDBLOCK_def Let_def

lemma closing_endpoint_run:
  "udp_run [UStart True, USend True (WriteErr EAGAIN) (''a'', 1), USend False (WriteOk 0) (''bc'', 2), URun (WriteOk 0),
     UClose True] (new_async_udp 0 5 True True True) = Some closing_endpoint
   \<and> au_state closing_endpoint = kClosing \<and> au_pending closing_endpoint = [(''a'', 1), (''bc'', 2)]
   \<and> au_fate closing_endpoint = [] \<and> au_has_ecb closing_endpoint"
  by (simp add: closing_endpoint_def eval_udp)

lemma closing_endpoint_reach: "udp_reach closing_endpoint"
  using udp_run_reach [OF udp_reach.start] closing_endpoint_run by blast

theorem datagrams_in_order_once_witness:
  "au_accepted closing_endpoint = [(''a'', 1), (''bc'', 2)] \<and> au_isWriting closing_endpoint"
  using datagrams_in_order_once [OF closing_endpoint_reach] closing_endpoint_run by simp

text \<open>C28. \<^bold>\<open>A graceful close sends what waits.\<close> When the system takes the datagrams whole, the next write
  event of an endpoint that is closing sends every waiting datagram, in order, and then removes the channel and
  closes, whatever the error callback would do.\<close>

theorem graceful_close_sends_all:
  assumes "udp_reach c" "au_state c = kClosing"
  shows "\<exists>c'. au_handleWrite cb (map (\<lambda>d. WriteOk (length (fst d))) (au_pending c)) c = Some (Inr c')
    \<and> au_state c' = kClosed \<and> \<not> au_known c' \<and> au_pending c' = []
    \<and> au_fate c' = au_fate c @ map (\<lambda>d. (d, FSent)) (au_pending c)"
proof -
  have ok: "au_isWriting c" "open_ok c" using udp_reach_ok [OF assms(1)] assms(2) by (auto simp: udp_ok_def)
  then show ?thesis using assms(2)
    by (simp add: au_handleWrite_def drain_whole Let_def queueWriteCompleteCallback_def au_queueInLoop_def
        removeChannelInLoop_def open_ok_def drop_pending_def au_remove_def)
qed

theorem graceful_close_sends_all_witness:
  "\<exists>c'. au_handleWrite (\<lambda>e p. []) [WriteOk 1, WriteOk 2] closing_endpoint = Some (Inr c') \<and> au_state c' = kClosed
    \<and> au_fate c' = [((''a'', 1), FSent), ((''bc'', 2), FSent)]"
  using graceful_close_sends_all [OF closing_endpoint_reach, of "\<lambda>e p. []"] closing_endpoint_run
  by (auto simp: numeral_2_eq_2)

text \<open>\<^bold>\<open>The endpoint and its poller agree.\<close> The channel operations of an endpoint, replayed on either
  poller, never fail; the channel has an index in the poller exactly while the endpoint is open (which is what
  \<^verbatim>\<open>removeChannelInLoop\<close> tests), its events are then watched, and a closed endpoint is known to no poller.\<close>

theorem endpoint_and_poller:
  assumes "udp_reach c" "fresh_channels cs" "\<And>i. ch_events (cs i) = 0"
  shows "\<exists>p q. ep_run (au_polls c) cs = Inr p \<and> pp_run (au_polls c) cs = Inr q
    \<and> (0 \<le> ch_index (ep_chans p (au_id c))) = (au_state c = kActive \<or> au_state c = kClosing)
    \<and> (0 \<le> ch_index (pp_chans q (au_id c))) = (au_state c = kActive \<or> au_state c = kClosing)
    \<and> au_known c = (au_state c = kActive \<or> au_state c = kClosing)
    \<and> ep_watched p (au_id c) = (if au_known c then ucast (ch_events (au_channel c)) else 0)
    \<and> pp_watched q (au_id c) = ep_watched p (au_id c)"
proof -
  have c: "au_polls_ok c" "au_known c = (au_state c = kActive \<or> au_state c = kClosing)"
    using udp_reach_ok [OF assms(1)]
    by (auto simp: udp_ok_def udp_base_def open_ok_def closed_ok_def split: udp_state.splits)
  have k: "removes_known (au_polls c) no_polls" using c(1) by (simp add: au_polls_ok_def)
  from replay [OF assms(2,3) k] show ?thesis
    using c index_known by (auto simp: au_polls_ok_def ap_watched_def)
qed

theorem endpoint_and_poller_witness:
  "\<exists>p. ep_run (au_polls closing_endpoint) test_channels = Inr p \<and> 0 \<le> ch_index (ep_chans p (au_id closing_endpoint))"
proof -
  have "ch_events (test_channels i) = 0" for i by (simp add: test_channels_def new_channel_def)
  from endpoint_and_poller [OF closing_endpoint_reach test_channels_fresh this] show ?thesis
    using closing_endpoint_run by auto
qed

text \<open>\<^bold>\<open>The error callback must not force the close from \<^verbatim>\<open>handleWrite\<close>.\<close> \<^verbatim>\<open>handleWrite\<close> reports a datagram
  that cannot be sent and pops it afterwards: if the callback calls \<^verbatim>\<open>forceClose\<close>, the queue is already empty and
  \<^verbatim>\<open>pop_front\<close> is undefined behaviour. As long as no callback does, whatever else it calls and whatever the system
  answers, \<^verbatim>\<open>handleWrite\<close> never gets there.\<close>

theorem error_callback_force_close:
  assumes "udp_reach c" "au_pending c = (msg, peer) # ds" "au_has_ecb c" "e \<noteq> EAGAIN" "e \<noteq> EWOULDBLOCK"
  shows "au_handleWrite (\<lambda>_ _. [CallForceClose]) (WriteErr e # ws) c = Some (Inl OutOfBounds)
    \<and> ((\<forall>e p. CallForceClose \<notin> set (cb e p)) \<longrightarrow> au_handleWrite cb ws' c \<noteq> Some (Inl err))"
proof -
  have ok: "open_ok c" "au_isWriting c" "udp_base c"
    using udp_reach_ok [OF assms(1)] assms(2) by (auto simp: udp_ok_def closed_ok_def split: udp_state.splits)
  then have dr: "draining c" and st: "au_state c = kActive \<or> au_state c = kClosing" by (auto simp: draining_def open_ok_def)
  have "au_pending (forceCloseInLoop (notifyError e peer c)) = []"
    using st by (auto simp: forceCloseInLoop_def removeChannelInLoop_def drop_pending_def notifyError_def Let_def)
  then have "au_pending (call_error_cb (\<lambda>_ _. [CallForceClose]) e peer c) = []"
    using st assms(3) by (auto simp: call_error_cb_def run_call_def au_forceClose_def notifyError_def)
  then have "drain (\<lambda>_ _. [CallForceClose]) (WriteErr e # ws) c = Some (Broken OutOfBounds)"
    using assms(2,4,5) by (simp add: pop_front_def)
  then have "au_handleWrite (\<lambda>_ _. [CallForceClose]) (WriteErr e # ws) c = Some (Inl OutOfBounds)"
    using st ok(2) unfolding au_handleWrite_def by auto
  moreover have "au_handleWrite cb ws' c \<noteq> Some (Inl err)" if "\<forall>e p. CallForceClose \<notin> set (cb e p)"
    using drain_safe [OF dr that, of ws' err]
    by (auto simp: au_handleWrite_def Let_def split: if_splits option.splits drain_result.splits)
  ultimately show ?thesis by blast
qed

theorem error_callback_force_close_witness:
  "au_handleWrite (\<lambda>_ _. [CallForceClose]) [WriteErr 111] closing_endpoint = Some (Inl OutOfBounds)
   \<and> au_handleWrite (\<lambda>_ _. [CallClose]) [WriteErr 111, WriteErr 11] closing_endpoint \<noteq> Some (Inl OutOfBounds)"
  using error_callback_force_close [OF closing_endpoint_reach, of "''a''" 1 "[(''bc'', 2)]" 111 "[]" "\<lambda>_ _. [CallClose]"]
    closing_endpoint_run by (simp add: EAGAIN_def EWOULDBLOCK_def)

end
