(* ===== verification/ThreadPool.thy ===== *)
theory ThreadPool
  imports Prelude "HOL-Library.Multiset"
begin

text \<open>
  \<^verbatim>\<open>ThreadPool\<close> (include/base/thread_pool.h, src/base/thread_pool.cpp): workers, submitters and the
  thread that stops the pool as steps of one system. Critical sections under \<^verbatim>\<open>task_que_mutex_\<close> are
  single steps, except that a worker holds the mutex between the test of its condition and its sleep,
  and a submitter between its test of \<^verbatim>\<open>is_running_\<close> and its push, because \<^verbatim>\<open>stop\<close> sets the flag without
  the mutex. Tasks are numbers; a task is a \<^verbatim>\<open>packaged_task\<close>, which does not throw. Condition variables
  wake only those that are notified or time out.
\<close>

section \<open>State\<close>

datatype pool_mode = FIXED_MOD | CACHE_MOD

text \<open>Where a worker is: before taking the queue mutex, after a test that failed (mutex held), asleep,
  timed out and about to mark itself exited, with a task just taken, running it, leaving, gone after the
  drain, gone after being idle.\<close>

datatype worker = WLoop | WTested | WSleep | WTimedOut | WTook nat | WBusy nat | WLeaving | WGone | WCleared

datatype queue_lock = LFree | LWorker nat | LSubmit nat

datatype stop_pc = SNone | SFlagged | SWaiting | SJoining | SStopped

record thread_pool =
  tp_mode :: pool_mode
  tp_running :: bool
  tp_init_count :: int
  tp_cur_thread :: int
  tp_busy :: int
  tp_max_thread :: int
  tp_cur_task :: int
  tp_max_task :: int
  tp_queue :: "nat list"
  tp_lock :: queue_lock
  tp_workers :: "worker list"       \<comment> \<open>by generated id\<close>
  tp_exited :: "nat list"
  tp_notify :: nat                  \<comment> \<open>submitters between their push and \<open>notify_one\<close>\<close>
  tp_grow :: nat                    \<comment> \<open>submitters about to call \<open>addThread\<close>\<close>
  tp_stop :: stop_pc
  tp_accepted :: "nat list"         \<comment> \<open>history: the tasks accepted\<close>
  tp_taken :: "nat list"            \<comment> \<open>history: the tasks taken from the queue\<close>
  tp_done :: "nat list"             \<comment> \<open>history: the tasks finished\<close>

definition THREAD_MAX_THRESHHOLD :: int where "THREAD_MAX_THRESHHOLD = 100"
definition TASK_MAX_THRESHHOLD :: int where "TASK_MAX_THRESHHOLD = 2 ^ 31 - 1"

definition new_thread_pool :: "int \<Rightarrow> thread_pool" where
  "new_thread_pool n = \<lparr>tp_mode = FIXED_MOD, tp_running = False, tp_init_count = n, tp_cur_thread = 0, tp_busy = 0,
     tp_max_thread = THREAD_MAX_THRESHHOLD, tp_cur_task = 0, tp_max_task = TASK_MAX_THRESHHOLD, tp_queue = [],
     tp_lock = LFree, tp_workers = [], tp_exited = [], tp_notify = 0, tp_grow = 0, tp_stop = SNone, tp_accepted = [],
     tp_taken = [], tp_done = []\<rparr>"

definition tp_setMode :: "pool_mode \<Rightarrow> thread_pool \<Rightarrow> thread_pool" where
  "tp_setMode m p = (if tp_running p then p else p\<lparr>tp_mode := m\<rparr>)"

definition setTaskQueMaxThreshHold :: "int \<Rightarrow> thread_pool \<Rightarrow> thread_pool" where
  "setTaskQueMaxThreshHold n p = (if tp_running p then p else p\<lparr>tp_max_task := n\<rparr>)"

definition setThreadMaxThreshHold :: "int \<Rightarrow> thread_pool \<Rightarrow> thread_pool" where
  "setThreadMaxThreshHold n p = (if tp_running p then p else p\<lparr>tp_max_thread := max n (tp_init_count p)\<rparr>)"

definition tp_start :: "thread_pool \<Rightarrow> cpp_error + thread_pool" where
  "tp_start p =
     (if tp_running p then Inr p
      else if tp_init_count p \<le> 0 then Inl (InvalidArgument ''thread count is invalid!!'')
      else Inr (p\<lparr>tp_running := True, tp_cur_thread := tp_cur_thread p + tp_init_count p,
                  tp_workers := tp_workers p @ replicate (nat (tp_init_count p)) WLoop\<rparr>))"

section \<open>Tests\<close>

definition isCache :: "thread_pool \<Rightarrow> bool" where
  "isCache p \<longleftrightarrow> tp_mode p = CACHE_MOD \<and> tp_cur_thread p < tp_max_thread p
     \<and> tp_cur_task p > tp_cur_thread p - tp_busy p"

definition isClear :: "thread_pool \<Rightarrow> bool" where
  "isClear p \<longleftrightarrow> tp_mode p = CACHE_MOD \<and> tp_cur_thread p > tp_init_count p
     \<and> tp_cur_task p < tp_cur_thread p - tp_busy p"

definition checkExit :: "thread_pool \<Rightarrow> bool" where
  "checkExit p \<longleftrightarrow> tp_busy p = 0 \<and> tp_cur_task p = 0"

text \<open>The worker sleeps: nothing to do and the pool runs.\<close>

definition must_wait :: "thread_pool \<Rightarrow> bool" where
  "must_wait p \<longleftrightarrow> (case tp_mode p of CACHE_MOD \<Rightarrow> tp_cur_task p \<le> 0 \<and> tp_running p
     | FIXED_MOD \<Rightarrow> \<not> (tp_queue p \<noteq> [] \<or> \<not> tp_running p))"

section \<open>Operations\<close>

definition set_worker :: "nat \<Rightarrow> worker \<Rightarrow> thread_pool \<Rightarrow> thread_pool" where
  "set_worker i w p = p\<lparr>tp_workers := (tp_workers p)[i := w]\<rparr>"

definition markThreadExited :: "nat \<Rightarrow> thread_pool \<Rightarrow> bool \<times> thread_pool" where
  "markThreadExited i p =
     (if \<not> tp_running p \<or> \<not> isClear p then (False, p)
      else (True, p\<lparr>tp_exited := tp_exited p @ [i], tp_cur_thread := tp_cur_thread p - 1\<rparr>))"

text \<open>\<^verbatim>\<open>addThread\<close>, with the clean-up of the objects of exited workers.\<close>

definition addThread :: "thread_pool \<Rightarrow> thread_pool" where
  "addThread p =
     (if \<not> tp_running p \<or> \<not> isCache p then p
      else p\<lparr>tp_exited := [], tp_cur_thread := tp_cur_thread p + 1, tp_workers := tp_workers p @ [WLoop]\<rparr>)"

text \<open>One step of a worker in \<^verbatim>\<open>threadRunFunc\<close>.\<close>

definition worker_loop :: "nat \<Rightarrow> thread_pool \<Rightarrow> thread_pool option" where
  "worker_loop i p =
     (if tp_lock p \<noteq> LFree then None
      else if must_wait p then Some (set_worker i WTested (p\<lparr>tp_lock := LWorker i\<rparr>))
      else if \<not> tp_running p \<and> tp_queue p = [] then Some (set_worker i WLeaving p)
      else (case tp_queue p of [] \<Rightarrow> None
            | t # ts \<Rightarrow> Some (set_worker i (WTook t)
                 (p\<lparr>tp_queue := ts, tp_cur_task := tp_cur_task p - 1, tp_taken := tp_taken p @ [t]\<rparr>))))"

definition worker_step :: "nat \<Rightarrow> thread_pool \<Rightarrow> thread_pool option" where
  "worker_step i p =
     (if i \<ge> length (tp_workers p) then None
      else (case tp_workers p ! i of
          WLoop \<Rightarrow> worker_loop i p
        | WTested \<Rightarrow> Some (set_worker i WSleep (p\<lparr>tp_lock := LFree\<rparr>))
        | WSleep \<Rightarrow> None
        | WTimedOut \<Rightarrow> (case markThreadExited i p of (b, q) \<Rightarrow> Some (set_worker i (if b then WCleared else WLoop) q))
        | WTook t \<Rightarrow> Some (set_worker i (WBusy t) (p\<lparr>tp_busy := tp_busy p + 1\<rparr>))
        | WBusy t \<Rightarrow> Some (set_worker i WLoop (p\<lparr>tp_busy := tp_busy p - 1, tp_done := tp_done p @ [t]\<rparr>))
        | WLeaving \<Rightarrow> Some (set_worker i WGone p)
        | WGone \<Rightarrow> None
        | WCleared \<Rightarrow> None))"

text \<open>The idle time of a sleeping worker is over (only \<^verbatim>\<open>CACHE_MOD\<close> waits with a time-out).\<close>

definition worker_timeout :: "nat \<Rightarrow> thread_pool \<Rightarrow> thread_pool option" where
  "worker_timeout i p =
     (if i < length (tp_workers p) \<and> tp_workers p ! i = WSleep \<and> tp_mode p = CACHE_MOD \<and> tp_lock p = LFree
      then Some (set_worker i (if tp_running p then WTimedOut else WLoop) p) else None)"

text \<open>\<^verbatim>\<open>trySubmitTask\<close> up to its second test of \<^verbatim>\<open>is_running_\<close>, and its push.\<close>

definition submit_lock :: "nat \<Rightarrow> thread_pool \<Rightarrow> thread_pool option" where
  "submit_lock t p =
     (if tp_running p \<and> tp_lock p = LFree \<and> tp_cur_task p < tp_max_task p then Some (p\<lparr>tp_lock := LSubmit t\<rparr>) else None)"

definition submit_push :: "thread_pool \<Rightarrow> thread_pool option" where
  "submit_push p =
     (case tp_lock p of
        LSubmit t \<Rightarrow> Some (p\<lparr>tp_queue := tp_queue p @ [t], tp_cur_task := tp_cur_task p + 1, tp_lock := LFree,
          tp_notify := tp_notify p + 1, tp_grow := tp_grow p + 1, tp_accepted := tp_accepted p @ [t]\<rparr>)
      | _ \<Rightarrow> None)"

text \<open>A submission that times out only tries to grow the pool.\<close>

definition submit_timeout :: "thread_pool \<Rightarrow> thread_pool option" where
  "submit_timeout p =
     (if tp_running p \<and> tp_lock p = LFree \<and> \<not> tp_cur_task p < tp_max_task p
      then Some (if tp_mode p = CACHE_MOD then p\<lparr>tp_grow := tp_grow p + 1\<rparr> else p) else None)"

text \<open>\<^verbatim>\<open>notEmpty_.notify_one()\<close> wakes some sleeping worker, if there is one.\<close>

definition notify_one :: "nat \<Rightarrow> thread_pool \<Rightarrow> thread_pool option" where
  "notify_one i p =
     (if tp_notify p = 0 then None
      else
        (let p = p\<lparr>tp_notify := tp_notify p - 1\<rparr> in
         if WSleep \<notin> set (tp_workers p) then Some p
         else if i < length (tp_workers p) \<and> tp_workers p ! i = WSleep then Some (set_worker i WLoop p) else None))"

definition grow_step :: "thread_pool \<Rightarrow> thread_pool option" where
  "grow_step p = (if tp_grow p = 0 then None else Some (addThread (p\<lparr>tp_grow := tp_grow p - 1\<rparr>)))"

definition notify_all :: "thread_pool \<Rightarrow> thread_pool" where
  "notify_all p = p\<lparr>tp_workers := map (\<lambda>w. if w = WSleep then WLoop else w) (tp_workers p)\<rparr>"

text \<open>\<^verbatim>\<open>stop\<close>: set the flag, notify, wait for \<^verbatim>\<open>checkExit\<close>, join every worker, reset the counters.\<close>

definition stop_step :: "thread_pool \<Rightarrow> thread_pool option" where
  "stop_step p =
     (case tp_stop p of
        SNone \<Rightarrow> if tp_running p then Some (p\<lparr>tp_running := False, tp_stop := SFlagged\<rparr>) else None
      | SFlagged \<Rightarrow> Some ((notify_all p)\<lparr>tp_stop := SWaiting\<rparr>)
      | SWaiting \<Rightarrow> if tp_lock p = LFree \<and> checkExit p then Some (p\<lparr>tp_stop := SJoining\<rparr>) else None
      | SJoining \<Rightarrow> if set (tp_workers p) \<subseteq> {WGone, WCleared}
          then Some (p\<lparr>tp_stop := SStopped, tp_cur_task := 0, tp_cur_thread := 0, tp_busy := 0, tp_exited := []\<rparr>) else None
      | SStopped \<Rightarrow> None)"

datatype pool_label = Work nat | IdleTimeout nat | SubmitLock nat | SubmitPush | SubmitTimeout | Notify nat | Grow | Stop

fun pool_step :: "pool_label \<Rightarrow> thread_pool \<Rightarrow> thread_pool option" where
  "pool_step (Work i) p = worker_step i p"
| "pool_step (IdleTimeout i) p = worker_timeout i p"
| "pool_step (SubmitLock t) p = submit_lock t p"
| "pool_step SubmitPush p = submit_push p"
| "pool_step SubmitTimeout p = submit_timeout p"
| "pool_step (Notify i) p = notify_one i p"
| "pool_step Grow p = grow_step p"
| "pool_step Stop p = stop_step p"

inductive pool_reach :: "thread_pool \<Rightarrow> bool" where
  start: "tp_start (setThreadMaxThreshHold m (setTaskQueMaxThreshHold k (tp_setMode mode (new_thread_pool n)))) = Inr p
    \<Longrightarrow> pool_reach p"
| step: "pool_reach p \<Longrightarrow> pool_step l p = Some q \<Longrightarrow> pool_reach q"

section \<open>Counting workers\<close>

text \<open>A weight summed over the workers; changing one worker changes the sum by the difference.\<close>

definition weigh :: "(worker \<Rightarrow> 'a::comm_monoid_add) \<Rightarrow> worker list \<Rightarrow> 'a" where
  "weigh f ws = sum_list (map f ws)"

lemma weigh_simps [simp]:
  "weigh f [] = 0" "weigh f (w # ws) = f w + weigh f ws" "weigh f (vs @ ws) = weigh f vs + weigh f ws"
  by (simp_all add: weigh_def)

lemma weigh_update:
  fixes f :: "worker \<Rightarrow> 'a::cancel_comm_monoid_add"
  assumes "i < length ws"
  shows "weigh f (ws[i := w]) + f (ws ! i) = weigh f ws + f w"
  using assms
proof (induction ws arbitrary: i)
  case (Cons v ws)
  then show ?case by (cases i) (auto simp: ac_simps)
qed simp

lemma weigh_replicate_0: "f w = 0 \<Longrightarrow> weigh f (replicate n w) = 0"
  by (induction n) auto

lemma weigh_pos_ex: "0 < weigh f ws \<Longrightarrow> \<exists>w \<in> set ws. 0 < (f w :: nat)"
  by (induction ws) auto

lemma weigh_le: "w \<in> set ws \<Longrightarrow> (f w :: nat) \<le> weigh f ws"
  by (induction ws) auto

definition is_busy :: "worker \<Rightarrow> nat" where "is_busy w = (case w of WBusy _ \<Rightarrow> 1 | _ \<Rightarrow> 0)"
definition is_alive :: "worker \<Rightarrow> nat" where "is_alive w = (if w = WCleared then 0 else 1)"
definition in_hand :: "worker \<Rightarrow> nat multiset" where
  "in_hand w = (case w of WTook t \<Rightarrow> {#t#} | WBusy t \<Rightarrow> {#t#} | _ \<Rightarrow> {#})"

text \<open>What a worker counts for, on each state it can be in.\<close>

lemma worker_weights [simp]:
  "is_busy WLoop = 0" "is_busy WTested = 0" "is_busy WSleep = 0" "is_busy WTimedOut = 0" "is_busy (WTook t) = 0"
  "is_busy (WBusy t) = 1" "is_busy WLeaving = 0" "is_busy WGone = 0" "is_busy WCleared = 0"
  "is_alive WLoop = 1" "is_alive WTested = 1" "is_alive WSleep = 1" "is_alive WTimedOut = 1" "is_alive (WTook t) = 1"
  "is_alive (WBusy t) = 1" "is_alive WLeaving = 1" "is_alive WGone = 1" "is_alive WCleared = 0"
  "in_hand WLoop = {#}" "in_hand WTested = {#}" "in_hand WSleep = {#}" "in_hand WTimedOut = {#}"
  "in_hand (WTook t) = {#t#}" "in_hand (WBusy t) = {#t#}" "in_hand WLeaving = {#}" "in_hand WGone = {#}"
  "in_hand WCleared = {#}"
  by (simp_all add: is_busy_def is_alive_def in_hand_def)

lemma weigh_wake:
  assumes "f WSleep = f WLoop"
  shows "weigh f (map (\<lambda>w. if w = WSleep then WLoop else w) ws) = weigh f ws"
  using assms by (induction ws) auto

section \<open>Invariants\<close>

text \<open>The counters count; the tasks accepted were taken in order or still wait in order; each task taken is done or
  in the hands of one worker.\<close>

definition counts :: "thread_pool \<Rightarrow> bool" where
  "counts p \<longleftrightarrow> tp_cur_task p = int (length (tp_queue p)) \<and> tp_busy p = int (weigh is_busy (tp_workers p))
     \<and> tp_taken p @ tp_queue p = tp_accepted p
     \<and> mset (tp_taken p) = mset (tp_done p) + weigh in_hand (tp_workers p)
     \<and> tp_cur_task p \<le> max 0 (tp_max_task p) \<and> (\<forall>t. tp_lock p = LSubmit t \<longrightarrow> tp_cur_task p < tp_max_task p)"

text \<open>The phases of \<^verbatim>\<open>stop\<close> and of the workers' end.\<close>

definition gone :: "worker set" where "gone = {WGone, WCleared}"

definition phases :: "thread_pool \<Rightarrow> bool" where
  "phases p \<longleftrightarrow> (tp_running p \<longleftrightarrow> tp_stop p = SNone) \<and> 0 < tp_init_count p
     \<and> (tp_stop p \<noteq> SStopped \<longrightarrow> tp_cur_thread p = int (weigh is_alive (tp_workers p)) \<and> tp_init_count p \<le> tp_cur_thread p)
     \<and> (WLeaving \<in> set (tp_workers p) \<or> WGone \<in> set (tp_workers p)
          \<longrightarrow> \<not> tp_running p \<and> tp_queue p = [] \<and> (\<forall>t. tp_lock p \<noteq> LSubmit t))
     \<and> (tp_stop p = SStopped
          \<longrightarrow> tp_queue p = [] \<and> set (tp_workers p) \<subseteq> gone \<and> (\<forall>t. tp_lock p \<noteq> LSubmit t))"


text \<open>The queue mutex is held by the worker that is between its test and its sleep; no task waits then.\<close>

definition lock_held :: "queue_lock \<Rightarrow> worker list \<Rightarrow> nat list \<Rightarrow> bool" where
  "lock_held l ws ts \<longleftrightarrow> (\<forall>i < length ws. ws ! i = WTested \<longrightarrow> l = LWorker i)
     \<and> (\<forall>i. l = LWorker i \<longrightarrow> ts = [] \<and> i < length ws \<and> ws ! i = WTested)"

definition locks :: "thread_pool \<Rightarrow> bool" where
  "locks p \<longleftrightarrow> lock_held (tp_lock p) (tp_workers p) (tp_queue p)"

text \<open>While tasks wait, a notification is on its way, or a worker is about to look at the queue, or none sleeps.\<close>

definition awake :: "worker \<Rightarrow> bool" where
  "awake w \<longleftrightarrow> w = WLoop \<or> (\<exists>t. w = WTook t \<or> w = WBusy t)"

definition attended :: "thread_pool \<Rightarrow> bool" where
  "attended p \<longleftrightarrow> (tp_running p \<and> tp_queue p \<noteq> [] \<longrightarrow> 0 < tp_notify p \<or> (\<exists>w \<in> set (tp_workers p). awake w)
     \<or> WSleep \<notin> set (tp_workers p))"

lemmas pool_ops = worker_step_def worker_loop_def worker_timeout_def submit_lock_def submit_push_def
  submit_timeout_def notify_one_def grow_step_def addThread_def markThreadExited_def stop_step_def set_worker_def
  notify_all_def

text \<open>The start.\<close>

lemma started:
  assumes "tp_start (setThreadMaxThreshHold m (setTaskQueMaxThreshHold k (tp_setMode mode (new_thread_pool n)))) = Inr p"
  shows "0 < n" "tp_init_count p = n" "tp_cur_thread p = n" "tp_workers p = replicate (nat n) WLoop" "tp_running p"
    "tp_stop p = SNone" "tp_queue p = []" "tp_cur_task p = 0" "tp_busy p = 0" "tp_lock p = LFree" "tp_taken p = []"
    "tp_done p = []" "tp_accepted p = []" "tp_max_task p = k" "tp_mode p = mode"
  using assms
  by (auto simp: tp_start_def setThreadMaxThreshHold_def setTaskQueMaxThreshHold_def tp_setMode_def new_thread_pool_def
      split: if_splits)

lemma start_invariants:
  assumes "tp_start (setThreadMaxThreshHold m (setTaskQueMaxThreshHold k (tp_setMode mode (new_thread_pool n)))) = Inr p"
  shows "counts p" "phases p" "locks p" "attended p"
proof -
  note st = started [OF assms]
  have alive: "weigh is_alive (replicate j WLoop) = j" for j by (induction j) auto
  show "counts p" by (simp add: counts_def st weigh_replicate_0)
  show "phases p" using st(1) by (auto simp: phases_def st(2-) alive gone_def)
  show "locks p" by (simp add: locks_def lock_held_def st)
  show "attended p" by (simp add: attended_def st)
qed

lemma counts_worker:
  assumes "counts p" "worker_step i p = Some q"
  shows "counts q"
proof -
  have i: "i < length (tp_workers p)" using assms(2) by (auto simp: worker_step_def split: if_splits)
  note u = weigh_update [OF i, of is_busy] weigh_update [OF i, of in_hand]
  show ?thesis
  proof (cases "tp_workers p ! i")
    case WLoop
    then show ?thesis using assms i u [where w = WTested] u [where w = WLeaving] u [where w = "WTook (hd (tp_queue p))"]
      by (auto simp: counts_def pool_ops split: if_splits list.splits)
  next
    case (WBusy t)
    then show ?thesis using assms i u [where w = WLoop] by (auto simp: counts_def pool_ops)
  next
    case (WTook t)
    then show ?thesis using assms i u [where w = "WBusy t"] by (auto simp: counts_def pool_ops)
  next
    case WTimedOut
    then show ?thesis using assms i u [where w = WLoop] u [where w = WCleared]
      by (auto simp: counts_def pool_ops split: if_splits)
  next
    case WTested
    then show ?thesis using assms i u [where w = WSleep] by (auto simp: counts_def pool_ops)
  next
    case WLeaving
    then show ?thesis using assms i u [where w = WGone] by (auto simp: counts_def pool_ops)
  qed (use assms i in \<open>auto simp: pool_ops\<close>)
qed

lemma counts_wake:
  assumes "counts p" "i < length (tp_workers p)" "tp_workers p ! i = WSleep" "w = WLoop \<or> w = WTimedOut"
  shows "counts (set_worker i w p)"
  using assms weigh_update [OF assms(2), of is_busy w] weigh_update [OF assms(2), of in_hand w]
  by (auto simp: counts_def set_worker_def)

text \<open>When all workers are gone, one of them left after the drain: the queue is empty and no submitter holds the mutex.\<close>

lemma all_gone_drained:
  assumes "phases p" "set (tp_workers p) \<subseteq> gone" "tp_stop p \<noteq> SStopped"
  shows "tp_queue p = [] \<and> (\<forall>t. tp_lock p \<noteq> LSubmit t)"
proof -
  have "0 < weigh is_alive (tp_workers p)" using assms(1,3) by (auto simp: phases_def)
  then obtain w where "w \<in> set (tp_workers p)" "w \<noteq> WCleared"
    using weigh_pos_ex [of is_alive "tp_workers p"] by (auto simp: is_alive_def split: if_splits)
  then have "WGone \<in> set (tp_workers p)" using assms(2) by (auto simp: gone_def)
  then show ?thesis using assms(1) by (auto simp: phases_def)
qed

lemma gone_weights: "set ws \<subseteq> gone \<Longrightarrow> weigh is_busy ws = 0 \<and> weigh in_hand ws = {#}"
  by (induction ws) (auto simp: gone_def)

lemma counts_frame [simp]:
  "counts (p\<lparr>tp_stop := s\<rparr>) = counts p" "counts (p\<lparr>tp_running := b\<rparr>) = counts p" "counts (p\<lparr>tp_notify := n\<rparr>) = counts p"
  "counts (p\<lparr>tp_grow := n\<rparr>) = counts p" "counts (notify_all p) = counts p"
  by (simp_all add: counts_def notify_all_def weigh_wake)

lemma counts_stop:
  assumes "counts p" "phases p" "stop_step p = Some q"
  shows "counts q"
proof (cases "tp_stop p")
  case SJoining
  then have g: "set (tp_workers p) \<subseteq> gone" using assms(3) by (auto simp: stop_step_def gone_def split: if_splits)
  show ?thesis using SJoining assms(1,3) gone_weights [OF g] all_gone_drained [OF assms(2) g]
    by (auto simp: stop_step_def counts_def split: if_splits)
qed (use assms(1,3) in \<open>auto simp: stop_step_def split: if_splits\<close>)

lemma counts_step:
  assumes "counts p" "phases p" "pool_step l p = Some q"
  shows "counts q"
proof (cases l)
  case (Work i)
  then show ?thesis using assms by (auto intro: counts_worker)
next
  case (IdleTimeout i)
  then show ?thesis using assms counts_wake [of p i] by (auto simp: worker_timeout_def split: if_splits)
next
  case (Notify i)
  then show ?thesis using assms(1,3) counts_wake [of "p\<lparr>tp_notify := tp_notify p - 1\<rparr>" i]
    by (auto simp: notify_one_def Let_def split: if_splits)
next
  case Stop
  then show ?thesis using assms by (auto intro: counts_stop)
qed (use assms in \<open>auto simp: counts_def pool_ops split: if_splits queue_lock.splits\<close>)

lemma phases_worker:
  assumes "phases p" "counts p" "worker_step i p = Some q"
  shows "phases q"
proof -
  have i: "i < length (tp_workers p)" using assms(3) by (auto simp: worker_step_def split: if_splits)
  note u = weigh_update [OF i, of is_alive]
  have mem: "set ((tp_workers p)[i := w]) \<subseteq> insert w (set (tp_workers p))" for w by (rule set_update_subset_insert)
  have old: "tp_workers p ! i \<in> set (tp_workers p)" using i by simp
  have live: "tp_workers p ! i \<notin> gone \<Longrightarrow> tp_stop p \<noteq> SStopped" using assms(1) old by (auto simp: phases_def)
  show ?thesis
  proof (cases "tp_workers p ! i")
    case WLoop
    then show ?thesis using assms i u [where w = WTested] u [where w = WLeaving] u [where w = "WTook (hd (tp_queue p))"]
        mem [of WTested] mem [of WLeaving] mem [of "WTook (hd (tp_queue p))"] live
      by (auto simp: phases_def pool_ops gone_def split: if_splits list.splits)
  next
    case (WBusy t)
    then show ?thesis using assms i u [where w = WLoop] mem [of WLoop] live by (auto simp: phases_def pool_ops gone_def)
  next
    case (WTook t)
    then show ?thesis using assms i u [where w = "WBusy t"] mem [of "WBusy t"] live by (auto simp: phases_def pool_ops gone_def)
  next
    case WTimedOut
    then show ?thesis using assms i u [where w = WLoop] u [where w = WCleared] mem [of WLoop] mem [of WCleared] live
      by (auto simp: phases_def pool_ops gone_def isClear_def split: if_splits)
  next
    case WTested
    then show ?thesis using assms i u [where w = WSleep] mem [of WSleep] live by (auto simp: phases_def pool_ops gone_def)
  next
    case WLeaving
    then show ?thesis using assms i u [where w = WGone] mem [of WGone] old live by (auto simp: phases_def pool_ops gone_def)
  qed (use assms i in \<open>auto simp: pool_ops\<close>)
qed

lemma phases_wake:
  assumes "phases p" "i < length (tp_workers p)" "tp_workers p ! i = WSleep" "w = WLoop \<or> w = WTimedOut"
  shows "phases (set_worker i w p)"
proof -
  have "set ((tp_workers p)[i := w]) \<subseteq> insert w (set (tp_workers p))" by (rule set_update_subset_insert)
  moreover have "WSleep \<in> set (tp_workers p)" using assms(2,3) by (metis nth_mem)
  ultimately show ?thesis
    using assms weigh_update [OF assms(2), of is_alive w] by (auto simp: phases_def set_worker_def gone_def)
qed

lemma notify_all_workers:
  "x \<in> set (tp_workers (notify_all p)) \<Longrightarrow> x \<in> set (tp_workers p) \<or> x = WLoop \<and> WSleep \<in> set (tp_workers p)"
  by (auto simp: notify_all_def split: if_splits)

lemma phases_stop:
  assumes "phases p" "stop_step p = Some q"
  shows "phases q"
proof (cases "tp_stop p")
  case SFlagged
  then show ?thesis using assms notify_all_workers [of _ p]
    by (auto simp: stop_step_def phases_def notify_all_def weigh_wake split: if_splits)
next
  case SJoining
  then have g: "set (tp_workers p) \<subseteq> gone" using assms(2) by (auto simp: stop_step_def gone_def split: if_splits)
  show ?thesis using SJoining assms g all_gone_drained [OF assms(1) g] by (auto simp: stop_step_def phases_def split: if_splits)
qed (use assms in \<open>auto simp: stop_step_def phases_def split: if_splits\<close>)

lemma phases_frame [simp]: "phases (p\<lparr>tp_grow := n\<rparr>) = phases p" "phases (p\<lparr>tp_notify := n\<rparr>) = phases p"
  by (simp_all add: phases_def)

lemma phases_addThread: "phases p \<Longrightarrow> phases (addThread p)"
  by (cases "tp_running p \<and> isCache p") (auto simp: addThread_def phases_def)

lemma phases_step:
  assumes "phases p" "counts p" "pool_step l p = Some q"
  shows "phases q"
proof (cases l)
  case (Work i)
  then show ?thesis using assms by (auto intro: phases_worker)
next
  case (IdleTimeout i)
  then show ?thesis using assms phases_wake [of p i] by (auto simp: worker_timeout_def split: if_splits)
next
  case (Notify i)
  then show ?thesis using assms(1,3) phases_wake [of "p\<lparr>tp_notify := tp_notify p - 1\<rparr>" i]
    by (auto simp: notify_one_def Let_def split: if_splits)
next
  case Stop
  then show ?thesis using assms by (auto intro: phases_stop)
next
  case Grow
  then show ?thesis using assms by (auto simp: grow_step_def phases_addThread split: if_splits)
qed (use assms in \<open>auto simp: phases_def pool_ops split: if_splits queue_lock.splits\<close>)

lemma lock_heldD:
  assumes "lock_held l ws ts"
  shows "i < length ws \<Longrightarrow> ws ! i = WTested \<Longrightarrow> l = LWorker i"
    "l = LWorker i \<Longrightarrow> ts = []" "l = LWorker i \<Longrightarrow> i < length ws" "l = LWorker i \<Longrightarrow> ws ! i = WTested"
  using assms unfolding lock_held_def by blast+

text \<open>No worker holds the mutex exactly when none is between its test and its sleep.\<close>

lemma lock_held_free:
  assumes "\<forall>i. l \<noteq> LWorker i"
  shows "lock_held l ws ts \<longleftrightarrow> WTested \<notin> set ws"
  using assms by (auto simp: lock_held_def in_set_conv_nth)

lemma lock_held_one:
  "lock_held (LWorker i) ws ts \<longleftrightarrow> ts = [] \<and> i < length ws \<and> ws ! i = WTested \<and> (\<forall>j < length ws. j \<noteq> i \<longrightarrow> ws ! j \<noteq> WTested)"
  unfolding lock_held_def queue_lock.inject by blast

text \<open>A step of another worker leaves the mutex with its holder.\<close>

lemma lock_held_other:
  assumes "lock_held l ws ts" "ws ! i \<noteq> WTested" "w \<noteq> WTested" "l \<noteq> LFree \<Longrightarrow> ts' = ts"
  shows "lock_held l (ws[i := w]) ts'"
proof (cases l)
  case (LWorker j)
  then show ?thesis using assms by (cases "i < length ws") (auto simp: lock_held_one nth_list_update)
next
  case LFree
  then show ?thesis using assms set_update_subset_insert [of ws i w] by (auto simp: lock_held_free)
next
  case (LSubmit t)
  then show ?thesis using assms set_update_subset_insert [of ws i w] by (auto simp: lock_held_free)
qed

lemma lock_held_take:
  assumes "WTested \<notin> set ws" "i < length ws"
  shows "lock_held (LWorker i) (ws[i := WTested]) []"
  using assms nth_mem by (fastforce simp: lock_held_one nth_list_update)

lemma lock_held_release:
  assumes "lock_held l ws ts" "i < length ws" "ws ! i = WTested"
  shows "lock_held LFree (ws[i := WSleep]) ts'"
proof -
  have "l = LWorker i" using assms lock_heldD(1) by metis
  then have "ws[i := WSleep] ! j \<noteq> WTested" if "j < length ws" for j
    using assms(1,2) that by (cases "j = i") (auto simp: lock_held_one)
  then have "WTested \<notin> set (ws[i := WSleep])" by (metis in_set_conv_nth length_list_update)
  then show ?thesis by (simp add: lock_held_free)
qed

lemma lock_held_grow: "lock_held l ws ts \<Longrightarrow> lock_held l (ws @ [WLoop]) ts"
  by (cases l) (auto simp: lock_held_free lock_held_one nth_append)

lemma lock_held_wake: "lock_held l ws ts \<Longrightarrow> lock_held l (map (\<lambda>w. if w = WSleep then WLoop else w) ws) ts"
  by (cases l) (auto simp: lock_held_free lock_held_one split: if_splits)

lemma must_wait_empty: "must_wait p \<Longrightarrow> counts p \<Longrightarrow> tp_queue p = []"
  by (auto simp: must_wait_def counts_def split: pool_mode.splits)

lemma locks_worker:
  assumes "locks p" "worker_step i p = Some q" "counts p"
  shows "locks q"
proof -
  have i: "i < length (tp_workers p)" using assms(2) by (auto simp: worker_step_def split: if_splits)
  note keep = lock_held_other [OF assms(1) [unfolded locks_def], of i]
  show ?thesis
  proof (cases "tp_workers p ! i")
    case WLoop
    show ?thesis
    proof (cases "must_wait p")
      case True
      then have q: "tp_lock p = LFree" "q = set_worker i WTested (p\<lparr>tp_lock := LWorker i\<rparr>)"
        using WLoop assms(2) i by (auto simp: worker_step_def worker_loop_def split: if_splits)
      then show ?thesis using assms(1) must_wait_empty [OF True assms(3)] lock_held_take [OF _ i]
        by (simp add: locks_def set_worker_def lock_held_free)
    next
      case False
      then show ?thesis using WLoop assms(2) i keep
        by (auto simp: worker_step_def worker_loop_def locks_def set_worker_def split: if_splits list.splits)
    qed
  next
    case WTested
    then show ?thesis using assms(1,2) i lock_held_release
      by (auto simp: worker_step_def locks_def set_worker_def)
  qed (use assms(2) i keep in \<open>auto simp: worker_step_def markThreadExited_def locks_def set_worker_def split: if_splits\<close>)
qed

lemma locks_step:
  assumes "locks p" "pool_step l p = Some q" "counts p"
  shows "locks q"
proof (cases l)
  case (Work i)
  then show ?thesis using assms by (auto intro: locks_worker)
next
  case (IdleTimeout i)
  then show ?thesis using assms(1,2) by (auto simp: worker_timeout_def locks_def set_worker_def intro!: lock_held_other split: if_splits)
next
  case (Notify i)
  then show ?thesis using assms(1,2)
    by (auto simp: notify_one_def Let_def locks_def set_worker_def intro!: lock_held_other split: if_splits)
next
  case Grow
  then show ?thesis using assms(1,2) by (auto simp: grow_step_def addThread_def locks_def lock_held_grow split: if_splits)
next
  case Stop
  then show ?thesis using assms(1,2)
    by (auto simp: stop_step_def locks_def notify_all_def lock_held_wake split: stop_pc.splits if_splits)
qed (use assms(1,2) in \<open>auto simp: submit_lock_def submit_push_def submit_timeout_def locks_def lock_held_free
    split: if_splits queue_lock.splits\<close>)

lemma attended_awake: "w \<in> set (tp_workers q) \<Longrightarrow> awake w \<Longrightarrow> attended q"
  by (auto simp: attended_def)

lemma set_worker_in: "i < length (tp_workers p) \<Longrightarrow> w \<in> set (tp_workers (set_worker i w p))"
  by (simp add: set_worker_def set_update_memI)

text \<open>A worker other than the one that changes keeps its place.\<close>

lemma other_worker:
  assumes "x \<in> set ws" "x \<noteq> ws ! i"
  shows "x \<in> set (ws[i := w])"
  using assms by (metis in_set_conv_nth length_list_update nth_list_update_neq)

lemma attended_frame [simp]: "attended (p\<lparr>tp_grow := n\<rparr>) = attended p" by (simp add: attended_def)

lemma attended_worker:
  assumes "attended p" "worker_step i p = Some q" "phases p" "counts p" "locks p"
  shows "attended q"
proof -
  have i: "i < length (tp_workers p)" using assms(2) by (auto simp: worker_step_def split: if_splits)
  have keep: "attended q" if "\<not> awake (tp_workers p ! i)" "w \<noteq> WSleep" "q = set_worker i w r" "tp_workers r = tp_workers p"
    "tp_queue r = tp_queue p" "tp_running r = tp_running p" "tp_notify r = tp_notify p" for w r
  proof -
    have "x \<in> set ((tp_workers p)[i := w])" if "x \<in> set (tp_workers p)" "awake x" for x
      using that \<open>\<not> awake (tp_workers p ! i)\<close> other_worker by metis
    moreover have "set ((tp_workers p)[i := w]) \<subseteq> insert w (set (tp_workers p))" by (rule set_update_subset_insert)
    ultimately show ?thesis using assms(1) that by (auto simp: attended_def set_worker_def)
  qed
  show ?thesis
  proof (cases "tp_workers p ! i")
    case WLoop
    have "must_wait p \<Longrightarrow> tp_queue p = []" using must_wait_empty assms(4) by blast
    moreover have "attended (set_worker i (WTook t) r)" if "tp_workers r = tp_workers p" for t r
      using set_worker_in [of i r "WTook t"] i that by (intro attended_awake [of "WTook t"]) (simp_all add: awake_def)
    ultimately show ?thesis using WLoop assms(2) i
      by (auto simp: worker_step_def worker_loop_def split: if_splits list.splits) (auto simp: attended_def set_worker_def)
  next
    case (WBusy t)
    then show ?thesis using assms(2) i
      by (auto simp: worker_step_def awake_def set_worker_def set_update_memI intro: attended_awake [where w = WLoop])
  next
    case (WTook t)
    then show ?thesis using assms(2) i
      by (auto simp: worker_step_def awake_def set_worker_def set_update_memI intro: attended_awake [where w = "WBusy t"])
  next
    case WTimedOut
    then show ?thesis using assms(2) i keep by (auto simp: worker_step_def markThreadExited_def awake_def split: if_splits)
  next
    case WTested
    then have "tp_queue p = []" using assms(5) i lock_heldD(1,2) unfolding locks_def by metis
    then show ?thesis using WTested assms(2) i by (auto simp: worker_step_def attended_def set_worker_def)
  next
    case WLeaving
    then show ?thesis using assms(2) i keep by (auto simp: worker_step_def awake_def)
  qed (use assms i in \<open>auto simp: pool_ops\<close>)
qed

lemma attended_timeout:
  assumes "attended p" "worker_timeout i p = Some q"
  shows "attended q"
proof -
  have i: "i < length (tp_workers p)" "tp_workers p ! i = WSleep"
    and q: "q = set_worker i (if tp_running p then WTimedOut else WLoop) p"
    using assms(2) by (auto simp: worker_timeout_def split: if_splits)
  have keep: "x \<in> set ((tp_workers p)[i := w])" if "x \<in> set (tp_workers p)" "awake x" for x w
    using that other_worker [of x "tp_workers p" i w] i(2) by (auto simp: awake_def)
  have sleeper: "WSleep \<in> set (tp_workers p)" using i by (metis nth_mem)
  show ?thesis
  proof (cases "tp_running p \<and> tp_queue p \<noteq> [] \<and> tp_notify p = 0")
    case True
    then obtain w where "w \<in> set (tp_workers p)" "awake w" using assms(1) sleeper by (auto simp: attended_def)
    then show ?thesis unfolding q using keep by (intro attended_awake [of w]) (simp_all add: set_worker_def)
  next
    case False
    then show ?thesis by (auto simp: q attended_def set_worker_def)
  qed
qed

text \<open>A notification wakes a sleeper, or finds none.\<close>

lemma attended_notify:
  assumes "attended p" "notify_one i p = Some q"
  shows "attended q"
proof (cases "WSleep \<in> set (tp_workers p)")
  case True
  then have "i < length (tp_workers p)" "q = set_worker i WLoop (p\<lparr>tp_notify := tp_notify p - 1\<rparr>)"
    using assms(2) by (auto simp: notify_one_def Let_def split: if_splits)
  then show ?thesis by (auto simp: set_worker_def set_update_memI awake_def intro!: attended_awake [where w = WLoop])
next
  case False
  then show ?thesis using assms(2) by (auto simp: notify_one_def Let_def attended_def split: if_splits)
qed

lemma attended_step:
  assumes "attended p" "pool_step l p = Some q" "phases p" "counts p" "locks p"
  shows "attended q"
proof (cases l)
  case Grow
  then have "q = addThread (p\<lparr>tp_grow := tp_grow p - 1\<rparr>)" using assms(2) by (auto simp: grow_step_def split: if_splits)
  then show ?thesis using assms(1)
    by (auto simp: addThread_def awake_def intro: attended_awake [where w = WLoop])
next
  case (Work i)
  then show ?thesis using assms by (auto intro: attended_worker)
next
  case (IdleTimeout i)
  then show ?thesis using assms by (auto intro: attended_timeout)
next
  case (Notify i)
  then show ?thesis using assms by (auto intro: attended_notify)
next
  case Stop
  then have "\<not> tp_running q" using assms(2,3) by (auto simp: stop_step_def phases_def notify_all_def split: stop_pc.splits if_splits)
  then show ?thesis by (simp add: attended_def)
next
  case SubmitPush
  then show ?thesis using assms(2) by (auto simp: submit_push_def attended_def split: queue_lock.splits)
qed (use assms in \<open>auto simp: attended_def submit_lock_def submit_timeout_def split: if_splits\<close>)

lemma pool_invariants: "pool_reach p \<Longrightarrow> counts p \<and> phases p \<and> locks p \<and> attended p"
proof (induction rule: pool_reach.induct)
  case (start m k mode n p)
  then show ?case by (blast intro: start_invariants)
next
  case (step p l q)
  then show ?case by (blast intro: counts_step phases_step locks_step attended_step)
qed

section \<open>The end of the pool\<close>

text \<open>How far \<^verbatim>\<open>stop\<close> and the workers still have to go once the flag is down and the notification is out.\<close>

fun work_left :: "worker \<Rightarrow> nat" where
  "work_left WLoop = 2"
| "work_left WTested = 4"
| "work_left WSleep = 3"
| "work_left WTimedOut = 3"
| "work_left (WTook _) = 4"
| "work_left (WBusy _) = 3"
| "work_left WLeaving = 1"
| "work_left WGone = 0"
| "work_left WCleared = 0"

fun stop_left :: "stop_pc \<Rightarrow> nat" where
  "stop_left SNone = 4" | "stop_left SFlagged = 3" | "stop_left SWaiting = 2" | "stop_left SJoining = 1" | "stop_left SStopped = 0"

definition lock_left :: "queue_lock \<Rightarrow> nat" where
  "lock_left l = (case l of LSubmit _ \<Rightarrow> 6 | _ \<Rightarrow> 0)"

definition remaining :: "thread_pool \<Rightarrow> nat" where
  "remaining p = weigh work_left (tp_workers p) + 3 * length (tp_queue p) + tp_notify p + tp_grow p
     + lock_left (tp_lock p) + stop_left (tp_stop p)"

text \<open>The flag is down, the notification is out, and no worker of a \<^verbatim>\<open>FIXED_MOD\<close> pool missed it.\<close>

definition closing :: "thread_pool \<Rightarrow> bool" where
  "closing p \<longleftrightarrow> \<not> tp_running p \<and> tp_stop p \<noteq> SNone \<and> tp_stop p \<noteq> SFlagged
     \<and> (tp_mode p = CACHE_MOD \<or> WSleep \<notin> set (tp_workers p) \<and> WTested \<notin> set (tp_workers p))"

lemma lock_left_simps [simp]: "lock_left LFree = 0" "lock_left (LWorker i) = 0" "lock_left (LSubmit t) = 6"
  by (simp_all add: lock_left_def)

lemma no_wait_closing: "closing p \<Longrightarrow> \<not> must_wait p"
  by (auto simp: closing_def must_wait_def split: pool_mode.splits)

lemma closing_worker:
  assumes "closing p" "worker_step i p = Some q"
  shows "closing q \<and> remaining q < remaining p"
proof -
  have i: "i < length (tp_workers p)" using assms(2) by (auto simp: worker_step_def split: if_splits)
  note u = weigh_update [OF i, of work_left]
  have mem: "set ((tp_workers p)[i := w]) \<subseteq> insert w (set (tp_workers p))" for w by (rule set_update_subset_insert)
  have old: "tp_workers p ! i \<in> set (tp_workers p)" using i by simp
  show ?thesis
  proof (cases "tp_workers p ! i")
    case WLoop
    then show ?thesis using assms i no_wait_closing [OF assms(1)] u [where w = WLeaving] u [where w = "WTook (hd (tp_queue p))"]
        mem [of WLeaving] mem [of "WTook (hd (tp_queue p))"]
      by (auto simp: closing_def remaining_def worker_step_def worker_loop_def set_worker_def split: if_splits list.splits)
  next
    case (WBusy t)
    then show ?thesis using assms i u [where w = WLoop] mem [of WLoop]
      by (auto simp: closing_def remaining_def worker_step_def set_worker_def)
  next
    case (WTook t)
    then show ?thesis using assms i u [where w = "WBusy t"] mem [of "WBusy t"]
      by (auto simp: closing_def remaining_def worker_step_def set_worker_def)
  next
    case WTimedOut
    then show ?thesis using assms i u [where w = WLoop] mem [of WLoop]
      by (auto simp: closing_def remaining_def worker_step_def markThreadExited_def set_worker_def)
  next
    case WTested
    then show ?thesis using assms i u [where w = WSleep] mem [of WSleep] old
      by (auto simp: closing_def remaining_def worker_step_def set_worker_def lock_left_def split: queue_lock.splits)
  next
    case WLeaving
    then show ?thesis using assms i u [where w = WGone] mem [of WGone]
      by (auto simp: closing_def remaining_def worker_step_def set_worker_def)
  qed (use assms i in \<open>auto simp: worker_step_def\<close>)
qed

lemma closing_wake:
  assumes "closing p" "i < length (tp_workers p)" "tp_workers p ! i = WSleep"
  shows "closing (set_worker i WLoop p) \<and> remaining (set_worker i WLoop p) < remaining p"
  using assms weigh_update [OF assms(2), of work_left WLoop] set_update_subset_insert [of "tp_workers p" i WLoop]
  by (auto simp: closing_def remaining_def set_worker_def)

lemma closing_step:
  assumes "closing p" "pool_step l p = Some q"
  shows "closing q \<and> remaining q < remaining p"
proof (cases l)
  case (Work i)
  then show ?thesis using assms closing_worker by simp
next
  case (IdleTimeout i)
  then show ?thesis using assms closing_wake [OF assms(1), of i]
    by (auto simp: worker_timeout_def closing_def split: if_splits)
next
  case (Notify i)
  let ?r = "p\<lparr>tp_notify := tp_notify p - 1\<rparr>"
  have "closing ?r" using assms(1) by (simp add: closing_def)
  moreover have "remaining ?r < remaining p" if "0 < tp_notify p" using that by (simp add: remaining_def)
  ultimately show ?thesis using Notify assms(2) closing_wake [of ?r i]
    by (auto simp: notify_one_def Let_def split: if_splits)
next
  case Stop
  then show ?thesis using assms by (auto simp: stop_step_def closing_def remaining_def split: stop_pc.splits if_splits)
qed (use assms in \<open>auto simp: closing_def remaining_def submit_lock_def submit_push_def submit_timeout_def grow_step_def
    addThread_def split: if_splits queue_lock.splits\<close>)

text \<open>Until \<^verbatim>\<open>stop\<close> has returned, something can move.\<close>

lemma closing_moves:
  assumes "pool_reach p" "closing p" "tp_stop p \<noteq> SStopped"
  shows "\<exists>l q. pool_step l p = Some q"
proof -
  note inv = pool_invariants [OF assms(1)]
  consider (submit) t where "tp_lock p = LSubmit t" | (worker) i where "tp_lock p = LWorker i" | (free) "tp_lock p = LFree"
    by (cases "tp_lock p") auto
  then show ?thesis
  proof cases
    case submit
    then have "pool_step SubmitPush p \<noteq> None" by (simp add: submit_push_def)
    then show ?thesis by blast
  next
    case (worker i)
    then have "i < length (tp_workers p)" "tp_workers p ! i = WTested"
      using inv lock_heldD(3,4) by (auto simp: locks_def)
    then have "pool_step (Work i) p \<noteq> None" by (simp add: worker_step_def)
    then show ?thesis by blast
  next
    case free
    show ?thesis
    proof (cases "set (tp_workers p) \<subseteq> gone")
      case True
      then have "tp_cur_task p = 0 \<and> tp_busy p = 0"
        using inv gone_weights [OF True] all_gone_drained [OF _ True assms(3)] by (auto simp: counts_def)
      then have "pool_step Stop p \<noteq> None"
        using True free assms(2,3) by (cases "tp_stop p") (auto simp: stop_step_def checkExit_def closing_def gone_def)
      then show ?thesis by blast
    next
      case False
      then obtain i where i: "i < length (tp_workers p)" "tp_workers p ! i \<notin> gone" by (metis in_set_conv_nth subsetI)
      then have "pool_step (Work i) p \<noteq> None \<or> pool_step (IdleTimeout i) p \<noteq> None"
        using free no_wait_closing [OF assms(2)] assms(2) nth_mem [OF i(1)]
        by (cases "tp_workers p ! i")
          (auto simp: worker_step_def worker_loop_def worker_timeout_def closing_def gone_def split: list.splits prod.splits)
      then show ?thesis by blast
    qed
  qed
qed

text \<open>A run: the steps in the order in which they happen.\<close>

fun pool_run :: "pool_label list \<Rightarrow> thread_pool \<Rightarrow> thread_pool option" where
  "pool_run [] p = Some p"
| "pool_run (l # ls) p = (case pool_step l p of None \<Rightarrow> None | Some q \<Rightarrow> pool_run ls q)"

lemma reach_run: "pool_reach p \<Longrightarrow> pool_run ls p = Some q \<Longrightarrow> pool_reach q"
  by (induction ls arbitrary: p) (auto split: option.splits intro: pool_reach.step)

lemma closing_run: "closing p \<Longrightarrow> pool_run ls p = Some q \<Longrightarrow> closing q \<and> length ls + remaining q \<le> remaining p"
proof (induction ls arbitrary: p)
  case (Cons l ls)
  then obtain r where r: "pool_step l p = Some r" "pool_run ls r = Some q" by (auto split: option.splits)
  then show ?case using closing_step [OF Cons.prems(1) r(1)] Cons.IH [of r] by auto
qed simp

text \<open>A started pool of \<open>n\<close> workers, for the examples.\<close>

definition started_pool :: "pool_mode \<Rightarrow> int \<Rightarrow> thread_pool" where
  "started_pool mode n =
     (case tp_start (setThreadMaxThreshHold 4 (setTaskQueMaxThreshHold 8 (tp_setMode mode (new_thread_pool n)))) of
        Inr p \<Rightarrow> p | Inl _ \<Rightarrow> new_thread_pool n)"

lemma started_pool_reach: "0 < n \<Longrightarrow> pool_reach (started_pool mode n)"
  by (rule pool_reach.start [where m = 4 and k = 8 and mode = mode and n = n])
    (simp add: started_pool_def tp_start_def setThreadMaxThreshHold_def setTaskQueMaxThreshHold_def tp_setMode_def
      new_thread_pool_def)

section \<open>The pool as a first-in first-out service\<close>

lemma pool_histories_grow:
  assumes "pool_step l p = Some q"
  shows "prefix (tp_accepted p) (tp_accepted q) \<and> prefix (tp_taken p) (tp_taken q)"
proof (cases l)
  case (Work i)
  with assms have w: "worker_step i p = Some q" "i < length (tp_workers p)" by (auto simp: worker_step_def split: if_splits)
  show ?thesis
  proof (cases "tp_workers p ! i")
    case WLoop
    with w show ?thesis by (auto simp: worker_step_def worker_loop_def set_worker_def split: if_splits list.splits)
  next
    case WTimedOut
    with w show ?thesis by (auto simp: worker_step_def markThreadExited_def set_worker_def split: if_splits)
  qed (use w in \<open>auto simp: worker_step_def set_worker_def\<close>)
next
  case Stop
  with assms show ?thesis by (auto simp: stop_step_def notify_all_def split: stop_pc.splits if_splits)
next
  case (Notify i)
  with assms show ?thesis by (auto simp: notify_one_def set_worker_def Let_def split: if_splits)
qed (use assms in \<open>auto simp: worker_timeout_def submit_lock_def submit_push_def submit_timeout_def grow_step_def addThread_def
      set_worker_def split: if_splits queue_lock.splits\<close>)

interpretation pf: fifo_service pool_reach "\<lambda>p q. \<exists>l. pool_step l p = Some q" tp_accepted tp_taken tp_queue
proof
  show "tp_accepted p = tp_taken p @ tp_queue p" if "pool_reach p" for p
    using pool_invariants [OF that] by (auto simp: counts_def)
qed (auto intro: pool_reach.step dest: pool_histories_grow)

lemma pool_run_moves: "pool_run ls p = Some q \<Longrightarrow> (\<lambda>p q. \<exists>l. pool_step l p = Some q)\<^sup>*\<^sup>* p q"
proof (induction ls arbitrary: p)
  case (Cons l ls)
  then obtain r where r: "pool_step l p = Some r" "pool_run ls r = Some q" by (auto split: option.splits)
  with Cons.IH [of r] show ?case by (blast intro: converse_rtranclp_into_rtranclp)
qed simp

section \<open>Properties\<close>

text \<open>C14. \<^bold>\<open>Every task accepted is taken exactly once, in the order of acceptance\<close>, and in every reachable
  state of the pool it waits in the queue, is in the hands of one worker, or is done. The counters agree with
  what they count, and the queue never exceeds its limit. Whatever happens from there on, no task accepted later is
  taken before the ones accepted by now.\<close>

theorem tasks_once_in_order:
  assumes "pool_reach p"
  shows "tp_accepted p = tp_taken p @ tp_queue p
    \<and> mset (tp_accepted p) = mset (tp_queue p) + weigh in_hand (tp_workers p) + mset (tp_done p)
    \<and> tp_cur_task p = int (length (tp_queue p)) \<and> tp_busy p = int (weigh is_busy (tp_workers p))
    \<and> int (length (tp_queue p)) \<le> max 0 (tp_max_task p)
    \<and> (\<forall>ls q. pool_run ls p = Some q \<longrightarrow> prefix (tp_taken q) (tp_accepted p) \<or> prefix (tp_accepted p) (tp_taken q))"
proof -
  have c: "counts p" using pool_invariants [OF assms] by simp
  then have "mset (tp_accepted p) = mset (tp_taken p) + mset (tp_queue p)"
    by (metis counts_def mset_append)
  then show ?thesis using c pf.no_overtaking [OF pool_run_moves assms] by (auto simp: counts_def)
qed

theorem tasks_once_in_order_witness:
  "(case pool_run [SubmitLock 7, SubmitPush, Work 0, SubmitLock 9, SubmitPush] (started_pool FIXED_MOD 1) of
      Some p \<Rightarrow> tp_accepted p = [7, 9] \<and> tp_taken p @ tp_queue p = [7, 9] | None \<Rightarrow> False)"
proof -
  let ?ls = "[SubmitLock 7, SubmitPush, Work 0, SubmitLock 9, SubmitPush]"
  obtain p where p: "pool_run ?ls (started_pool FIXED_MOD 1) = Some p" "tp_accepted p = [7, 9]"
    by (simp add: started_pool_def tp_start_def setThreadMaxThreshHold_def setTaskQueMaxThreshHold_def tp_setMode_def
        new_thread_pool_def pool_ops must_wait_def)
  then show ?thesis
    using tasks_once_in_order [OF reach_run [OF started_pool_reach p(1)]] by simp
qed

lemmas eval_pool = started_pool_def tp_start_def setThreadMaxThreshHold_def setTaskQueMaxThreshHold_def
  tp_setMode_def new_thread_pool_def pool_ops must_wait_def checkExit_def

text \<open>C15. \<^bold>\<open>\<^verbatim>\<open>stop\<close> drains the pool\<close>: when it has returned, the queue is empty, every task that was ever
  accepted is done, and every worker is gone - though \<^verbatim>\<open>checkExit\<close> may have seen the pool idle while a worker had
  taken a task and not yet counted itself busy: the joins make up for it.\<close>

theorem stop_drains:
  assumes "pool_reach p" "tp_stop p = SStopped"
  shows "tp_queue p = [] \<and> mset (tp_done p) = mset (tp_accepted p) \<and> set (tp_workers p) \<subseteq> {WGone, WCleared}"
proof -
  have c: "counts p" and ph: "phases p" using pool_invariants [OF assms(1)] by simp_all
  have g: "set (tp_workers p) \<subseteq> gone" and q: "tp_queue p = []" using ph assms(2) by (auto simp: phases_def)
  have "tp_accepted p = tp_taken p" using c q by (simp add: counts_def)
  then have "mset (tp_done p) = mset (tp_accepted p)" using c gone_weights [OF g] by (simp add: counts_def)
  then show ?thesis using g q by (simp add: gone_def)
qed

theorem stop_drains_witness:
  "(case pool_run [SubmitLock 7, SubmitPush, Work 0, Stop, Stop, Stop, Work 0, Work 0, Work 0, Work 0, Stop]
      (started_pool FIXED_MOD 1) of Some p \<Rightarrow> tp_done p = [7] \<and> tp_queue p = [] | None \<Rightarrow> False)"
proof -
  let ?ls = "[SubmitLock 7, SubmitPush, Work 0, Stop, Stop, Stop, Work 0, Work 0, Work 0, Work 0, Stop]"
  obtain p where p: "pool_run ?ls (started_pool FIXED_MOD 1) = Some p" "tp_stop p = SStopped" "tp_accepted p = [7]"
    by (simp add: eval_pool)
  have "mset (tp_done p) = {#7#} \<and> tp_queue p = []"
    using stop_drains [OF reach_run [OF started_pool_reach p(1)] p(2)] p(3) by simp
  then show ?thesis using p(1) by simp
qed



text \<open>C18. \<^bold>\<open>The lost wake-up of \<^verbatim>\<open>stop\<close>.\<close> \<^verbatim>\<open>stop\<close> lowers the flag and notifies without the queue mutex: a worker
  that has tested its condition just before, and falls asleep just after, is never woken; \<^verbatim>\<open>stop\<close> joins it for ever.
  A pool of one idle \<^verbatim>\<open>FIXED_MOD\<close> worker reaches such a state, in which nothing can move.\<close>

theorem stop_can_hang:
  "\<exists>p. pool_reach p \<and> pool_run [Work 0, Stop, Stop, Work 0, Stop] (started_pool FIXED_MOD 1) = Some p
     \<and> tp_workers p = [WSleep] \<and> tp_stop p = SJoining \<and> (\<forall>l. pool_step l p = None)"
proof -
  let ?ls = "[Work 0, Stop, Stop, Work 0, Stop]"
  obtain p where p: "pool_run ?ls (started_pool FIXED_MOD 1) = Some p" "tp_workers p = [WSleep]" "tp_stop p = SJoining"
    "\<not> tp_running p" "tp_lock p = LFree" "tp_notify p = 0" "tp_grow p = 0" "tp_mode p = FIXED_MOD"
    by (simp add: eval_pool)
  have "pool_step l p = None" for l
    using p(2-) by (cases l) (auto simp: pool_ops not_le)
  then show ?thesis using p reach_run [OF started_pool_reach p(1)] by auto
qed



end
