(* ===== verification/ServerDown.thy ===== *)
theory ServerDown
  imports TcpServer Pollers
begin

text \<open>
  The end of a \<^verbatim>\<open>TcpServer\<close> (destructors in src/net/tcp_server.cpp and src/net/acceptor.cpp): the connections still in the
  map are destroyed in their loops, the listening socket leaves the poller. What the loops then still have to do is run
  from their queues.
\<close>

section \<open>The acceptor and the poller\<close>

text \<open>What the acceptor asks of the poller of the base loop for its channel; it may be destroyed without having listened.\<close>

definition acceptor_listen_ops :: "nat \<Rightarrow> poll_op list" where
  "acceptor_listen_ops ch = [Update EnableReading ch]"

definition acceptor_dtor_ops :: "nat \<Rightarrow> poll_op list" where
  "acceptor_dtor_ops ch = [Update DisableAll ch, Remove ch]"

definition acceptor_destroy :: "tcp_server \<Rightarrow> tcp_server" where
  "acceptor_destroy s = s\<lparr>sv_listening := False\<rparr>"

section \<open>The destructor\<close>

text \<open>One entry of the map that was swapped out: \<^verbatim>\<open>runInLoop\<close> of \<^verbatim>\<open>connectDestroyed\<close> on the connection's loop, the caller being
  in the thread of the base loop. The order in which the hash map is walked is an argument.\<close>

definition destroy_one :: "(bytes \<rightharpoonup> nat) \<Rightarrow> bytes \<Rightarrow> tcp_server \<Rightarrow> tcp_server" where
  "destroy_one m name s =
     (case m name of
        None \<Rightarrow> s
      | Some i \<Rightarrow> (if sv_conn_loop s i = sv_baseLoop s then run_sub_task (TDestroy i) s
                   else sub_queueInLoop (sv_conn_loop s i) (TDestroy i) s))"

definition sv_destroy :: "bytes list \<Rightarrow> tcp_server \<Rightarrow> tcp_server" where
  "sv_destroy names s =
     (let tmpMap = sv_connections s; s = s\<lparr>sv_connections := Map.empty\<rparr>
      in acceptor_destroy (fold (destroy_one tmpMap) names s))"

text \<open>The loops afterwards, which run what is queued.\<close>

fun run_subs :: "nat list \<Rightarrow> tcp_server \<Rightarrow> tcp_server option" where
  "run_subs [] s = Some s"
| "run_subs (l # ls) s = (case sv_step (SubTask l) s of None \<Rightarrow> None | Some s' \<Rightarrow> run_subs ls s')"

section \<open>What the queues hold\<close>

text \<open>No establishment waits in the base loop: there it is run at once.\<close>

definition base_quiet :: "tcp_server \<Rightarrow> bool" where
  "base_quiet s \<longleftrightarrow> (\<forall>i. TEstablish i \<notin> set (sv_sub_queue s (sv_baseLoop s)))"

lemma base_quiet_cong:
  "base_quiet s \<Longrightarrow> sv_baseLoop s' = sv_baseLoop s \<Longrightarrow> (\<And>i. TEstablish i \<in> set (sv_sub_queue s' (sv_baseLoop s))
     \<Longrightarrow> TEstablish i \<in> set (sv_sub_queue s (sv_baseLoop s))) \<Longrightarrow> base_quiet s'"
  by (auto simp: base_quiet_def)

lemmas server_op_defs = removeConnection_def removeConnectionInLoop_def sub_queueInLoop_def delConnection_def
  run_sub_task_def set_conn_def addConnection_def sv_baseLoop_def

lemma base_quiet_step:
  assumes "base_quiet s" "sv_step l s = Some s'"
  shows "base_quiet s'"
proof (cases l)
  case (Accept fd peer)
  show ?thesis
  proof (cases "fd < 0")
    case True
    then show ?thesis using assms Accept by (simp add: acceptor_handleRead_def split: if_splits)
  next
    case False
    then have "newConnection fd peer s = Inr s'"
      using assms(2) Accept by (auto simp: acceptor_handleRead_def split: if_splits sum.splits)
    then show ?thesis using assms(1)
      by (auto simp: newConnection_def ebind_Inr Let_def server_op_defs getNextLoop_def base_quiet_def
          split: if_splits)
  qed
next
  case BaseTask
  then show ?thesis using assms by (auto simp: server_op_defs base_quiet_def split: list.splits if_splits)
next
  case (SubTask m)
  then obtain t ts where t: "sv_sub_queue s m = t # ts"
    "s' = run_sub_task t (s\<lparr>sv_sub_queue := (sv_sub_queue s)(m := ts)\<rparr>)" using assms(2) by (auto split: list.splits)
  show ?thesis
    using assms(1) t(1) unfolding t(2) by (cases t) (auto simp: server_op_defs base_quiet_def split: if_splits)
next
  case (Conn i cl)
  then show ?thesis using assms
    by (auto simp: server_op_defs base_quiet_def split: if_splits option.splits)
qed

lemma base_quiet_reach: "sv_reach s \<Longrightarrow> base_quiet s"
proof (induction rule: sv_reach.induct)
  case (start n spawn has_init name base wcb)
  then show ?case by (simp add: sv_start_def sv_setThreadNum_def new_server_def acceptor_listen_def base_quiet_def)
qed (blast intro: base_quiet_step)

text \<open>A connection is established before it is destroyed.\<close>

fun est_first :: "nat \<Rightarrow> sub_task list \<Rightarrow> bool" where
  "est_first i [] \<longleftrightarrow> True"
| "est_first i (t # ts) \<longleftrightarrow> (t = TDestroy i \<longrightarrow> TEstablish i \<notin> set ts) \<and> est_first i ts"

lemma est_first_append: "est_first i (xs @ [TDestroy j]) \<longleftrightarrow> est_first i xs"
  by (induction xs) auto

lemma est_first_one: "TEstablish i \<notin> set q \<or> TDestroy i \<notin> set q \<Longrightarrow> est_first i q"
  by (induction q) auto

section \<open>The invariant of the way down\<close>

text \<open>Each connection has one destruction ahead or behind it; those in \<open>R\<close> are still to get theirs.\<close>

definition down_ok :: "tcp_server \<Rightarrow> bool \<Rightarrow> nat \<Rightarrow> tcp_conn \<Rightarrow> bool" where
  "down_ok s later i c \<longleftrightarrow> conn_reach c \<and> waiting_est s i = (if tc_state c = kConnecting then 1 else 0)
     \<and> waiting_des s i + (if tc_removed c then 1 else 0) = (if later then 0 else 1)
     \<and> est_first i (sv_sub_queue s (sv_conn_loop s i))"

definition down_at :: "nat set \<Rightarrow> tcp_server \<Rightarrow> bool" where
  "down_at R s \<longleftrightarrow> base_quiet s \<and> (\<forall>i c. sv_conns s i = Some c \<longrightarrow> down_ok s (i \<in> R) i c)
     \<and> (\<forall>l. \<forall>t\<in>set (sv_sub_queue s l). st_conn t \<in> dom (sv_conns s) \<and> sv_conn_loop s (st_conn t) = l)"

lemma down_sub_task:
  assumes s: "down_at R s" and q: "sv_sub_queue s l = t # ts"
    and run: "s' = run_sub_task t (s\<lparr>sv_sub_queue := (sv_sub_queue s)(l := ts)\<rparr>)"
  shows "down_at R s'"
proof -
  let ?i = "st_conn t"
  have "t \<in> set (sv_sub_queue s l)" using q by simp
  then have i: "?i \<in> dom (sv_conns s)" "sv_conn_loop s ?i = l" using s unfolding down_at_def by blast+
  then obtain c where c: "sv_conns s ?i = Some c" by blast
  then have ok: "down_ok s (?i \<in> R) ?i c" using s unfolding down_at_def by blast
  define d where "d = (case t of TEstablish i \<Rightarrow> connectEstablished c | TDestroy i \<Rightarrow> connectDestroyed c)"
  have f: "sv_conn_loop s' = sv_conn_loop s" "sv_conns s' = (sv_conns s)(?i \<mapsto> d)" "sv_sub_queue s' = (sv_sub_queue s)(l := ts)"
    using c unfolding run by (cases t; simp add: run_sub_task_def set_conn_def conn_of_def d_def)+
  have w: "waiting_est s j = waiting_est s' j + (if t = TEstablish j then 1 else 0)"
    "waiting_des s j = waiting_des s' j + (if t = TDestroy j then 1 else 0)" for j
    using q i(2) by (auto simp: waiting_est_def waiting_des_def f)
  have e: "est_first j (sv_sub_queue s' (sv_conn_loop s' j))" if "est_first j (sv_sub_queue s (sv_conn_loop s j))" for j
    using that q by (auto simp: f)
  have reach: "conn_reach c" using ok by (simp add: down_ok_def)
  have own: "down_ok s' (?i \<in> R) ?i d"
  proof (cases t)
    case (TEstablish k)
    then have k: "tc_state c = kConnecting" using ok w [of k] by (auto simp: down_ok_def split: if_splits)
    from established_step [OF reach k] show ?thesis
      using ok k TEstablish w [of k] e [of k] by (simp add: down_ok_def d_def)
  next
    case (TDestroy k)
    have "est_first k (t # ts)" using ok TDestroy q i(2) by (simp add: down_ok_def)
    then have "waiting_est s k = 0" using TDestroy q i(2) by (simp add: waiting_est_def count_list_0_iff)
    then have "tc_state c \<noteq> kConnecting" "\<not> tc_removed c" "?i \<notin> R"
      using ok TDestroy w [of k] by (auto simp: down_ok_def split: if_splits)
    from destroyed_step [OF reach this(1,2)] this show ?thesis
      using ok TDestroy w [of k] e [of k] by (simp add: down_ok_def d_def)
  qed
  have "down_ok s' (j \<in> R) j x" if x: "sv_conns s' j = Some x" for j x
  proof (cases "j = ?i")
    case True
    then show ?thesis using x own by (simp add: f)
  next
    case False
    then have o: "down_ok s (j \<in> R) j x" "t \<noteq> TEstablish j" "t \<noteq> TDestroy j" using x s by (auto simp: down_at_def f)
    then show ?thesis using w [of j] e [of j] by (simp add: down_ok_def)
  qed
  moreover have "st_conn u \<in> dom (sv_conns s') \<and> sv_conn_loop s' (st_conn u) = m" if u: "u \<in> set (sv_sub_queue s' m)" for u m
  proof -
    have "u \<in> set (sv_sub_queue s m)" using u q by (cases "m = l") (auto simp: f)
    then show ?thesis using s by (auto simp: down_at_def f)
  qed
  moreover have "base_quiet s'"
  proof -
    have step: "sv_step (SubTask l) s = Some s'" using q run by simp
    have "base_quiet s" using s by (simp add: down_at_def)
    then show ?thesis by (rule base_quiet_step [OF _ step])
  qed
  ultimately show ?thesis unfolding down_at_def by blast
qed

text \<open>The destructor gives a connection its destruction, at once or in its loop.\<close>

lemma down_destroy_one:
  assumes s: "down_at R s" and i: "m name = Some i" "i \<in> R" "i \<in> dom (sv_conns s)"
  shows "down_at (R - {i}) (destroy_one m name s)"
proof -
  let ?s = "destroy_one m name s"
  obtain c where c: "sv_conns s i = Some c" using i(3) by blast
  have "down_ok s (i \<in> R) i c" using s c unfolding down_at_def by blast
  then have ok: "down_ok s True i c" using i(2) by simp
  then have reach: "conn_reach c" by (simp add: down_ok_def)
  show ?thesis
  proof (cases "sv_conn_loop s i = sv_baseLoop s")
    case True
    have "waiting_est s i = 0" using s True by (simp add: waiting_est_def count_list_0_iff down_at_def base_quiet_def)
    then have n: "tc_state c \<noteq> kConnecting" "\<not> tc_removed c" "waiting_des s i = 0" using ok by (auto simp: down_ok_def split: if_splits)
    have e: "?s = set_conn i (connectDestroyed c) s"
      using True i(1) c by (simp add: destroy_one_def run_sub_task_def conn_of_def)
    have "base_quiet ?s" using s unfolding e by (simp add: down_at_def base_quiet_def set_conn_def sv_baseLoop_def)
    then show ?thesis using s destroyed_step [OF reach n(1,2)] n ok
      unfolding e by (auto simp: down_at_def down_ok_def set_conn_def waiting_est_def waiting_des_def)
  next
    case False
    have e: "?s = sub_queueInLoop (sv_conn_loop s i) (TDestroy i) s" using False i(1) by (simp add: destroy_one_def)
    have w: "waiting_est ?s j = waiting_est s j" "waiting_des ?s j = waiting_des s j + (if j = i then 1 else 0)" for j
      by (simp_all add: e waiting_est_def waiting_des_def sub_queueInLoop_def)
    have p: "est_first j (sv_sub_queue ?s (sv_conn_loop ?s j)) = est_first j (sv_sub_queue s (sv_conn_loop s j))" for j
      by (simp add: e sub_queueInLoop_def est_first_append)
    have "down_ok ?s (j \<in> R - {i}) j d" if "sv_conns s j = Some d" for j d
    proof -
      have "down_ok s (j \<in> R) j d" using s that by (simp add: down_at_def)
      then show ?thesis using ok c that by (auto simp: down_ok_def w p split: if_splits)
    qed
    moreover have "base_quiet ?s" using s False unfolding e by (simp add: down_at_def base_quiet_def sub_queueInLoop_def sv_baseLoop_def)
    ultimately show ?thesis using s c i(3) unfolding down_at_def by (auto simp: e sub_queueInLoop_def split: if_splits)
  qed
qed

lemma destroy_one_frame:
  "dom (sv_conns s) \<subseteq> dom (sv_conns (destroy_one m name s))" "sv_connections (destroy_one m name s) = sv_connections s"
  "sv_base_queue (destroy_one m name s) = sv_base_queue s"
  by (auto simp: destroy_one_def run_sub_task_def set_conn_def sub_queueInLoop_def split: option.splits)

lemma down_destroy:
  assumes "down_at {i. \<exists>n\<in>set names. m n = Some i} s" "distinct names" "inj_on m (set names)"
    and "\<forall>n\<in>set names. \<exists>i\<in>dom (sv_conns s). m n = Some i"
  shows "down_at {} (fold (destroy_one m) names s)"
  using assms
proof (induction names arbitrary: s)
  case (Cons n names)
  obtain i where i: "m n = Some i" "i \<in> dom (sv_conns s)" using Cons.prems(4) by auto
  have "{i. \<exists>k\<in>set (n # names). m k = Some i} - {i} = {i. \<exists>k\<in>set names. m k = Some i}"
    using Cons.prems(2,3) i(1) unfolding inj_on_def by (auto; metis)
  moreover have "down_at ({i. \<exists>k\<in>set (n # names). m k = Some i} - {i}) (destroy_one m n s)"
    using i(1) by (intro down_destroy_one [where m = m, OF Cons.prems(1) i(1) _ i(2)]) auto
  ultimately have "down_at {i. \<exists>k\<in>set names. m k = Some i} (destroy_one m n s)" by simp
  moreover have "\<forall>k\<in>set names. \<exists>i\<in>dom (sv_conns (destroy_one m n s)). m k = Some i"
    using Cons.prems(4) destroy_one_frame(1) by fastforce
  ultimately show ?case using Cons.IH Cons.prems(2,3) by simp
qed simp

lemma down_start:
  assumes "sv_reach s" "sv_no_wrap s" "sv_base_queue s = []" "distinct names" "set names = dom (sv_connections s)"
  shows "down_at {} (sv_destroy names s)"
proof -
  have s: "sv_inv None s" by (rule sv_reach_inv [OF assms(1,2)])
  let ?m = "sv_connections s" and ?s = "s\<lparr>sv_connections := Map.empty\<rparr>"
  have m: "i \<in> dom (sv_conns s)" "sv_conn_name s i = name" if "?m name = Some i" for name i
    using s that unfolding sv_inv_def by blast+
  have ok: "down_ok ?s (\<exists>n\<in>set names. ?m n = Some i) i c" if c: "sv_conns s i = Some c" for i c
  proof -
    have k: "conn_ok s 0 i c" using s c by (simp add: sv_inv_def)
    then have reach: "conn_reach c" by (simp add: conn_ok_def)
    have later: "(\<exists>n\<in>set names. ?m n = Some i) \<longleftrightarrow> close_calls c = 0"
    proof -
      have "?m (sv_conn_name s i) = Some i \<longleftrightarrow> close_calls c = 0" using k assms(3) by (simp add: conn_ok_def)
      moreover have "n = sv_conn_name s i" if "?m n = Some i" for n using m(2) [OF that] by simp
      ultimately show ?thesis using assms(5) by (metis domI)
    qed
    have "waiting_est s i = 0 \<or> waiting_des s i = 0"
      using k close_calls_connecting [OF reach] by (auto simp: conn_ok_def split: if_splits)
    then have "est_first i (sv_sub_queue s (sv_conn_loop s i))"
      by (intro est_first_one) (auto simp: waiting_est_def waiting_des_def count_list_0_iff)
    moreover have "waiting_des s i + (if tc_removed c then 1 else 0) = close_calls c" using k assms(3) by (simp add: conn_ok_def)
    moreover have "close_calls c \<le> 1" by (rule close_calls_bound [OF reach])
    ultimately show ?thesis using k later unfolding down_ok_def waiting_est_def waiting_des_def conn_ok_def
      by (auto split: if_splits)
  qed
  have "base_quiet ?s" using base_quiet_reach [OF assms(1)] by (simp add: base_quiet_def sv_baseLoop_def)
  then have "down_at {i. \<exists>n\<in>set names. ?m n = Some i} ?s" using s ok unfolding down_at_def by (auto simp: sv_inv_def)
  moreover have "inj_on ?m (set names)" unfolding inj_on_def assms(5) using m(2) by (metis domD)
  moreover have "\<forall>n\<in>set names. \<exists>i\<in>dom (sv_conns ?s). ?m n = Some i" using m assms(5) by auto
  ultimately have "down_at {} (fold (destroy_one ?m) names ?s)" using assms(4) by (intro down_destroy)
  then show ?thesis
    by (simp add: sv_destroy_def acceptor_destroy_def down_at_def down_ok_def base_quiet_def sv_baseLoop_def
        waiting_est_def waiting_des_def)
qed

lemma sub_task_shape:
  "sv_step (SubTask l) s = Some s' \<Longrightarrow> \<exists>t ts. sv_sub_queue s l = t # ts
     \<and> s' = run_sub_task t (s\<lparr>sv_sub_queue := (sv_sub_queue s)(l := ts)\<rparr>) \<and> sv_sub_queue s' = (sv_sub_queue s)(l := ts)"
  by (auto simp: run_sub_task_def set_conn_def split: list.splits sub_task.splits)

lemma down_run: "run_subs ls s = Some s' \<Longrightarrow> down_at R s \<Longrightarrow> down_at R s'"
proof (induction ls arbitrary: s)
  case (Cons l ls)
  then obtain t where t: "sv_step (SubTask l) s = Some t" "run_subs ls t = Some s'" by (auto split: option.splits)
  then have "down_at R t" using sub_task_shape [OF t(1)] down_sub_task [OF Cons.prems(2)] by metis
  then show ?case by (rule Cons.IH [OF t(2)])
qed simp

lemma run_out:
  "\<exists>s'. run_subs (replicate (length (sv_sub_queue s l)) l) s = Some s' \<and> sv_sub_queue s' l = []"
proof (induction "sv_sub_queue s l" arbitrary: s)
  case (Cons t ts)
  obtain s' where s': "sv_step (SubTask l) s = Some s'" using Cons.hyps(2) [symmetric] by simp
  then have "sv_sub_queue s' l = ts" using sub_task_shape [OF s'] Cons.hyps(2) [symmetric] by auto
  then show ?case using Cons.hyps(1) [of s'] s' Cons.hyps(2) [symmetric] by (simp del: sv_step.simps)
qed simp

section \<open>Properties\<close>

text \<open>C26. Destroying a server, once the base loop has served the closes it was told of: the map is empty, and in whatever
  order the loops then run their queues, every connection the server ever made is in a state its own steps reach and has
  exactly one destruction ahead or behind it; so a loop that runs out its queue has removed each of its connections from
  its poller, after announcing it, and none is left connected.\<close>

theorem server_destroyed:
  assumes "sv_reach s" "sv_no_wrap s" "sv_base_queue s = []" "distinct names" "set names = dom (sv_connections s)"
  shows "sv_connections (sv_destroy names s) = Map.empty \<and> \<not> sv_listening (sv_destroy names s)
    \<and> (\<forall>ls d i c. run_subs ls (sv_destroy names s) = Some d \<and> sv_conns d i = Some c \<longrightarrow>
        conn_reach c \<and> waiting_des d i + (if tc_removed c then 1 else 0) = 1
        \<and> (sv_sub_queue d (sv_conn_loop d i) = [] \<longrightarrow> tc_removed c \<and> tc_state c \<noteq> kConnecting \<and> tc_state c \<noteq> kConnected
             \<and> NConnection kConnected \<in> set (tc_log c)))
    \<and> (\<forall>l. \<exists>d. run_subs (replicate (length (sv_sub_queue (sv_destroy names s) l)) l) (sv_destroy names s) = Some d
        \<and> sv_sub_queue d l = [])"
proof -
  have start: "down_at {} (sv_destroy names s)" by (rule down_start [OF assms])
  have "sv_connections (fold (destroy_one m) ns u) = sv_connections u" for m ns u
    by (induction ns arbitrary: u) (simp_all add: destroy_one_frame)
  then have e: "sv_connections (sv_destroy names s) = Map.empty" "\<not> sv_listening (sv_destroy names s)"
    by (simp_all add: sv_destroy_def acceptor_destroy_def)
  have "conn_reach c \<and> waiting_des d i + (if tc_removed c then 1 else 0) = 1
        \<and> (sv_sub_queue d (sv_conn_loop d i) = [] \<longrightarrow> tc_removed c \<and> tc_state c \<noteq> kConnecting \<and> tc_state c \<noteq> kConnected
             \<and> NConnection kConnected \<in> set (tc_log c))"
    if d: "run_subs ls (sv_destroy names s) = Some d" "sv_conns d i = Some c" for ls d i c
  proof -
    have "down_ok d (i \<in> {}) i c" using down_run [OF d(1) start] d(2) unfolding down_at_def by blast
    then have k: "conn_reach c" "waiting_est d i = (if tc_state c = kConnecting then 1 else 0)"
      "waiting_des d i + (if tc_removed c then 1 else 0) = 1" unfolding down_ok_def by simp_all
    have li: "life_inv c" by (rule reach_life [OF k(1)])
    have "NConnection kConnected \<in> set (life (tc_log c))" if "tc_state c \<noteq> kConnecting"
      using li that by (cases "tc_closed c") (auto simp: life_inv_def)
    moreover have "set (life (tc_log c)) \<subseteq> set (tc_log c)" by (auto simp: life_def)
    moreover have "tc_state c \<noteq> kConnected" if "tc_removed c" using li that by (auto simp: life_inv_def)
    ultimately show ?thesis using k by (auto simp: waiting_est_def waiting_des_def split: if_splits)
  qed
  then show ?thesis using e run_out by blast
qed

theorem server_destroyed_witness:
  "\<exists>d c. run_subs [5, 5] (sv_destroy [sv_conn_name sv_example 1] sv_example) = Some d \<and> sv_conns d 1 = Some c
    \<and> tc_removed c \<and> tc_state c \<noteq> kConnected \<and> conn_reach c"
proof -
  let ?names = "[sv_conn_name sv_example 1]"
  note defs = sv_example_def sv_started_example_def sv_start_def sv_setThreadNum_def new_server_def acceptor_listen_def
    elp_start_def setThreadNum_def new_loop_pool_def acceptor_handleRead_def newConnection_def getNextLoop_def Let_def
    sv_baseLoop_def addConnection_def sub_queueInLoop_def
  have "distinct ?names" "set ?names = dom (sv_connections sv_example)" by (simp_all add: defs)
  note t = server_destroyed [OF sv_example_facts(1,2,5) this]
  let ?d = "sv_destroy ?names sv_example"
  have q: "sv_sub_queue ?d 5 = [TEstablish 1, TDestroy 1]" "sv_conns ?d 1 = Some (new_conn 1 7 True)" "sv_conn_loop ?d 1 = 5"
    by (simp_all add: defs sv_destroy_def destroy_one_def acceptor_destroy_def)
  obtain d where d: "run_subs [5, 5] ?d = Some d" "sv_sub_queue d 5 = []" proof -
    have "replicate (length (sv_sub_queue ?d 5)) (5::nat) = [5, 5]" unfolding q(1) by simp
    with t that show thesis by metis
  qed
  have "sv_conns d 1 \<noteq> None \<and> sv_conn_loop d 1 = 5"
    using d(1) q by (auto simp: run_sub_task_def set_conn_def)
  then obtain c where c: "sv_conns d 1 = Some c" "sv_conn_loop d 1 = 5" by blast
  have "conn_reach c \<and> (sv_sub_queue d (sv_conn_loop d 1) = [] \<longrightarrow> tc_removed c \<and> tc_state c \<noteq> kConnected)"
    using t d(1) c(1) by blast
  then show ?thesis using d c by (intro exI [of _ d] exI [of _ c]) simp
qed

text \<open>The acceptor's channel is taken out of the poller of the base loop without a failing call, whether or not it listened.\<close>

lemma acceptor_channel_gone:
  assumes "fresh_channels cs" "\<forall>c. ch_events (cs c) = 0"
  shows "\<exists>p q. ep_run ((if listened then acceptor_listen_ops ch else []) @ acceptor_dtor_ops ch) cs = Inr p
    \<and> pp_run ((if listened then acceptor_listen_ops ch else []) @ acceptor_dtor_ops ch) cs = Inr q
    \<and> \<not> ep_known p ch \<and> \<not> pp_known q ch"
proof -
  let ?ops = "(if listened then acceptor_listen_ops ch else []) @ acceptor_dtor_ops ch"
  have k: "removes_known ?ops no_polls" "\<not> ap_known (fold abs_step ?ops no_polls) ch"
    by (auto simp: acceptor_listen_ops_def acceptor_dtor_ops_def)
  then obtain p q where "ep_run ?ops cs = Inr p" "pp_run ?ops cs = Inr q"
      "ep_known p = ap_known (fold abs_step ?ops no_polls)" "pp_known q = ap_known (fold abs_step ?ops no_polls)"
    using replay [OF assms(1) _ k(1)] assms(2) by blast
  then show ?thesis using k(2) by metis
qed

section \<open>What still refers to the server\<close>

lemma destroy_fold_frame:
  "sv_base_queue (fold (destroy_one m) names s) = sv_base_queue s"
  "sv_conn_loop s i \<noteq> sv_baseLoop s \<Longrightarrow> sv_conns (fold (destroy_one m) names s) i = sv_conns s i"
  "sv_conn_loop (fold (destroy_one m) names s) = sv_conn_loop s" "sv_baseLoop (fold (destroy_one m) names s) = sv_baseLoop s"
proof -
  have one: "sv_conn_loop (destroy_one m n u) = sv_conn_loop u" "sv_baseLoop (destroy_one m n u) = sv_baseLoop u"
    "sv_base_queue (destroy_one m n u) = sv_base_queue u"
    "sv_conn_loop u i \<noteq> sv_baseLoop u \<longrightarrow> sv_conns (destroy_one m n u) i = sv_conns u i" for n u
    by (auto simp: destroy_one_def run_sub_task_def set_conn_def sub_queueInLoop_def sv_baseLoop_def split: option.splits)
  have "sv_base_queue (fold (destroy_one m) names s) = sv_base_queue s
    \<and> (sv_conn_loop s i \<noteq> sv_baseLoop s \<longrightarrow> sv_conns (fold (destroy_one m) names s) i = sv_conns s i)
    \<and> sv_conn_loop (fold (destroy_one m) names s) = sv_conn_loop s \<and> sv_baseLoop (fold (destroy_one m) names s) = sv_baseLoop s"
  proof (induction names arbitrary: s)
    case (Cons n names)
    then show ?case using one [where n = n and u = s] by simp
  qed simp
  then show "sv_base_queue (fold (destroy_one m) names s) = sv_base_queue s"
    "sv_conn_loop s i \<noteq> sv_baseLoop s \<Longrightarrow> sv_conns (fold (destroy_one m) names s) i = sv_conns s i"
    "sv_conn_loop (fold (destroy_one m) names s) = sv_conn_loop s" "sv_baseLoop (fold (destroy_one m) names s) = sv_baseLoop s"
    by simp_all
qed

text \<open>Calls of a member function of the server survive it: the closes that wait in the base loop, and those that connections
  of other loops report before they get to their destruction. The queue of the base loop after the destructor is the list
  of functions bound to the destroyed object.\<close>

theorem server_called_after_its_end:
  assumes "sv_conns s i = Some c" "can_report c" "sv_conn_loop s i \<noteq> sv_baseLoop s"
  shows "sv_base_queue (sv_destroy names s) = sv_base_queue s
    \<and> (\<exists>s'. sv_step (Conn i HangUp) (sv_destroy names s) = Some s' \<and> sv_base_queue s' = sv_base_queue s @ [i])"
proof -
  let ?u = "s\<lparr>sv_connections := Map.empty\<rparr>"
  let ?d = "sv_destroy names s"
  have d: "sv_conns ?d i = Some c" "sv_conn_loop ?d i \<noteq> sv_baseLoop ?d" "sv_base_queue ?d = sv_base_queue s"
    using destroy_fold_frame [where m = "sv_connections s" and names = names and s = ?u] assms(1,3)
    by (simp_all add: sv_destroy_def acceptor_destroy_def sv_baseLoop_def)
  have "close_calls (tc_handleClose c) = close_calls c + 1"
    by (simp add: close_calls_def tc_handleClose_def Let_def tc_channel_op_def)
  then show ?thesis using d assms(2)
    by (simp add: own_conn_label_def removeConnection_def set_conn_def sv_baseLoop_def)
qed

end
