(* ===== verification/UdpServer.thy ===== *)
theory UdpServer
  imports AsyncUdp ThreadPool
begin

text \<open>
  \<^verbatim>\<open>UdpServer\<close> (include/net/udp_server.h, src/net/udp_server.cpp), over the datagram endpoint of AsyncUdp and the worker pool of
  ThreadPool. The functions of the server and of its endpoint go through the queue of one loop, which the model keeps
  in their common order: a mark stands for the next queued function of the endpoint. \<^verbatim>\<open>start\<close> tests its counter and
  raises it in two steps, so that two threads can be between them.
\<close>

section \<open>State\<close>

datatype us_task = UsBindStart | UsEndpoint

record udp_server =
  us_acceptor :: "async_udp option"
  us_pool :: thread_pool
  us_started :: nat
  us_starting :: nat               \<comment> \<open>threads between the test of \<open>started_\<close> and its increment\<close>
  us_has_cb :: bool
  us_alive :: bool
  us_bound :: bool
  us_loop :: "us_task list"
  us_binds :: nat                  \<comment> \<open>history: the system has bound the socket\<close>
  us_log :: "(bytes \<times> nat) list"   \<comment> \<open>history: the datagrams handed to the user\<close>
  us_dead_calls :: nat             \<comment> \<open>history: datagrams handed to a server that is gone\<close>

text \<open>\<^verbatim>\<open>AsyncUdpDatagram::Create\<close> makes no endpoint without a loop.\<close>

definition au_Create :: "bool \<Rightarrow> nat \<Rightarrow> int \<Rightarrow> async_udp option" where
  "au_Create has_loop i fd = (if \<not> has_loop then None else Some (new_async_udp i fd False False False))"

definition au_setMessageCallback :: "bool \<Rightarrow> async_udp \<Rightarrow> async_udp" where
  "au_setMessageCallback b c = c\<lparr>au_has_mcb := b\<rparr>"

definition new_udp_server :: "bool \<Rightarrow> nat \<Rightarrow> int \<Rightarrow> int \<Rightarrow> udp_server" where
  "new_udp_server has_loop i fd threads =
     \<lparr>us_acceptor = map_option (au_setMessageCallback True) (au_Create has_loop i fd), us_pool = new_thread_pool threads,
      us_started = 0, us_starting = 0, us_has_cb = False, us_alive = True, us_bound = False, us_loop = [],
      us_binds = 0, us_log = [], us_dead_calls = 0\<rparr>"

section \<open>Operations\<close>

text \<open>The endpoint has done something: what it queued joins the queue of the loop.\<close>

definition us_endpoint :: "async_udp \<Rightarrow> async_udp \<Rightarrow> udp_server \<Rightarrow> udp_server" where
  "us_endpoint c c' s =
     s\<lparr>us_acceptor := Some c', us_loop := us_loop s @ replicate (length (au_queue c') - length (au_queue c)) UsEndpoint\<rparr>"

definition us_setMessageCallback :: "bool \<Rightarrow> udp_server \<Rightarrow> udp_server" where
  "us_setMessageCallback b s = s\<lparr>us_has_cb := b\<rparr>"

text \<open>\<^verbatim>\<open>UdpDatagram::bind\<close> asks the system only while the socket is not bound.\<close>

definition us_bind :: "bool \<Rightarrow> udp_server \<Rightarrow> bool \<times> udp_server" where
  "us_bind bind_ok s =
     (if us_bound s then (True, s)
      else (bind_ok, s\<lparr>us_bound := bind_ok, us_binds := us_binds s + (if bind_ok then 1 else 0)\<rparr>))"

definition bindStartInLoop :: "bool \<Rightarrow> udp_server \<Rightarrow> udp_server" where
  "bindStartInLoop bind_ok s =
     (case us_acceptor s of
        None \<Rightarrow> s
      | Some c \<Rightarrow>
          (let (bound, s) = us_bind bind_ok s in if bound then us_endpoint c (au_start True c) s else s))"

definition us_start_test :: "udp_server \<Rightarrow> udp_server" where
  "us_start_test s = (if us_started s > 0 then s else s\<lparr>us_starting := us_starting s + 1\<rparr>)"

definition us_start_go :: "bool \<Rightarrow> bool \<Rightarrow> udp_server \<Rightarrow> cpp_error + udp_server" where
  "us_start_go in_loop bind_ok s =
     (let s = s\<lparr>us_starting := us_starting s - 1, us_started := us_started s + 1\<rparr> in
      ebind (tp_start (us_pool s))
        (\<lambda>p. let s = s\<lparr>us_pool := p\<rparr> in
           if us_acceptor s = None then Inl NullDeref
           else if in_loop then Inr (bindStartInLoop bind_ok s) else Inr (s\<lparr>us_loop := us_loop s @ [UsBindStart]\<rparr>)))"

text \<open>\<^verbatim>\<open>newDatagram\<close>, which the endpoint calls.\<close>

definition newDatagram :: "bytes \<Rightarrow> nat \<Rightarrow> udp_server \<Rightarrow> udp_server" where
  "newDatagram message peer s =
     (let s = (if us_alive s then s else s\<lparr>us_dead_calls := us_dead_calls s + 1\<rparr>) in
      if us_has_cb s then s\<lparr>us_log := us_log s @ [(message, peer)]\<rparr> else s)"

definition us_readable :: "read_result \<Rightarrow> nat \<Rightarrow> async_udp \<Rightarrow> udp_server \<Rightarrow> udp_server" where
  "us_readable arrived peer c s =
     (let c' = au_handleRead arrived peer c; s = us_endpoint c c' s in
      if au_log c' = au_log c then s
      else (case udp_recvFrom arrived of (n, message) \<Rightarrow> newDatagram message peer s))"

definition us_destroy :: "bool \<Rightarrow> udp_server \<Rightarrow> udp_server" where
  "us_destroy in_loop s =
     (case us_acceptor s of
        None \<Rightarrow> s\<lparr>us_alive := False\<rparr>
      | Some c \<Rightarrow>
          (let c' = au_forceClose in_loop (au_setMessageCallback False c) in (us_endpoint c c' s)\<lparr>us_alive := False\<rparr>))"

section \<open>Steps\<close>

text \<open>The owner configures, starts and destroys the server; the loop runs the functions queued into it and reports events
  of the endpoint, whose own calls (a user's \<^verbatim>\<open>send\<close> through the endpoint is not offered by the server) are its writes
  and errors.\<close>

datatype us_label =
    UsSetCallback bool | UsStartTest | UsStartGo bool bool | UsDestroy bool
  | UsRunLoop bool | UsReadable read_result nat | UsWritable "write_result list" | UsError int

fun us_step :: "us_label \<Rightarrow> udp_server \<Rightarrow> (cpp_error + udp_server) option" where
  "us_step (UsSetCallback b) s = (if us_alive s then Some (Inr (us_setMessageCallback b s)) else None)"
| "us_step UsStartTest s = (if us_alive s then Some (Inr (us_start_test s)) else None)"
| "us_step (UsStartGo in_loop ok) s =
     (if us_alive s \<and> us_starting s > 0 then Some (us_start_go in_loop ok s) else None)"
| "us_step (UsDestroy in_loop) s = (if us_alive s \<and> us_starting s = 0 then Some (Inr (us_destroy in_loop s)) else None)"
| "us_step (UsRunLoop ok) s =
     (case us_loop s of
        [] \<Rightarrow> None
      | UsBindStart # ts \<Rightarrow> Some (Inr (bindStartInLoop ok (s\<lparr>us_loop := ts\<rparr>)))
      | UsEndpoint # ts \<Rightarrow>
          (case us_acceptor s of
             None \<Rightarrow> None
           | Some c \<Rightarrow>
               (case au_queue c of
                  [] \<Rightarrow> None
                | t # q \<Rightarrow>
                    (let c = c\<lparr>au_queue := q\<rparr>
                     in Some (Inr (us_endpoint c (au_run_queued (WriteErr EAGAIN) t c) (s\<lparr>us_loop := ts\<rparr>)))))))"
| "us_step (UsReadable r peer) s =
     (case us_acceptor s of None \<Rightarrow> None | Some c \<Rightarrow> Some (Inr (us_readable r peer c s)))"
| "us_step (UsWritable ws) s =
     (case us_acceptor s of None \<Rightarrow> None
      | Some c \<Rightarrow> map_option (map_sum id (\<lambda>c'. us_endpoint c c' s)) (au_handleWrite (\<lambda>e p. []) ws c))"
| "us_step (UsError e) s =
     (case us_acceptor s of None \<Rightarrow> None | Some c \<Rightarrow> Some (Inr (us_endpoint c (au_handleError e c) s)))"

fun us_run :: "us_label list \<Rightarrow> udp_server \<Rightarrow> udp_server option" where
  "us_run [] s = Some s"
| "us_run (l # ls) s = (case us_step l s of Some (Inr s') \<Rightarrow> us_run ls s' | _ \<Rightarrow> None)"

inductive us_reach :: "udp_server \<Rightarrow> bool" where
  us_begin: "us_reach (new_udp_server has_loop i fd threads)"
| us_next: "us_reach s \<Longrightarrow> us_step l s = Some (Inr s') \<Longrightarrow> us_reach s'"

lemma us_run_reach: "us_reach s \<Longrightarrow> us_run ls s = Some s' \<Longrightarrow> us_reach s'"
  by (induction ls arbitrary: s) (auto split: option.splits sum.splits intro: us_next)


section \<open>The invariant\<close>

definition messages :: "udp_note list \<Rightarrow> (bytes \<times> nat) list" where
  "messages ns = concat (map (\<lambda>n. case n of UMessage m p \<Rightarrow> [(m, p)] | _ \<Rightarrow> []) ns)"

lemma messages_append [simp]: "messages (xs @ ys) = messages xs @ messages ys"
  by (simp add: messages_def)

lemma messages_simps [simp]:
  "messages [] = []" "messages [UMessage m p] = [(m, p)]" "messages [UError e p] = []" "messages [UWriteDone] = []"
  by (simp_all add: messages_def)

text \<open>The endpoint of a server: sound on its own, with nothing in its queue but forced closes, reporting to the server as
  long as there is one, and active only after the socket was bound.\<close>

definition us_acceptor_ok :: "udp_server \<Rightarrow> async_udp \<Rightarrow> bool" where
  "us_acceptor_ok s c \<longleftrightarrow> udp_ok c \<and> set (au_queue c) \<subseteq> {DForceClose}
     \<and> length (filter (\<lambda>t. t = UsEndpoint) (us_loop s)) = length (au_queue c)
     \<and> au_has_mcb c = us_alive s \<and> \<not> au_has_wcb c \<and> \<not> au_has_ecb c
     \<and> (\<not> us_alive s \<longrightarrow> au_state c = kClosed \<or> au_queue c \<noteq> [])
     \<and> (au_state c = kActive \<longrightarrow> us_bound s) \<and> subseq (us_log s) (messages (au_log c))"

definition us_inv :: "udp_server \<Rightarrow> bool" where
  "us_inv s \<longleftrightarrow> us_dead_calls s = 0 \<and> us_binds s = (if us_bound s then 1 else 0)
     \<and> (case us_acceptor s of None \<Rightarrow> us_loop s = [] \<and> us_log s = [] \<and> \<not> us_bound s | Some c \<Rightarrow> us_acceptor_ok s c)"

lemma filter_marks [simp]: "length (filter (\<lambda>t. t = UsEndpoint) (xs @ replicate n UsEndpoint)) = length (filter (\<lambda>t. t = UsEndpoint) xs) + n"
  by simp

text \<open>The operations of the endpoint the server uses keep what the server relies on.\<close>

definition quiet :: "async_udp \<Rightarrow> async_udp \<Rightarrow> bool" where
  "quiet c c' \<longleftrightarrow> au_queue c' = au_queue c \<and> au_has_mcb c' = au_has_mcb c \<and> au_has_wcb c' = au_has_wcb c
     \<and> au_has_ecb c' = au_has_ecb c \<and> messages (au_log c') = messages (au_log c)"

lemma quiet_refl [simp]: "quiet c c"
  by (simp add: quiet_def)

lemma quiet_trans: "quiet c d \<Longrightarrow> quiet d e \<Longrightarrow> quiet c e"
  by (simp add: quiet_def)

lemma quiet_op [simp]: "quiet c (au_channel_op op c)" "quiet c (au_remove c)"
  by (simp_all add: quiet_def au_channel_op_def au_remove_def)

lemma startInLoop_quiet: "quiet c (startInLoop c)" "au_state c \<noteq> kUdpNew \<Longrightarrow> startInLoop c = c"
  by (auto simp: startInLoop_def quiet_def au_channel_op_def)

lemma removeChannel_quiet: "quiet c (removeChannelInLoop c)"
  by (simp add: removeChannelInLoop_def Let_def quiet_def drop_pending_def au_remove_def au_channel_op_def)

lemma forceClose_quiet: "quiet c (forceCloseInLoop c)"
proof -
  have "quiet c (drop_pending c)" by (simp add: quiet_def drop_pending_def)
  then show ?thesis using quiet_trans [OF _ removeChannel_quiet] by (simp add: forceCloseInLoop_def)
qed

lemma removeChannel_state: "au_state (removeChannelInLoop c) = kClosed"
  by (simp add: removeChannelInLoop_def Let_def)

lemma forceClose_state: "au_state (forceCloseInLoop c) = kClosed"
  by (simp add: forceCloseInLoop_def removeChannel_state)

lemma pop_front_quiet: "pop_front f c = Inr c' \<Longrightarrow> quiet c c' \<and> au_state c' = au_state c"
  by (auto simp: pop_front_def quiet_def split: list.splits)

lemma drain_quiet:
  "drain cb ws c = Some r \<Longrightarrow> \<not> au_has_ecb c \<Longrightarrow> r = Drained c' \<or> r = WouldBlock c' \<Longrightarrow> quiet c c' \<and> au_state c' = au_state c"
proof (induction ws arbitrary: c)
  case (Cons w ws)
  have next_round: "quiet c c' \<and> au_state c' = au_state c"
    if "(case pop_front f c of Inl err \<Rightarrow> Some (Broken err) | Inr d \<Rightarrow> drain cb ws d) = Some r" for f
  proof (cases "pop_front f c")
    case (Inr d)
    with that Cons.IH [of d] Cons.prems(2,3) pop_front_quiet [OF Inr] show ?thesis by (auto simp: quiet_def)
  qed (use that Cons.prems(3) in auto)
  have "call_error_cb cb e p c = c" for e p using Cons.prems(2) by (simp add: call_error_cb_def)
  then show ?case using Cons.prems next_round
    by (cases "au_pending c"; cases w) (auto split: if_splits prod.splits)
qed (auto split: if_splits)

lemma handleWrite_quiet:
  assumes "au_handleWrite cb ws c = Some (Inr c')" "\<not> au_has_ecb c" "\<not> au_has_wcb c"
  shows "quiet c c' \<and> (au_state c' = au_state c \<or> au_state c' = kClosed)"
proof (cases "(au_state c = kActive \<or> au_state c = kClosing) \<and> au_isWriting c")
  case True
  then obtain r where r: "drain cb ws c = Some r" using assms by (auto simp: au_handleWrite_def split: option.splits)
  show ?thesis
  proof (cases r)
    case (Drained b)
    let ?b = "au_channel_op DisableWriting b"
    have q: "quiet c b" "au_state b = au_state c" using drain_quiet [OF r assms(2)] Drained by auto
    then have b: "quiet c ?b" "au_state ?b = au_state c" using quiet_trans quiet_op by auto
    have "queueWriteCompleteCallback ?b = ?b" using q assms(3) by (simp add: queueWriteCompleteCallback_def quiet_def)
    then have "c' = ?b \<or> c' = removeChannelInLoop ?b"
      using assms(1) True r Drained by (auto simp: au_handleWrite_def Let_def split: if_splits)
    then show ?thesis using b quiet_trans [OF b(1) removeChannel_quiet] removeChannel_state by auto
  next
    case (WouldBlock b)
    then show ?thesis using assms(1) True r drain_quiet [OF r assms(2)] by (auto simp: au_handleWrite_def)
  qed (use assms True r in \<open>auto simp: au_handleWrite_def\<close>)
qed (use assms in \<open>auto simp: au_handleWrite_def split: if_splits\<close>)

text \<open>So the server stays sound when the endpoint moves quietly.\<close>

lemma us_inv_endpoint:
  assumes "us_inv s" "us_acceptor s = Some c" "udp_ok c'" "quiet c c'"
    "au_state c' = au_state c \<or> au_state c' = kClosed \<or> us_bound s \<and> (\<not> us_alive s \<longrightarrow> au_queue c \<noteq> [])"
  shows "us_inv (us_endpoint c c' s)"
  using assms by (auto simp: us_inv_def us_acceptor_ok_def us_endpoint_def quiet_def)


lemma us_endpoint_self: "us_acceptor s = Some c \<Longrightarrow> us_endpoint c c s = s"
  by (simp add: us_endpoint_def)

lemma bindStart_ok:
  assumes "us_inv s"
  shows "us_inv (bindStartInLoop ok s)"
proof (cases "us_acceptor s")
  case (Some c)
  let ?t = "s\<lparr>us_bound := True, us_binds := 1\<rparr>"
  have t: "us_inv ?t" "us_acceptor ?t = Some c" using assms Some by (auto simp: us_inv_def us_acceptor_ok_def)
  have c: "udp_ok c" "\<not> us_alive s \<longrightarrow> au_state c = kClosed \<or> au_queue c \<noteq> []"
    using assms Some by (auto simp: us_inv_def us_acceptor_ok_def)
  have started: "us_inv (us_endpoint c (au_start True c) ?t)"
  proof (cases "au_state c = kUdpNew")
    case True
    then show ?thesis using c t
      by (intro us_inv_endpoint) (auto simp: au_start_def start_ok startInLoop_quiet)
  qed (use t in \<open>simp add: au_start_def us_endpoint_self\<close>)
  show ?thesis
  proof (cases "us_bound s \<or> ok")
    case True
    have "(if us_bound s then s else s\<lparr>us_bound := True, us_binds := us_binds s + 1\<rparr>) = ?t"
      using assms by (auto simp: us_inv_def)
    with True started Some show ?thesis by (auto simp: bindStartInLoop_def us_bind_def split: if_splits)
  next
    case False
    with Some assms show ?thesis by (auto simp: bindStartInLoop_def us_bind_def us_inv_def us_acceptor_ok_def)
  qed
qed (use assms in \<open>simp add: bindStartInLoop_def\<close>)

lemma us_destroy_ok:
  assumes "us_inv s"
  shows "us_inv (us_destroy in_loop s)"
proof (cases "us_acceptor s")
  case (Some c)
  let ?c = "au_setMessageCallback False c"
  have ok: "udp_ok ?c = udp_ok c"
    by (simp add: au_setMessageCallback_def udp_ok_def udp_base_def open_ok_def closed_ok_def au_isWriting_def au_polls_ok_def
        cong: udp_state.case_cong)
  have c: "us_acceptor_ok s c" "us_dead_calls s = 0" "us_binds s = (if us_bound s then 1 else 0)"
    using assms Some by (auto simp: us_inv_def)
  have f: "udp_ok (forceCloseInLoop ?c)" "quiet ?c (forceCloseInLoop ?c)" "au_state (forceCloseInLoop ?c) = kClosed"
    using forceClose_ok [of ?c] ok c by (simp_all add: us_acceptor_ok_def forceClose_quiet forceClose_state)
  show ?thesis
  proof (cases "in_loop \<or> au_state c = kClosed")
    case True
    then have "au_forceClose in_loop ?c = (if au_state c = kClosed then ?c else forceCloseInLoop ?c)"
      by (auto simp: au_forceClose_def au_setMessageCallback_def)
    then show ?thesis using Some c f ok
      by (auto simp: us_destroy_def us_inv_def us_acceptor_ok_def us_endpoint_def quiet_def au_setMessageCallback_def)
  next
    case False
    then have "au_forceClose in_loop ?c = au_queueInLoop DForceClose ?c"
      by (auto simp: au_forceClose_def au_setMessageCallback_def)
    then show ?thesis using Some c ok
      by (auto simp: us_destroy_def us_inv_def us_acceptor_ok_def us_endpoint_def au_setMessageCallback_def au_queueInLoop_def)
  qed
qed (use assms in \<open>auto simp: us_destroy_def us_inv_def\<close>)

lemma us_readable_ok:
  assumes "us_inv s" "us_acceptor s = Some c"
  shows "us_inv (us_readable r peer c s)"
proof (cases "au_log (au_handleRead r peer c) = au_log c")
  case True
  then have "au_handleRead r peer c = c" by (auto simp: au_handleRead_def split: if_splits prod.splits)
  then show ?thesis using assms by (simp add: us_readable_def Let_def us_endpoint_self)
next
  case False
  obtain n m where nm: "udp_recvFrom r = (n, m)" by force
  with False have c: "au_handleRead r peer c = c\<lparr>au_log := au_log c @ [UMessage m peer]\<rparr>" "au_has_mcb c"
    by (auto simp: au_handleRead_def split: if_splits)
  with assms show ?thesis
    by (auto simp: us_readable_def Let_def nm newDatagram_def us_inv_def us_acceptor_ok_def us_endpoint_def
        intro: list_emb_append2 subseq_rev_drop_many)
qed

lemma us_step_ok:
  assumes "us_inv s" "us_step l s = Some (Inr s')"
  shows "us_inv s'"
proof (cases l)
  case (UsStartGo in_loop ok)
  then obtain p where p: "us_acceptor s \<noteq> None"
      "s' = (let t = s\<lparr>us_starting := us_starting s - 1, us_started := us_started s + 1, us_pool := p\<rparr>
             in if in_loop then bindStartInLoop ok t else t\<lparr>us_loop := us_loop t @ [UsBindStart]\<rparr>)"
    using assms(2) by (auto simp: us_start_go_def Let_def ebind_Inr split: if_splits)
  let ?t = "s\<lparr>us_starting := us_starting s - 1, us_started := us_started s + 1, us_pool := p\<rparr>"
  have t: "us_inv ?t" using assms(1) by (auto simp: us_inv_def us_acceptor_ok_def split: option.splits)
  show ?thesis
  proof (cases in_loop)
    case True
    then show ?thesis using p(2) bindStart_ok [OF t] by (simp add: Let_def)
  next
    case False
    then show ?thesis using p t by (auto simp: us_inv_def us_acceptor_ok_def Let_def)
  qed
next
  case (UsDestroy b)
  then show ?thesis using assms us_destroy_ok by (auto split: if_splits)
next
  case (UsRunLoop ok)
  show ?thesis
  proof (cases "us_loop s")
    case (Cons t ts)
    show ?thesis
    proof (cases t)
      case UsBindStart
      have "us_inv (s\<lparr>us_loop := ts\<rparr>)" using assms(1) Cons UsBindStart
        by (auto simp: us_inv_def us_acceptor_ok_def split: option.splits)
      from bindStart_ok [OF this, of ok] show ?thesis using assms(2) UsRunLoop Cons UsBindStart by simp
    next
      case UsEndpoint
      obtain c where c: "us_acceptor s = Some c" "us_acceptor_ok s c"
        using assms(1) Cons by (auto simp: us_inv_def split: option.splits)
      then obtain q where q: "au_queue c = DForceClose # q"
        using Cons UsEndpoint by (cases "au_queue c") (auto simp: us_acceptor_ok_def)
      let ?c = "c\<lparr>au_queue := q\<rparr>"
      have s': "s' = us_endpoint ?c (forceCloseInLoop ?c) (s\<lparr>us_loop := ts\<rparr>)"
        using assms(2) UsRunLoop Cons UsEndpoint c(1) q by (simp add: au_run_queued_def Let_def)
      have "udp_ok (forceCloseInLoop ?c)" using c(2) by (intro forceClose_ok) (simp add: us_acceptor_ok_def)
      then show ?thesis
        using assms(1) c q Cons UsEndpoint forceClose_quiet [of ?c] forceClose_state [of ?c]
        by (auto simp: s' us_inv_def us_acceptor_ok_def us_endpoint_def quiet_def)
    qed
  qed (use assms(2) UsRunLoop in simp)
next
  case (UsReadable r peer)
  then show ?thesis using assms us_readable_ok by (auto split: option.splits)
next
  case (UsWritable ws)
  then obtain c c' where c: "us_acceptor s = Some c" "au_handleWrite (\<lambda>e p. []) ws c = Some (Inr c')" "s' = us_endpoint c c' s"
    using assms(2) by (auto split: option.splits) (metis Inl_Inr_False id_apply map_sum.simps old.sum.exhaust sum.inject(2))
  then have "udp_ok c" "\<not> au_has_ecb c" "\<not> au_has_wcb c" using assms(1) by (auto simp: us_inv_def us_acceptor_ok_def)
  then show ?thesis
    using us_inv_endpoint [OF assms(1) c(1)] handleWrite_ok [OF _ c(2)] handleWrite_quiet [OF c(2)] c(3) by blast
next
  case (UsError e)
  then obtain c where c: "us_acceptor s = Some c" "s' = us_endpoint c (au_handleError e c) s"
    using assms(2) by (auto split: option.splits)
  then have "au_handleError e c = c" using assms(1)
    by (auto simp: us_inv_def us_acceptor_ok_def au_handleError_def notifyError_def)
  then show ?thesis using c assms(1) by (simp add: us_endpoint_self)
next
  case (UsSetCallback b)
  then show ?thesis using assms
    by (auto simp: us_setMessageCallback_def us_inv_def us_acceptor_ok_def split: if_splits option.splits)
next
  case UsStartTest
  then show ?thesis using assms by (auto simp: us_start_test_def us_inv_def us_acceptor_ok_def split: if_splits option.splits)
qed

lemma us_reach_inv: "us_reach s \<Longrightarrow> us_inv s"
proof (induction rule: us_reach.induct)
  case (us_begin has_loop i fd threads)
  have "udp_ok (au_setMessageCallback True (new_async_udp i fd False False False))"
    by (simp add: au_setMessageCallback_def new_async_udp_def udp_ok_def udp_base_def au_polls_ok_def no_polls_def new_channel_def)
  then show ?case
    by (simp add: new_udp_server_def us_inv_def us_acceptor_ok_def au_Create_def)
       (simp add: au_setMessageCallback_def new_async_udp_def)
next
  case (us_next s l s')
  then show ?case by (blast intro: us_step_ok)
qed


text \<open>Running what is queued empties the queue of the loop.\<close>

lemma us_run_head:
  assumes "us_reach s" "us_loop s = t # ts"
  shows "\<exists>s'. us_step (UsRunLoop ok) s = Some (Inr s') \<and> us_loop s' = ts \<and> us_alive s' = us_alive s"
proof (cases t)
  case UsBindStart
  have "us_loop (bindStartInLoop ok (s\<lparr>us_loop := ts\<rparr>)) = ts \<and> us_alive (bindStartInLoop ok (s\<lparr>us_loop := ts\<rparr>)) = us_alive s"
    using startInLoop_quiet(1)
    by (auto simp: bindStartInLoop_def us_bind_def us_endpoint_def au_start_def quiet_def split: option.splits)
  then show ?thesis using assms(2) UsBindStart by simp
next
  case UsEndpoint
  have "us_inv s" by (rule us_reach_inv [OF assms(1)])
  then obtain c where c: "us_acceptor s = Some c" "us_acceptor_ok s c"
    using assms(2) by (auto simp: us_inv_def split: option.splits)
  then obtain q where q: "au_queue c = DForceClose # q"
    using assms(2) UsEndpoint by (cases "au_queue c") (auto simp: us_acceptor_ok_def)
  have "au_queue (forceCloseInLoop (c\<lparr>au_queue := q\<rparr>)) = q"
    using forceClose_quiet [of "c\<lparr>au_queue := q\<rparr>"] by (simp add: quiet_def)
  then show ?thesis using assms(2) UsEndpoint c(1) q by (simp add: au_run_queued_def us_endpoint_def Let_def)
qed

lemma us_run_all:
  assumes "us_reach s"
  shows "\<exists>s'. us_run (replicate (length (us_loop s)) (UsRunLoop ok)) s = Some s' \<and> us_loop s' = [] \<and> us_alive s' = us_alive s"
  using assms
proof (induction "us_loop s" arbitrary: s)
  case (Cons t ts)
  obtain s' where s': "us_step (UsRunLoop ok) s = Some (Inr s')" "us_loop s' = ts" "us_alive s' = us_alive s"
    using us_run_head [OF Cons.prems Cons.hyps(2) [symmetric]] by blast
  from Cons.hyps(1) [of s'] s' us_next [OF Cons.prems s'(1)]
  obtain u where "us_run (replicate (length ts) (UsRunLoop ok)) s' = Some u" "us_loop u = []" "us_alive u = us_alive s" by auto
  with s'(1) show ?case by (simp add: Cons.hyps(2) [symmetric] del: us_step.simps)
qed auto

text \<open>An endpoint stays.\<close>

lemma bindStart_acceptor: "us_acceptor s \<noteq> None \<Longrightarrow> us_acceptor (bindStartInLoop ok s) \<noteq> None"
  by (auto simp: bindStartInLoop_def us_bind_def us_endpoint_def)

lemma us_step_acceptor:
  assumes "us_step l s = Some (Inr s')" "us_acceptor s \<noteq> None"
  shows "us_acceptor s' \<noteq> None"
proof (cases l)
  case (UsStartGo in_loop ok)
  with assms(1) obtain p where "s' = (let t = s\<lparr>us_starting := us_starting s - 1, us_started := us_started s + 1, us_pool := p\<rparr>
      in if in_loop then bindStartInLoop ok t else t\<lparr>us_loop := us_loop t @ [UsBindStart]\<rparr>)"
    by (auto simp: us_start_go_def Let_def ebind_Inr split: if_splits)
  then show ?thesis using assms(2) bindStart_acceptor by (cases in_loop) (simp_all add: Let_def)
next
  case (UsRunLoop ok)
  show ?thesis
  proof (cases "us_loop s")
    case (Cons t ts)
    show ?thesis
    proof (cases t)
      case UsBindStart
      then show ?thesis using assms UsRunLoop Cons bindStart_acceptor [of "s\<lparr>us_loop := ts\<rparr>" ok] by auto
    next
      case UsEndpoint
      then show ?thesis using assms UsRunLoop Cons
        by (auto simp: us_endpoint_def Let_def split: option.splits list.splits)
    qed
  qed (use assms UsRunLoop in simp)
next
  case (UsDestroy b)
  then show ?thesis using assms by (auto simp: us_destroy_def us_endpoint_def Let_def split: if_splits)
next
  case (UsReadable r peer)
  then show ?thesis using assms
    by (auto simp: us_readable_def newDatagram_def us_endpoint_def Let_def split: prod.splits)
next
  case (UsWritable ws)
  then obtain c c' where "us_acceptor s = Some c" "au_handleWrite (\<lambda>e p. []) ws c = Some (Inr c')" "s' = us_endpoint c c' s"
    using assms(1) by (auto split: option.splits) (metis Inl_Inr_False id_apply map_sum.simps old.sum.exhaust sum.inject(2))
  then show ?thesis by (simp add: us_endpoint_def)
qed (use assms in \<open>auto simp: us_setMessageCallback_def us_start_test_def us_endpoint_def split: if_splits\<close>)

lemma us_run_acceptor: "us_run ls s = Some s' \<Longrightarrow> us_acceptor s \<noteq> None \<Longrightarrow> us_acceptor s' \<noteq> None"
proof (induction ls arbitrary: s)
  case (Cons l ls)
  then obtain t where "us_step l s = Some (Inr t)" "us_run ls t = Some s'" by (auto split: option.splits sum.splits)
  then show ?case using Cons us_step_acceptor by blast
qed simp

section \<open>Properties\<close>

text \<open>C29. The UDP server over its endpoint, whatever threads call \<^verbatim>\<open>start\<close> and however the loop interleaves: the socket is
  bound at most once and the endpoint is active only when it is; the endpoint is sound in the sense of its own theory; the
  user gets datagrams the endpoint reported, in that order and none twice; no datagram reaches a server that is gone; and
  once the loop has run what was queued when the server was destroyed, its endpoint is closed, without a channel.\<close>

theorem udp_server_sound:
  assumes "us_reach s" "us_acceptor s = Some c"
  shows "us_binds s \<le> 1 \<and> (au_state c = kActive \<longrightarrow> us_bound s) \<and> udp_ok c
    \<and> subseq (us_log s) (messages (au_log c)) \<and> us_dead_calls s = 0
    \<and> (\<not> us_alive s \<longrightarrow> (\<exists>s' c'. us_run (replicate (length (us_loop s)) (UsRunLoop ok)) s = Some s' \<and>
          us_acceptor s' = Some c' \<and> au_state c' = kClosed \<and> \<not> au_known c'))"
proof -
  have i: "us_inv s" by (rule us_reach_inv [OF assms(1)])
  have "\<exists>s' c'. us_run (replicate (length (us_loop s)) (UsRunLoop ok)) s = Some s' \<and>
          us_acceptor s' = Some c' \<and> au_state c' = kClosed \<and> \<not> au_known c'" if "\<not> us_alive s"
  proof -
    from us_run_all [OF assms(1), of ok] obtain s' where
      s': "us_run (replicate (length (us_loop s)) (UsRunLoop ok)) s = Some s'" "us_loop s' = []" "us_alive s' = us_alive s" by blast
    have "us_acceptor s \<noteq> None" using assms(2) by simp
    from us_run_acceptor [OF s'(1) this]
    obtain c' where c': "us_acceptor s' = Some c'" by blast
    have "us_inv s'" using us_reach_inv us_run_reach [OF assms(1) s'(1)] by blast
    then have "us_acceptor_ok s' c'" using c' by (simp add: us_inv_def)
    then have "au_state c' = kClosed" "udp_ok c'" using s'(2,3) that by (auto simp: us_acceptor_ok_def)
    then show ?thesis using s'(1) c' by (auto simp: udp_ok_def closed_ok_def)
  qed
  with i assms(2) show ?thesis by (auto simp: us_inv_def us_acceptor_ok_def)
qed

text \<open>A server that is started, receives a datagram and is destroyed.\<close>

definition stopping_run :: "us_label list" where
  "stopping_run = [UsSetCallback True, UsStartTest, UsStartGo False True, UsRunLoop True,
     UsReadable (ReadOk ''hello'') 9, UsDestroy False]"

definition stopped_server :: udp_server where
  "stopped_server = the (us_run stopping_run (new_udp_server True 3 7 2))"

lemma stopping_run_ends:
  "\<exists>s. us_run stopping_run (new_udp_server True 3 7 2) = Some s \<and> us_log s = [(''hello'', 9)] \<and> \<not> us_alive s
     \<and> us_loop s = [UsEndpoint] \<and> us_acceptor s \<noteq> None"
  by (simp add: stopping_run_def new_udp_server_def au_Create_def au_setMessageCallback_def us_setMessageCallback_def
      us_start_test_def us_start_go_def tp_start_def new_thread_pool_def bindStartInLoop_def us_bind_def us_endpoint_def
      us_readable_def au_handleRead_def udp_recvFrom_def kMTU_def newDatagram_def us_destroy_def au_forceClose_def eval_udp)

lemma stopped_server_facts:
  "us_run stopping_run (new_udp_server True 3 7 2) = Some stopped_server" "us_log stopped_server = [(''hello'', 9)]"
  "\<not> us_alive stopped_server" "us_loop stopped_server = [UsEndpoint]" "us_acceptor stopped_server \<noteq> None"
  using stopping_run_ends by (auto simp: stopped_server_def)

theorem udp_server_sound_witness:
  "subseq [(''hello'', 9)] (messages (au_log (the (us_acceptor stopped_server)))) \<and> us_dead_calls stopped_server = 0 \<and> (\<exists>s' c'. us_run [UsRunLoop True] stopped_server = Some s' \<and>
     us_acceptor s' = Some c' \<and> au_state c' = kClosed)"
proof -
  obtain c where c: "us_acceptor stopped_server = Some c" using stopped_server_facts(5) by blast
  have "us_reach stopped_server" by (rule us_run_reach [OF us_begin stopped_server_facts(1)])
  from udp_server_sound [OF this c, of True] stopped_server_facts(2,3,4) c show ?thesis
    by (simp add: numeral_2_eq_2 del: us_run.simps) blast
qed

end
