(* ===== verification/TimeStamp.thy ===== *)
theory TimeStamp
  imports CppStrings "HOL-Library.Signed_Division"
begin

text \<open>
  \<^verbatim>\<open>TimeStamp\<close> (include/base/time_stamp.h, src/base/time_stamp.cpp) apart from the clock conversions, which are in
  TimerQueue: a point in time is its milliseconds since the epoch. The calendar is the system's and a parameter: \<open>date\<close>
  prints a second with \<^verbatim>\<open>localtime_r\<close> and \<^verbatim>\<open>strftime\<close>, \<open>parse\<close> reads one with \<^verbatim>\<open>strptime\<close> and \<^verbatim>\<open>mktime\<close>.
\<close>

section \<open>Arithmetic\<close>

definition addTime :: "int \<Rightarrow> int \<Rightarrow> int" where
  "addTime real_time_ms millseconds = real_time_ms + millseconds"

definition subTime :: "int \<Rightarrow> int \<Rightarrow> int" where
  "subTime real_time_ms millseconds = real_time_ms - millseconds"

definition seconds :: "int \<Rightarrow> int" where
  "seconds real_time_ms = real_time_ms sdiv 1000"

text \<open>\<^verbatim>\<open>NowMs\<close>, from the two fields \<^verbatim>\<open>gettimeofday\<close> fills in.\<close>

definition NowMs :: "int \<Rightarrow> int \<Rightarrow> int" where
  "NowMs tv_sec tv_usec = tv_sec * 1000 + tv_usec sdiv 1000"

section \<open>Text\<close>

definition ts_toString :: "(int \<Rightarrow> bytes) \<Rightarrow> int \<Rightarrow> bytes" where
  "ts_toString date real_time_ms =
     (let now = real_time_ms + 8 * 60 * 60;
          remain = now smod 1000;
          now = now sdiv 1000
      in date now @ ''.'' @ to_dec_int remain)"

definition ts_fromString :: "(bytes \<Rightarrow> int) \<Rightarrow> bytes \<Rightarrow> int" where
  "ts_fromString parse dataStr = parse dataStr * 1000"

definition Str2TimeStamp :: "(bytes \<Rightarrow> int) \<Rightarrow> bytes \<Rightarrow> int" where
  "Str2TimeStamp parse timeStr = parse timeStr"

definition TimeStamp2Str :: "(int \<Rightarrow> bytes) \<Rightarrow> int \<Rightarrow> bytes" where
  "TimeStamp2Str date timeStamp = date timeStamp"

lemma positive_division: "0 \<le> (a::int) \<Longrightarrow> a sdiv 1000 = a div 1000 \<and> a smod 1000 = a mod 1000"
  by (simp add: signed_divide_int_def signed_modulo_int_def sgn_if minus_div_mult_eq_mod)

section \<open>Properties\<close>

text \<open>Texts of time. With a calendar that reads back the seconds it prints, whole seconds survive
  \<^verbatim>\<open>TimeStamp2Str\<close> and \<^verbatim>\<open>Str2TimeStamp\<close>; but the text of a \<^verbatim>\<open>TimeStamp\<close> is not of that time: \<^verbatim>\<open>toString\<close> adds the
  seconds of eight hours to a number of milliseconds, so that reading the text back with \<^verbatim>\<open>fromString\<close> gives a
  time between 27.8 and 28.8 seconds late.\<close>

theorem time_text_is_late:
  assumes "\<forall>t rest. 0 \<le> t \<longrightarrow> parse (date t) = t \<and> parse (date t @ ''.'' @ rest) = t"
    and "0 \<le> ms" "0 \<le> t"
  shows "Str2TimeStamp parse (TimeStamp2Str date t) = t
    \<and> ts_fromString parse (ts_toString date ms) = addTime ms 28800 - addTime ms 28800 mod 1000
    \<and> 27800 < subTime (ts_fromString parse (ts_toString date ms)) ms
    \<and> subTime (ts_fromString parse (ts_toString date ms)) ms \<le> 28800"
proof -
  have d: "(ms + 28800) sdiv 1000 = (ms + 28800) div 1000" using positive_division [of "ms + 28800"] assms(2) by simp
  have "0 \<le> (ms + 28800) div 1000" using assms(2) by simp
  then have p: "parse (date ((ms + 28800) div 1000) @ ''.'' @ rest) = (ms + 28800) div 1000" for rest using assms(1) by blast
  have r: "ts_fromString parse (ts_toString date ms) = (ms + 28800) div 1000 * 1000"
    using p by (simp add: ts_fromString_def ts_toString_def Let_def d)
  have q: "(ms + 28800) div 1000 * 1000 = (ms + 28800) - (ms + 28800) mod 1000" by (rule minus_mod_eq_div_mult [symmetric])
  have b: "0 \<le> (ms + 28800) mod 1000" "(ms + 28800) mod 1000 < 1000" by simp_all
  have "parse (date t) = t" using assms(1,3) by blast
  then show ?thesis
    unfolding r q Str2TimeStamp_def TimeStamp2Str_def addTime_def subTime_def using b by linarith
qed

definition bar_date :: "int \<Rightarrow> bytes" where "bar_date t = replicate (nat t) (CHR ''x'')"
definition bar_parse :: "bytes \<Rightarrow> int" where "bar_parse s = int (length (takeWhile (\<lambda>c. c = CHR ''x'') s))"

theorem time_text_is_late_witness:
  "ts_fromString bar_parse (ts_toString bar_date 1000) = 29000 \<and> Str2TimeStamp bar_parse (TimeStamp2Str bar_date 3) = 3"
proof -
  have tw: "takeWhile (\<lambda>c. c = CHR ''x'') (replicate n (CHR ''x'') @ CHR ''.'' # rest) = replicate n (CHR ''x'')" for n rest
    by (induction n) auto
  have tw0: "takeWhile (\<lambda>c. c = CHR ''x'') (replicate n (CHR ''x'')) = replicate n (CHR ''x'')" for n
    by (induction n) auto
  have "\<forall>t rest. 0 \<le> t \<longrightarrow> bar_parse (bar_date t) = t \<and> bar_parse (bar_date t @ ''.'' @ rest) = t"
    by (simp add: bar_date_def bar_parse_def tw tw0)
  from time_text_is_late [OF this, of 1000 3] show ?thesis by (simp add: addTime_def)
qed

end
