(* ===== verification/LoopLife.thy ===== *)
theory LoopLife
  imports EventLoop TimerQueue Pollers TimeStamp
begin

text \<open>
  The life of an \<^verbatim>\<open>EventLoop\<close> around its \<^verbatim>\<open>loop()\<close> (src/net/event_loop.cpp, src/net/sample_timer_queue.cpp): what its
  constructor and destructor and those of its timer queue ask of the poller for the wake-up and the timer channel, what
  the clients of the loop may ask in between, the timer interface with its clock readings, and the functions a loop that
  quits leaves behind.
\<close>

section \<open>Construction and destruction\<close>

text \<open>The channels of the wake-up descriptor and of the timer descriptor. The queue is a member, made before the body of the
  constructor runs and destroyed after the body of the destructor, when the poller is still there. The descriptors are
  positive, as those of a process with an open standard input are.\<close>

record loop_parts =
  lo_wakeup :: nat
  lo_timer :: nat
  lo_wakeup_open :: bool
  lo_timer_open :: bool
  lo_current :: bool             \<comment> \<open>\<^verbatim>\<open>t_loopInThread\<close> of its thread is set\<close>
  lo_polls :: "poll_op list"

definition timer_queue_ctor :: "loop_parts \<Rightarrow> loop_parts" where
  "timer_queue_ctor l = l\<lparr>lo_timer_open := True, lo_polls := lo_polls l @ [Update EnableReading (lo_timer l)]\<rparr>"

definition timer_queue_dtor :: "loop_parts \<Rightarrow> loop_parts" where
  "timer_queue_dtor l =
     l\<lparr>lo_timer_open := False, lo_polls := lo_polls l @ [Update DisableAll (lo_timer l), Remove (lo_timer l)]\<rparr>"

text \<open>The constructor aborts the process in a thread that has a loop, which is None here.\<close>

definition event_loop_ctor :: "bool \<Rightarrow> nat \<Rightarrow> nat \<Rightarrow> loop_parts option" where
  "event_loop_ctor loop_in_thread w t =
     (let l = timer_queue_ctor \<lparr>lo_wakeup = w, lo_timer = t, lo_wakeup_open = True, lo_timer_open = False,
                lo_current = loop_in_thread, lo_polls = []\<rparr>
      in if lo_current l then None
         else let l = l\<lparr>lo_current := True\<rparr>
              in Some (l\<lparr>lo_polls := lo_polls l @ [Update EnableReading (lo_wakeup l)]\<rparr>))"

definition event_loop_dtor :: "loop_parts \<Rightarrow> loop_parts" where
  "event_loop_dtor l =
     (let l = l\<lparr>lo_polls := lo_polls l @ [Update DisableAll (lo_wakeup l), Remove (lo_wakeup l)]\<rparr>;
          l = l\<lparr>lo_wakeup_open := False\<rparr>;
          l = l\<lparr>lo_current := False\<rparr>
      in timer_queue_dtor l)"

text \<open>\<^verbatim>\<open>updateChannel\<close> and \<^verbatim>\<open>removeChannel\<close>, which clients' channels call, are forwarded to the poller.\<close>

definition loop_client_op :: "poll_op \<Rightarrow> loop_parts \<Rightarrow> loop_parts" where
  "loop_client_op op l = l\<lparr>lo_polls := lo_polls l @ [op]\<rparr>"

fun op_channel :: "poll_op \<Rightarrow> nat" where
  "op_channel (Update op c) = c"
| "op_channel (Remove c) = c"

lemma other_channel_frame:
  "op_channel op \<noteq> c \<Longrightarrow> ap_known (abs_step op a) c = ap_known a c \<and> ap_events (abs_step op a) c = ap_events a c"
  by (cases op) auto

lemma other_channels_frame:
  "c \<notin> op_channel ` set ops \<Longrightarrow>
     ap_known (fold abs_step ops a) c = ap_known a c \<and> ap_events (fold abs_step ops a) c = ap_events a c"
  by (induction ops arbitrary: a) (auto simp: other_channel_frame)

lemma fold_client_ops: "lo_polls (fold loop_client_op ops l) = lo_polls l @ ops"
  "lo_wakeup (fold loop_client_op ops l) = lo_wakeup l" "lo_timer (fold loop_client_op ops l) = lo_timer l"
  "lo_current (fold loop_client_op ops l) = lo_current l"
  by (induction ops arbitrary: l) (auto simp: loop_client_op_def)

text \<open>What clients may ask depends on their own channels only.\<close>

lemma removes_known_frame:
  assumes "\<forall>c\<in>op_channel ` set ops. ap_known a c = ap_known b c"
  shows "removes_known ops a = removes_known ops b"
  using assms
proof (induction ops arbitrary: a b)
  case (Cons op ops)
  have "\<forall>c\<in>op_channel ` set ops. ap_known (abs_step op a) c = ap_known (abs_step op b) c"
    using Cons.prems by (cases op) auto
  from Cons.IH [OF this] show ?case using Cons.prems by (cases op) auto
qed simp

lemma loop_life_ops:
  assumes "w \<noteq> t" "w \<notin> op_channel ` set ops" "t \<notin> op_channel ` set ops" "removes_known ops no_polls"
    and start: "start = [Update EnableReading t, Update EnableReading w]"
    and stop: "stop = [Update DisableAll w, Remove w, Update DisableAll t, Remove t]"
  shows "removes_known (start @ ops @ stop) no_polls"
    and "c \<in> {w, t} \<Longrightarrow> ap_known (fold abs_step (start @ ops) no_polls) c
           \<and> ap_events (fold abs_step (start @ ops) no_polls) c = kReadEvent"
    and "c \<notin> {w, t} \<Longrightarrow> ap_known (fold abs_step (start @ ops @ stop) no_polls) c = ap_known (fold abs_step (start @ ops) no_polls) c
           \<and> ap_events (fold abs_step (start @ ops @ stop) no_polls) c = ap_events (fold abs_step (start @ ops) no_polls) c"
    and "c \<in> {w, t} \<Longrightarrow> \<not> ap_known (fold abs_step (start @ ops @ stop) no_polls) c"
proof -
  let ?a = "fold abs_step start no_polls" and ?b = "fold abs_step (start @ ops) no_polls"
  have a: "ap_known ?a c = (c \<in> {w, t} \<or> ap_known no_polls c)"
    "ap_events ?a c = (if c \<in> {w, t} then kReadEvent else ap_events no_polls c)" for c
    by (auto simp: start no_polls_def)
  have own: "ap_known ?b c \<and> ap_events ?b c = kReadEvent" if "c \<in> {w, t}" for c
  proof -
    have "c \<notin> op_channel ` set ops" using that assms(2,3) by blast
    from other_channels_frame [OF this, of ?a] show ?thesis unfolding fold_append o_apply using a [of c] that by metis
  qed
  have known: "removes_known ops ?a"
  proof -
    have "\<forall>c\<in>op_channel ` set ops. ap_known ?a c = ap_known no_polls c"
    proof
      fix c assume "c \<in> op_channel ` set ops"
      then have "c \<notin> {w, t}" using assms(2,3) by blast
      then show "ap_known ?a c = ap_known no_polls c" using a(1) [of c] by simp
    qed
    from removes_known_frame [OF this] show ?thesis using assms(4) by simp
  qed
  show "removes_known (start @ ops @ stop) no_polls"
    using known own by (simp add: removes_known_append start stop)
  show "c \<in> {w, t} \<Longrightarrow> ap_known ?b c \<and> ap_events ?b c = kReadEvent" by (rule own)
  show "c \<notin> {w, t} \<Longrightarrow> ap_known (fold abs_step (start @ ops @ stop) no_polls) c = ap_known (fold abs_step (start @ ops) no_polls) c
           \<and> ap_events (fold abs_step (start @ ops @ stop) no_polls) c = ap_events (fold abs_step (start @ ops) no_polls) c"
    by (simp add: stop)
  show "c \<in> {w, t} \<Longrightarrow> \<not> ap_known (fold abs_step (start @ ops @ stop) no_polls) c"
    by (auto simp: stop)
qed

text \<open>C23. Around its \<^verbatim>\<open>loop()\<close> an event loop serves its two descriptors and leaves nothing behind: in a thread
  without a loop the constructor succeeds; while it lives, and whatever its clients ask for their own channels, the
  wake-up and the timer channel are watched for reading by either poller; the destructor takes both out of the poller
  before the poller goes (no operation on the way fails), closes both descriptors, leaves the channels of the clients as
  they were, and clears the mark of the thread, so that the next loop can be made there.\<close>

theorem loop_watched_for_life:
  assumes "fresh_channels cs" "\<forall>c. ch_events (cs c) = 0"
    and "w \<noteq> t" "w \<notin> op_channel ` set ops" "t \<notin> op_channel ` set ops" "removes_known ops no_polls"
  shows "\<exists>l p q. event_loop_ctor False w t = Some l
    \<and> ep_run (lo_polls (fold loop_client_op ops l)) cs = Inr p \<and> pp_run (lo_polls (fold loop_client_op ops l)) cs = Inr q
    \<and> ep_watched p w = ucast kReadEvent \<and> pp_watched q w = ucast kReadEvent
    \<and> ep_watched p t = ucast kReadEvent \<and> pp_watched q t = ucast kReadEvent
    \<and> event_loop_ctor (lo_current (fold loop_client_op ops l)) w' t' = None
    \<and> (\<exists>l' p' q'. l' = event_loop_dtor (fold loop_client_op ops l) \<and> \<not> lo_wakeup_open l' \<and> \<not> lo_timer_open l'
        \<and> \<not> lo_current l' \<and> ep_run (lo_polls l') cs = Inr p' \<and> pp_run (lo_polls l') cs = Inr q'
        \<and> \<not> ep_known p' w \<and> \<not> ep_known p' t \<and> \<not> pp_known q' w \<and> \<not> pp_known q' t
        \<and> (\<forall>c. c \<notin> {w, t} \<longrightarrow> ep_watched p' c = ep_watched p c \<and> pp_watched q' c = pp_watched q c))"
proof -
  obtain start where start: "start = [Update EnableReading t, Update EnableReading w]" by blast
  obtain stop where stop: "stop = [Update DisableAll w, Remove w, Update DisableAll t, Remove t]" by blast
  note life = loop_life_ops [OF assms(3-6) start stop]
  let ?l = "\<lparr>lo_wakeup = w, lo_timer = t, lo_wakeup_open = True, lo_timer_open = True, lo_current = True, lo_polls = start\<rparr>"
  let ?m = "fold loop_client_op ops ?l"
  have l: "event_loop_ctor False w t = Some ?l" by (simp add: event_loop_ctor_def timer_queue_ctor_def start Let_def)
  have m: "lo_polls ?m = start @ ops" "lo_current ?m" by (simp_all add: fold_client_ops)
  have d: "lo_polls (event_loop_dtor ?m) = start @ ops @ stop"
    by (simp add: event_loop_dtor_def timer_queue_dtor_def fold_client_ops stop Let_def)
  have e: "\<not> lo_wakeup_open (event_loop_dtor ?m)" "\<not> lo_timer_open (event_loop_dtor ?m)" "\<not> lo_current (event_loop_dtor ?m)"
    by (simp_all add: event_loop_dtor_def timer_queue_dtor_def Let_def)
  have k: "removes_known (start @ ops) no_polls"
    using life(1) removes_known_append [of "start @ ops" stop no_polls] by simp
  obtain p q where p: "ep_run (start @ ops) cs = Inr p" "pp_run (start @ ops) cs = Inr q"
      "ep_watched p = ap_watched (fold abs_step (start @ ops) no_polls)"
      "pp_watched q = ap_watched (fold abs_step (start @ ops) no_polls)"
    using replay [OF assms(1) _ k] assms(2) by blast
  obtain p' q' where p': "ep_run (start @ ops @ stop) cs = Inr p'" "pp_run (start @ ops @ stop) cs = Inr q'"
      "ep_known p' = ap_known (fold abs_step (start @ ops @ stop) no_polls)"
      "pp_known q' = ap_known (fold abs_step (start @ ops @ stop) no_polls)"
      "ep_watched p' = ap_watched (fold abs_step (start @ ops @ stop) no_polls)"
      "pp_watched q' = ap_watched (fold abs_step (start @ ops @ stop) no_polls)"
    using replay [OF assms(1) _ life(1)] assms(2) by blast
  have w: "ap_watched (fold abs_step (start @ ops) no_polls) c = ucast kReadEvent" if "c \<in> {w, t}" for c
    using life(2) [OF that] by (simp add: ap_watched_def)
  have same: "ap_watched (fold abs_step (start @ ops @ stop) no_polls) c = ap_watched (fold abs_step (start @ ops) no_polls) c"
    if "c \<notin> {w, t}" for c
    using life(3) [OF that] unfolding ap_watched_def by simp
  have gone: "\<not> ap_known (fold abs_step (start @ ops @ stop) no_polls) c" if "c \<in> {w, t}" for c
    by (rule life(4) [OF that])
  have twice: "event_loop_ctor (lo_current ?m) w' t' = None"
    using m(2) by (simp add: event_loop_ctor_def timer_queue_ctor_def Let_def)
  have kept: "ep_watched p' c = ep_watched p c \<and> pp_watched q' c = pp_watched q c" if "c \<notin> {w, t}" for c
    unfolding p(3,4) p'(5,6) same [OF that] by simp
  have gone': "\<not> ep_known p' c \<and> \<not> pp_known q' c" if "c \<in> {w, t}" for c
    unfolding p'(3,4) using gone [OF that] by simp
  have watched: "ep_watched p c = ucast kReadEvent \<and> pp_watched q c = ucast kReadEvent" if "c \<in> {w, t}" for c
    unfolding p(3,4) using w [OF that] by simp
  have inner: "\<exists>l' p' q'. l' = event_loop_dtor ?m \<and> \<not> lo_wakeup_open l' \<and> \<not> lo_timer_open l'
        \<and> \<not> lo_current l' \<and> ep_run (lo_polls l') cs = Inr p' \<and> pp_run (lo_polls l') cs = Inr q'
        \<and> \<not> ep_known p' w \<and> \<not> ep_known p' t \<and> \<not> pp_known q' w \<and> \<not> pp_known q' t
        \<and> (\<forall>c. c \<notin> {w, t} \<longrightarrow> ep_watched p' c = ep_watched p c \<and> pp_watched q' c = pp_watched q c)"
    using e p'(1,2) d gone' kept by (intro exI [of _ "event_loop_dtor ?m"] exI [of _ p'] exI [of _ q']) auto
  have outer: "ep_run (lo_polls ?m) cs = Inr p" "pp_run (lo_polls ?m) cs = Inr q" using p(1,2) m(1) by simp_all
  from l outer watched [of w] watched [of t] twice inner show ?thesis by blast
qed

theorem loop_watched_for_life_witness:
  "\<exists>l p. event_loop_ctor False 1 2 = Some l
    \<and> ep_run (lo_polls (fold loop_client_op [Update EnableWriting 3, Remove 3, Update EnableReading 4] l)) test_channels = Inr p
    \<and> ep_watched p 1 = ucast kReadEvent \<and> ep_watched p 2 = ucast kReadEvent"
proof -
  let ?ops = "[Update EnableWriting 3, Remove 3, Update EnableReading 4]"
  have "\<forall>c. ch_events (test_channels c) = 0" by (simp add: test_channels_def new_channel_def)
  moreover have "(1::nat) \<noteq> 2" "(1::nat) \<notin> op_channel ` set ?ops" "(2::nat) \<notin> op_channel ` set ?ops" "removes_known ?ops no_polls"
    by (simp_all add: no_polls_def)
  ultimately show ?thesis
    using loop_watched_for_life [OF test_channels_fresh, of 1 2 ?ops] by meson
qed

section \<open>Timers of the loop\<close>

text \<open>\<^verbatim>\<open>runAt\<close>, \<^verbatim>\<open>runAfter\<close> and \<^verbatim>\<open>runEvery\<close> in the loop thread. The point in time is on the real-time clock and is
  converted to the monotonic one when the timer is made, so two or three readings are involved: \<open>now0\<close> is
  \<^verbatim>\<open>TimeStamp::Now\<close>, \<open>mono_ms\<close> and \<open>now\<close> are those of \<^verbatim>\<open>toMonotonic\<close>.\<close>

definition runAt :: "int \<Rightarrow> int \<Rightarrow> int \<Rightarrow> tq_op list \<Rightarrow> timer_queue \<Rightarrow> timer_queue" where
  "runAt mono_ms now time cb q = addTimer cb (toMonotonic mono_ms now time) 0 q"

definition runAfter :: "int \<Rightarrow> int \<Rightarrow> int \<Rightarrow> int \<Rightarrow> tq_op list \<Rightarrow> timer_queue \<Rightarrow> timer_queue" where
  "runAfter now0 mono_ms now delay cb q = addTimer cb (toMonotonic mono_ms now (addTime now0 delay)) 0 q"

definition runEvery :: "int \<Rightarrow> int \<Rightarrow> int \<Rightarrow> int \<Rightarrow> tq_op list \<Rightarrow> timer_queue \<Rightarrow> timer_queue" where
  "runEvery now0 mono_ms now interval cb q = addTimer cb (toMonotonic mono_ms now (addTime now0 interval)) interval q"

text \<open>The deadline is the delay from the call on, on the monotonic clock, if the real-time clock ran evenly with it in
  between; a step of the real-time clock between the two readings moves the deadline by as much.\<close>

lemma deadline_of_delay:
  "toMonotonic mono_ms now (addTime now0 delay) = called + delay - ((now - now0) - (mono_ms - called))"
  by (simp add: toMonotonic_def addTime_def)

lemma addTimer_key:
  "TimerKey when (next_sequence q) \<in> set (tq_timers (addTimer cb when interval q))"
  "next_sequence q \<in> set (tq_active (addTimer cb when interval q))"
  by (simp_all add: addTimer_def new_timer_def addTimerInLoop_def tq_insert_def resetTimerFd_def Let_def timer_of_def
      mk_timer_def add_key_def add_id_def set_insort_key)

text \<open>So a timer started with \<^verbatim>\<open>runAfter\<close> or \<^verbatim>\<open>runEvery\<close> waits in the queue under its delay from the call, and the timer
  descriptor is armed for a time not later than that.\<close>

lemma runAfter_waits:
  assumes "tq_reach q" "now - now0 = mono_ms - called"
    and "q' = runAfter now0 mono_ms now delay cb q \<or> q' = runEvery now0 mono_ms now delay cb q" "no_wrap q'"
  shows "tq_reach q' \<and> TimerKey (called + delay) (next_sequence q) \<in> set (tq_timers q')
    \<and> (\<exists>a. tq_armed q' = Some a \<and> a \<le> called + delay)"
proof -
  have d: "toMonotonic mono_ms now (addTime now0 delay) = called + delay"
    unfolding deadline_of_delay [where called = called] using assms(2) by simp
  obtain interval where q': "q' = addTimer cb (called + delay) interval q"
    using assms(3) unfolding runAfter_def runEvery_def d by blast
  have r: "tq_reach q'" unfolding q' by (rule tq_reach.add [OF assms(1)])
  have k: "TimerKey (called + delay) (next_sequence q) \<in> set (tq_timers q')" unfolding q' by (rule addTimer_key)
  have i: "tq_inv q'" "armed_ok (\<lambda>t. True) q'" using tq_reach_inv [OF r assms(4)] by simp_all
  have "hd (tq_timers q') \<le> TimerKey (called + delay) (next_sequence q)"
    using i(1) k by (cases "tq_timers q'") (auto simp: tq_inv_def)
  from tk_time_mono [OF this] have "tk_time (hd (tq_timers q')) \<le> called + delay" by simp
  moreover have "tq_timers q' \<noteq> []" using k by auto
  ultimately show ?thesis using r k i(2) unfolding armed_ok_def by (meson order_trans)
qed

section \<open>What a loop that ends leaves behind\<close>

text \<open>The functions queued up to a moment at which the loop is before its swap are entered before it ends.\<close>

definition due :: "nat list \<Rightarrow> event_loop \<Rightarrow> bool" where
  "due xs s \<longleftrightarrow> prefix xs (lp_queued s) \<and>
     (case lp_pc s of InPoll \<Rightarrow> True | InHandlers \<Rightarrow> True | AtSwap \<Rightarrow> True
      | InPending \<Rightarrow> prefix xs (lp_started s @ map task_id (lp_batch s))
      | Before \<Rightarrow> False | AtTest \<Rightarrow> prefix xs (lp_started s) | Gone \<Rightarrow> prefix xs (lp_started s))"

lemma due_step:
  assumes d: "due xs s" "ctl_inv s" "hist_inv s" "loop_step l s = Some s'"
  shows "due xs s'"
proof (cases "l = DoAct \<or> (\<exists>t. l = OtherPush t)")
  case True
  have "extends s s'"
  proof (cases "l = DoAct")
    case True
    then obtain a as where a: "s' = do_act a (s\<lparr>lp_work := as\<rparr>)" using act_step d(4) by metis
    show ?thesis unfolding a by (rule do_act_extends)
  next
    case False
    with True obtain t where "l = OtherPush t" by blast
    then have "s' = (push_pending t s)\<lparr>lp_owed := lp_owed s + 1\<rparr>" using d(4) by simp
    then show ?thesis by (simp add: extends_def push_pending_def)
  qed
  then show ?thesis using d(1) unfolding extends_def due_def by (metis prefix_order.trans)
next
  case False
  have h: "lp_queued s = lp_started s @ map task_id (lp_batch s) @ map task_id (lp_pending s)"
    using d(3) by (simp add: hist_inv_def)
  have b: "lp_batch s \<noteq> [] \<longrightarrow> lp_pc s = InPending" using d(2) by (simp add: ctl_inv_def)
  from False d(1,4) h b show ?thesis
    by (cases l; (auto simp: due_def loop_defs split: if_splits list.splits loop_pc.splits)[1])
qed

lemma due_run:
  assumes "loop_run ls s = Some s'" "due xs s" "loop_inv s"
  shows "due xs s'"
  using assms
proof (induction ls arbitrary: s)
  case (Cons l ls)
  then obtain t where t: "loop_step l s = Some t" "loop_run ls t = Some s'" by (auto split: option.splits)
  have "due xs t" using due_step Cons.prems t(1) unfolding loop_inv_def by blast
  moreover have "loop_inv t" by (rule loop_inv_step [OF Cons.prems(3) t(1)])
  ultimately show ?case by (rule Cons.IH [OF t(2)])
qed simp

lemma gone_for_good:
  assumes "loop_run ls s = Some s'" "lp_pc s = Gone" "ctl_inv s"
  shows "lp_pc s' = Gone \<and> lp_started s' = lp_started s \<and> lp_batch s = []"
  using assms
proof (induction ls arbitrary: s)
  case Nil
  then show ?case by (auto simp: ctl_inv_def)
next
  case (Cons l ls)
  then obtain t where t: "loop_step l s = Some t" "loop_run ls t = Some s'" by (auto split: option.splits)
  have "lp_pc t = Gone \<and> lp_started t = lp_started s"
    using t(1) Cons.prems(2) by (cases l) (auto simp: loop_defs split: if_splits)
  moreover have "lp_batch s = []" using Cons.prems(2,3) by (auto simp: ctl_inv_def)
  ultimately show ?case using Cons.IH [OF t(2)] ctl_inv_step [OF Cons.prems(3) t(1)] by simp
qed

text \<open>C22. What a loop does before it ends, and what it does not: every function queued while the loop is in \<^verbatim>\<open>poll\<close>, in
  the handlers or before its swap is entered before \<^verbatim>\<open>loop()\<close> returns, even when \<^verbatim>\<open>quit\<close> comes at the same time; the
  functions queued later, which are exactly those still pending when \<^verbatim>\<open>loop()\<close> has returned, are never entered, whatever
  the other threads still do.\<close>

theorem served_before_the_end:
  assumes "loop_reach s" "lp_pc s = InPoll \<or> lp_pc s = InHandlers \<or> lp_pc s = AtSwap"
    and "loop_run ls s = Some e" "lp_pc e = Gone"
  shows "prefix (lp_queued s) (lp_started e) \<and> lp_queued e = lp_started e @ map task_id (lp_pending e)
    \<and> (\<forall>ls' e'. loop_run ls' e = Some e' \<longrightarrow> lp_pc e' = Gone \<and> lp_started e' = lp_started e)"
proof -
  have inv: "loop_inv s" by (rule loop_reach_inv [OF assms(1)])
  have "due (lp_queued s) s" using assms(2) by (auto simp: due_def)
  then have "due (lp_queued s) e" by (rule due_run [OF assms(3) _ inv])
  then have p: "prefix (lp_queued s) (lp_started e)" using assms(4) by (simp add: due_def)
  have "loop_inv e" by (rule loop_reach_inv [OF loop_run_reach [OF assms(1,3)]])
  then have e: "ctl_inv e" "hist_inv e" by (simp_all add: loop_inv_def)
  have "lp_batch e = []" using gone_for_good [of "[]" e e] assms(4) e(1) by simp
  then show ?thesis using p e gone_for_good assms(4) by (auto simp: hist_inv_def)
qed

definition quit_run :: "loop_label list" where
  "quit_run = [OtherQuit, OtherWake, PollWake [], HandleWake, HandlersDone, Swap, NextFunc, DoAct, PendingDone,
     OtherPush (Task 9 []), Test, OtherWake]"

theorem served_before_the_end_witness:
  "\<exists>e. loop_run quit_run asleep_with_work = Some e \<and> prefix [7] (lp_started e) \<and> lp_queued e = [7, 8, 9]
    \<and> map task_id (lp_pending e) = [8, 9] \<and> lp_started e = [7]"
proof -
  have "map_option (\<lambda>e. (lp_pc e, lp_queued e, lp_started e, map task_id (lp_pending e))) (loop_run quit_run asleep_with_work)
      = Some (Gone, [7, 8, 9], [7], [8, 9])"
    by code_simp
  then obtain e where e: "loop_run quit_run asleep_with_work = Some e" "lp_pc e = Gone" "lp_queued e = [7, 8, 9]"
      "lp_started e = [7]" "map task_id (lp_pending e) = [8, 9]"
    by auto
  have "lp_pc asleep_with_work = InPoll \<or> lp_pc asleep_with_work = InHandlers \<or> lp_pc asleep_with_work = AtSwap"
    using asleep_facts(2) by simp
  from served_before_the_end [OF asleep_facts(1) this e(1,2)] e asleep_facts(7) show ?thesis
    by (intro exI [of _ e]) simp
qed

end
