(* ===== verification/NetData.thy ===== *)
theory NetData
  imports Prelude
begin

unbundle bit_operations_syntax

text \<open>
  The converters of binary network data: \<^verbatim>\<open>SwapEndian\<close> (include/net/endian.h), \<^verbatim>\<open>NetDataType\<close>, the
  hexadecimal strings, \<^verbatim>\<open>ValueToBytes\<close>, \<^verbatim>\<open>BytesToValue\<close> and the two converter classes
  (include/net/net_data_converter.h, src/net/net_data_converter.cpp). A value of a type \<open>T\<close> is a word of
  \<^verbatim>\<open>sizeof(T)\<close> bytes, its representation the list of its bytes on a little-endian host.
\<close>

section \<open>The type tags\<close>

datatype net_data_type = UNDEF | INT8 | UINT8 | INT16 | UINT16 | INT32 | UINT32 | INT64 | UINT64 | FLOAT | DOUBLE | STR_T

fun NetDataType_toStrs :: "net_data_type \<Rightarrow> bytes" where
  "NetDataType_toStrs INT8 = ''INT8''"
| "NetDataType_toStrs UINT8 = ''UINT8''"
| "NetDataType_toStrs INT16 = ''INT16''"
| "NetDataType_toStrs UINT16 = ''UINT16''"
| "NetDataType_toStrs INT32 = ''INT32''"
| "NetDataType_toStrs UINT32 = ''UINT32''"
| "NetDataType_toStrs INT64 = ''INT64''"
| "NetDataType_toStrs UINT64 = ''UINT64''"
| "NetDataType_toStrs FLOAT = ''FLOAT''"
| "NetDataType_toStrs DOUBLE = ''DOUBLE''"
| "NetDataType_toStrs STR_T = ''STR''"
| "NetDataType_toStrs UNDEF = ''UNDEF''"

definition NetDataType_FromString :: "bytes \<Rightarrow> net_data_type" where
  "NetDataType_FromString s =
     (if s = ''INT8'' then INT8 else if s = ''UINT8'' then UINT8
      else if s = ''INT16'' then INT16 else if s = ''UINT16'' then UINT16
      else if s = ''INT32'' then INT32 else if s = ''UINT32'' then UINT32
      else if s = ''INT64'' then INT64 else if s = ''UINT64'' then UINT64
      else if s = ''FLOAT'' then FLOAT else if s = ''DOUBLE'' then DOUBLE
      else if s = ''STR'' then STR_T else UNDEF)"

text \<open>\<^verbatim>\<open>getTypeSize\<close> compares the printed name; a string has no size of its own.\<close>

definition getTypeSize :: "net_data_type \<Rightarrow> nat" where
  "getTypeSize t =
     (let s = NetDataType_toStrs t in
      if s = ''INT8'' \<or> s = ''UINT8'' then 1 else if s = ''INT16'' \<or> s = ''UINT16'' then 2
      else if s = ''INT32'' \<or> s = ''UINT32'' then 4 else if s = ''INT64'' \<or> s = ''UINT64'' then 8
      else if s = ''FLOAT'' then 4 else if s = ''DOUBLE'' then 8 else 0)"

section \<open>Hexadecimal strings\<close>

definition KIT_HEX_PREFIX :: bytes where "KIT_HEX_PREFIX = ''H''"

text \<open>The code of a character, and the character of a code.\<close>

definition code :: "char \<Rightarrow> uint8" where "code c = of_char c"

definition chr8 :: "uint8 \<Rightarrow> char" where "chr8 v = char_of (unat v)"

definition HexCharToValue :: "char \<Rightarrow> cpp_error + uint8" where
  "HexCharToValue c =
     (if code CHR ''0'' \<le> code c \<and> code c \<le> code CHR ''9'' then Inr (code c - code CHR ''0'')
      else if code CHR ''A'' \<le> code c \<and> code c \<le> code CHR ''F'' then Inr (code c - code CHR ''A'' + 10)
      else if code CHR ''a'' \<le> code c \<and> code c \<le> code CHR ''f'' then Inr (code c - code CHR ''a'' + 10)
      else Inl (InvalidArgument ''Invalid hex character''))"

definition ValueToHexChar :: "uint8 \<Rightarrow> char" where
  "ValueToHexChar v =
     (if v \<le> 9 then chr8 (code CHR ''0'' + v)
      else if 10 \<le> v \<and> v \<le> 15 then chr8 (code CHR ''A'' + (v - 10))
      else CHR ''?'')"

definition CheckHexString :: "bytes \<Rightarrow> nat \<Rightarrow> bool" where
  "CheckHexString hex_str byte_len \<longleftrightarrow> length hex_str = byte_len * 2"

text \<open>The loop over the pairs of digits; behind the last character a \<^verbatim>\<open>std::string\<close> reads as the null character.\<close>

definition hex_byte :: "char \<Rightarrow> char \<Rightarrow> cpp_error + uint8" where
  "hex_byte a b =
     ebind (HexCharToValue a) (\<lambda>hi. ebind (HexCharToValue b) (\<lambda>lo. Inr (push_bit 4 (0 OR hi) OR lo)))"

fun hex_pairs :: "bytes \<Rightarrow> cpp_error + uint8 list" where
  "hex_pairs [] = Inr []"
| "hex_pairs [a] = ebind (hex_byte a (CHR 0x00)) (\<lambda>v. Inr [v])"
| "hex_pairs (a # b # rest) = ebind (hex_byte a b) (\<lambda>v. ebind (hex_pairs rest) (\<lambda>vs. Inr (v # vs)))"

definition HexStringToBytes :: "bytes \<Rightarrow> cpp_error + uint8 list" where
  "HexStringToBytes hex_str =
     (if hex_str = [] \<or> hd hex_str \<noteq> hd KIT_HEX_PREFIX
      then Inl (InvalidArgument ''start not H, Hex String is invalid!'')
      else hex_pairs (drop (length KIT_HEX_PREFIX) hex_str))"

text \<open>The last separator is cut off; \<^verbatim>\<open>substr\<close> takes all there is when the length wraps around.\<close>

definition hex_digits :: "uint8 \<Rightarrow> bytes" where
  "hex_digits b = [ValueToHexChar (drop_bit 4 b AND 0x0F), ValueToHexChar (b AND 0x0F)]"

definition BytesToHexString :: "uint8 list \<Rightarrow> bytes \<Rightarrow> bytes" where
  "BytesToHexString bs pre =
     (let hex_str = ''H'' @ concat (map (\<lambda>b. hex_digits b @ pre) bs);
          n = of_nat (length hex_str) - of_nat (length pre) :: uint64
      in take (unat n) hex_str)"

section \<open>Values and bytes\<close>

definition size_of :: "'a::len word itself \<Rightarrow> nat" where
  "size_of t = LENGTH('a) div 8"

text \<open>The bytes of a value in memory, and the value of bytes in memory.\<close>

definition mem_bytes :: "'a::len word \<Rightarrow> uint8 list" where
  "mem_bytes w = map (\<lambda>i. ucast (drop_bit (8 * i) w)) [0..<size_of TYPE('a word)]"

definition mem_value :: "uint8 list \<Rightarrow> 'a::len word" where
  "mem_value bs = foldr (\<lambda>b acc. push_bit 8 acc OR ucast b) bs 0"

definition SwapEndian :: "'a::len word \<Rightarrow> 'a word" where
  "SwapEndian w =
     (let src = mem_bytes w; n = size_of TYPE('a word)
      in mem_value (map (\<lambda>i. src ! (n - 1 - i)) [0..<n]))"

definition SwapToBigEndian :: "'a::len word \<Rightarrow> 'a word" where "SwapToBigEndian w = SwapEndian w"
definition SwapToLittleEndian :: "'a::len word \<Rightarrow> 'a word" where "SwapToLittleEndian w = w"

definition ValueToBytes :: "'a::len word \<Rightarrow> bool \<Rightarrow> uint8 list" where
  "ValueToBytes w is_endian = (let res = mem_bytes w in if is_endian then rev res else res)"

text \<open>The loop writes the union's bytes one by one; reads behind the vector and writes behind the union are undefined.\<close>

definition BytesToValue :: "uint8 list \<Rightarrow> bool \<Rightarrow> cpp_error + 'a::len word" where
  "BytesToValue bs is_endian =
     (let n = size_of TYPE('a word)
      in if length bs > n then Inl OutOfBounds
         else if is_endian then
           (if length bs < n \<and> bs \<noteq> [] then Inl OutOfBounds
            else Inr (mem_value (map (\<lambda>i. bs ! (n - i - 1)) [0..<length bs])))
         else Inr (mem_value (bs @ replicate (n - length bs) 0)))"

definition HexToData :: "bytes \<Rightarrow> bool \<Rightarrow> cpp_error + 'a::len word" where
  "HexToData hex_str is_endian =
     ebind (HexStringToBytes hex_str)
       (\<lambda>bs. if length bs \<noteq> size_of TYPE('a word)
             then Inl (InvalidArgument ''Hex string length doesn't match byte length'')
             else BytesToValue bs is_endian)"

definition DataToHex :: "'a::len word \<Rightarrow> bool \<Rightarrow> bytes" where
  "DataToHex val is_endian =
     (let bs = ValueToBytes val False; bs = (if is_endian then rev bs else bs)
      in BytesToHexString bs [])"

text \<open>The specialisations for strings.\<close>

definition HexToString :: "bytes \<Rightarrow> cpp_error + bytes" where
  "HexToString hex_str = ebind (HexStringToBytes hex_str) (\<lambda>bs. Inr (map chr8 bs))"

definition StringToHex :: "bytes \<Rightarrow> bytes" where
  "StringToHex s = BytesToHexString (map code s) []"

section \<open>Digits\<close>

lemma digits_eval:
  "map (\<lambda>v. HexCharToValue (ValueToHexChar v)) [0, 1, 2, 3, 4, 5, 6, 7, 8, 9, 10, 11, 12, 13, 14, 15]
     = map Inr [0, 1, 2, 3, 4, 5, 6, 7, 8, 9, 10, 11, 12, 13, 14, 15]"
  by code_simp

lemma small_word_cases:
  fixes v :: uint8
  assumes "v \<le> 15"
  shows "v \<in> set [0, 1, 2, 3, 4, 5, 6, 7, 8, 9, 10, 11, 12, 13, 14, 15]"
proof -
  have l: "map word_of_nat [0..<16] = [0, 1, 2, 3, 4, 5, 6, 7, 8, 9, 10, 11, 12, 13, 14, 15 :: uint8]" by code_simp
  have "unat v \<in> set [0..<16]" using assms by (simp add: word_le_nat_alt)
  then have "word_of_nat (unat v) \<in> set (map word_of_nat [0..<16] :: uint8 list)" by (metis image_eqI list.set_map)
  then show ?thesis unfolding l by simp
qed

lemma nibble_le: "(b :: uint8) AND 0x0F \<le> 15"
  by (simp add: word_and_le1)

lemma digit_value: "v \<le> 15 \<Longrightarrow> HexCharToValue (ValueToHexChar v) = Inr v"
  using small_word_cases [of v] digits_eval by auto

lemma nibbles: "push_bit 4 (drop_bit 4 b AND 0x0F) OR (b AND 0x0F) = (b :: uint8)"
proof -
  have m: "(0x0F :: uint8) = mask 4" by (simp add: mask_eq_exp_minus_1)
  show ?thesis unfolding m take_bit_eq_mask [symmetric] by (rule bit_word_eqI) (auto simp: bit_simps)
qed

lemma hex_byte_digits: "hex_byte (ValueToHexChar (drop_bit 4 b AND 0x0F)) (ValueToHexChar (b AND 0x0F)) = Inr b"
  using nibbles [of b] by (simp add: hex_byte_def digit_value nibble_le ebind_def del: push_bit_and)

text \<open>A digit, read and printed again, is its upper-case form.\<close>

definition upper_digit :: "char \<Rightarrow> char" where
  "upper_digit c = (if c \<in> {CHR ''a'', CHR ''b'', CHR ''c'', CHR ''d'', CHR ''e'', CHR ''f''} then char_of (of_char c - 32 :: nat) else c)"

lemma chars_eval:
  "list_all (\<lambda>k. case HexCharToValue (char_of k) of Inl e \<Rightarrow> True
      | Inr v \<Rightarrow> v \<le> 15 \<and> ValueToHexChar v = upper_digit (char_of k))
    [48, 49, 50, 51, 52, 53, 54, 55, 56, 57, 65, 66, 67, 68, 69, 70, 97, 98, 99, 100, 101, 102 :: nat]"
  by code_simp

lemma unat_code: "unat (code c) = of_char c"
proof -
  have "code c = word_of_nat (of_char c)" by (simp add: code_def of_nat_of_char)
  moreover have "(of_char c :: nat) < 256" by simp
  ultimately show ?thesis by (simp add: unat_of_nat_small)
qed

lemma value_digit:
  assumes "HexCharToValue c = Inr v"
  shows "v \<le> 15 \<and> ValueToHexChar v = upper_digit c"
proof -
  define k where "k = (of_char c :: nat)"
  have "48 \<le> k \<and> k \<le> 57 \<or> 65 \<le> k \<and> k \<le> 70 \<or> 97 \<le> k \<and> k \<le> 102"
    using assms by (auto simp: HexCharToValue_def word_le_nat_alt unat_code k_def split: if_splits)
  then have "k \<in> set [48, 49, 50, 51, 52, 53, 54, 55, 56, 57, 65, 66, 67, 68, 69, 70, 97, 98, 99, 100, 101, 102]"
    by simp presburger
  then have "case HexCharToValue (char_of k) of Inl e \<Rightarrow> True
      | Inr v \<Rightarrow> v \<le> 15 \<and> ValueToHexChar v = upper_digit (char_of k)"
    using chars_eval unfolding list_all_iff by (rule bspec [rotated])
  moreover have "char_of k = c" by (simp add: k_def)
  ultimately show ?thesis using assms by simp
qed

lemma null_no_digit: "HexCharToValue (CHR 0x00) = Inl (InvalidArgument ''Invalid hex character'')"
  by code_simp

lemma hi_nibble: "v \<le> 15 \<Longrightarrow> w \<le> 15 \<Longrightarrow> drop_bit 4 (push_bit 4 v OR w) AND 0x0F = (v :: uint8) \<and> (push_bit 4 v OR w) AND 0x0F = w"
proof -
  assume "v \<le> 15" "w \<le> 15"
  then have "v AND 0x0F = v" "w AND 0x0F = w"
    using small_word_cases [of v] small_word_cases [of w] by auto
  moreover have m: "(0x0F :: uint8) = mask 4" by (simp add: mask_eq_exp_minus_1)
  ultimately have "take_bit 4 v = v" "take_bit 4 w = w" by (simp_all add: take_bit_eq_mask)
  then have b: "bit v n \<Longrightarrow> n < 4" "bit w n \<Longrightarrow> n < 4" for n by (metis bit_take_bit_iff)+
  show ?thesis unfolding m take_bit_eq_mask [symmetric]
    by (intro conjI; rule bit_word_eqI) (auto simp: bit_simps dest: b)
qed

lemma hex_pairs_digits: "hex_pairs (concat (map hex_digits bs)) = Inr bs"
  by (induction bs) (simp_all add: hex_digits_def hex_byte_digits ebind_def)

lemma BytesToHexString_plain:
  assumes "2 * length bs + 1 < 2 ^ 64"
  shows "BytesToHexString bs [] = CHR ''H'' # concat (map hex_digits bs)"
proof -
  have "length (concat (map hex_digits bs)) = 2 * length bs" by (induction bs) (simp_all add: hex_digits_def)
  then show ?thesis using assms by (simp add: BytesToHexString_def Let_def unat_of_nat_small del: of_nat_Suc)
qed

lemma HexStringToBytes_plain: "HexStringToBytes (CHR ''H'' # s) = hex_pairs s"
  by (simp add: HexStringToBytes_def KIT_HEX_PREFIX_def)

section \<open>Bytes in memory\<close>

lemma bit_mem_value:
  "bit (mem_value bs :: 'a::len word) i \<longleftrightarrow> i < LENGTH('a) \<and> i div 8 < length bs \<and> bit (bs ! (i div 8)) (i mod 8)"
proof (induction bs arbitrary: i)
  case (Cons b bs)
  then show ?case
  proof (cases "i < 8")
    case True
    then show ?thesis using Cons by (auto simp: mem_value_def bit_simps)
  next
    case False
    then have "i div 8 = Suc ((i - 8) div 8)" "i mod 8 = (i - 8) mod 8" by (auto simp: le_div_geq le_mod_geq)
    moreover have "\<not> bit b i" using False by (metis bit_imp_le_length len_bit0 len_num1 mult_2 one_add_one numeral_Bit0)
    ultimately show ?thesis using Cons [of "i - 8"] False by (auto simp: mem_value_def bit_simps)
  qed
qed (simp add: mem_value_def)

lemma length_mem_bytes [simp]: "length (mem_bytes (w :: 'a::len word)) = size_of TYPE('a word)"
  by (simp add: mem_bytes_def)

lemma mem_value_bytes:
  assumes "8 dvd LENGTH('a::len)"
  shows "mem_value (mem_bytes (w :: 'a word)) = w"
proof (rule bit_word_eqI)
  fix i assume i: "i < LENGTH('a)"
  then have "i div 8 < size_of TYPE('a word)" using assms by (auto simp: size_of_def elim!: dvdE)
  then show "bit (mem_value (mem_bytes w) :: 'a word) i = bit w i"
    using i by (simp add: bit_mem_value mem_bytes_def bit_simps)
qed

lemma rev_read: "map (\<lambda>i. bs ! (length bs - i - 1)) [0..<length bs] = rev bs"
  by (rule nth_equalityI) (simp_all add: rev_nth)

lemma BytesToValue_full:
  fixes w :: "'a::len word"
  assumes "8 dvd LENGTH('a)"
  shows "BytesToValue (if e then rev (mem_bytes w) else mem_bytes w) e = Inr w"
  using mem_value_bytes [OF assms, of w] rev_read [of "rev (mem_bytes w)"] by (auto simp: BytesToValue_def Let_def)

lemma SwapEndian_rev: "SwapEndian (w :: 'a::len word) = mem_value (rev (mem_bytes w))"
proof -
  have "map (\<lambda>i. mem_bytes w ! (size_of TYPE('a word) - 1 - i)) [0..<size_of TYPE('a word)] = rev (mem_bytes w)"
    by (rule nth_equalityI) (simp_all add: rev_nth)
  then show ?thesis by (simp add: SwapEndian_def Let_def)
qed

lemma mem_bytes_value:
  fixes bs :: "uint8 list"
  assumes "8 dvd LENGTH('a::len)" "length bs = size_of TYPE('a word)"
  shows "mem_bytes (mem_value bs :: 'a word) = bs"
proof (rule nth_equalityI)
  fix i assume "i < length (mem_bytes (mem_value bs :: 'a word))"
  then have i: "i < size_of TYPE('a word)" by simp
  show "mem_bytes (mem_value bs :: 'a word) ! i = bs ! i"
  proof (rule bit_word_eqI)
    fix j assume j: "j < LENGTH(8)"
    then have "8 * i + j < LENGTH('a)" "(8 * i + j) div 8 = i" "(8 * i + j) mod 8 = j"
      using i assms(1) by (auto simp: size_of_def elim!: dvdE)
    then show "bit (mem_bytes (mem_value bs :: 'a word) ! i) j = bit (bs ! i) j"
      using i j assms(2) by (simp add: mem_bytes_def bit_simps bit_mem_value)
  qed
qed (simp add: assms(2))

text \<open>Type tags.\<close>

lemma NetDataType_roundtrip: "NetDataType_FromString (NetDataType_toStrs t) = t"
  by (cases t) (simp_all add: NetDataType_FromString_def)

lemma hex_pairs_accepts:
  "hex_pairs s = Inr bs \<Longrightarrow> even (length s) \<and> (\<forall>c \<in> set s. \<exists>v. HexCharToValue c = Inr v)
     \<and> concat (map hex_digits bs) = map upper_digit s"
proof (induction s arbitrary: bs rule: hex_pairs.induct)
  case (2 a)
  then show ?case using null_no_digit by (auto simp: ebind_def hex_byte_def split: sum.splits)
next
  case (3 a b rest)
  then obtain hi lo vs where v: "HexCharToValue a = Inr hi" "HexCharToValue b = Inr lo" "hex_pairs rest = Inr vs"
    "bs = (push_bit 4 hi OR lo) # vs"
    by (auto simp: ebind_def hex_byte_def split: sum.splits)
  then show ?case using 3(1) [OF v(3)] value_digit [OF v(1)] value_digit [OF v(2)] hi_nibble [of hi lo]
    by (auto simp: hex_digits_def hex_byte_def ebind_def)
qed simp

lemma hex_pairs_total:
  "even (length s) \<Longrightarrow> \<forall>c \<in> set s. \<exists>v. HexCharToValue c = Inr v \<Longrightarrow> \<exists>bs. hex_pairs s = Inr bs"
  by (induction s rule: hex_pairs.induct) (auto simp: ebind_def hex_byte_def)

section \<open>Properties\<close>

text \<open>C36. \<^bold>\<open>Hexadecimal round trip\<close>: for a type of whole bytes, the text \<^verbatim>\<open>DataToHexConverter\<close> prints is read back
  by \<^verbatim>\<open>HexToDataConverter\<close> as the same value, in either byte order, and the two orders differ by \<^verbatim>\<open>SwapEndian\<close>; the
  same holds of strings.\<close>

theorem hex_roundtrip:
  fixes w :: "'a::len word"
  assumes "8 dvd LENGTH('a)" "LENGTH('a) \<le> 64" "2 * length s + 1 < 2 ^ 64"
  shows "HexToData (DataToHex w e) e = Inr w \<and> HexToData (DataToHex w e) (\<not> e) = Inr (SwapEndian w)
    \<and> SwapEndian (SwapEndian w) = w \<and> HexToString (StringToHex s) = Inr s"
proof -
  have n: "2 * size_of TYPE('a word) + 1 < 2 ^ 64" using assms(2) by (simp add: size_of_def)
  define bs where "bs = (if e then rev (mem_bytes w) else mem_bytes w)"
  have len: "length bs = size_of TYPE('a word)" by (simp add: bs_def)
  have "DataToHex w e = BytesToHexString bs []" by (simp add: DataToHex_def ValueToBytes_def Let_def bs_def)
  then have read: "HexStringToBytes (DataToHex w e) = Inr bs"
    using BytesToHexString_plain [of bs] n len by (simp add: HexStringToBytes_plain hex_pairs_digits)
  have swap: "mem_bytes (SwapEndian w) = rev (mem_bytes w)"
    unfolding SwapEndian_rev by (rule mem_bytes_value [OF assms(1)]) simp
  have "bs = (if \<not> e then rev (mem_bytes (SwapEndian w)) else mem_bytes (SwapEndian w))"
    by (simp add: bs_def swap)
  then have "BytesToValue bs (\<not> e) = Inr (SwapEndian w)" using BytesToValue_full [OF assms(1), of "\<not> e" "SwapEndian w"] by simp
  moreover have "BytesToValue bs e = Inr w" unfolding bs_def by (rule BytesToValue_full [OF assms(1)])
  moreover have "SwapEndian (SwapEndian w) = w"
    unfolding SwapEndian_rev [of "SwapEndian w"] swap by (simp add: mem_value_bytes [OF assms(1)])
  moreover have "map chr8 (map code s) = s" by (simp add: chr8_def unat_code comp_def)
  then have "HexToString (StringToHex s) = Inr s"
    using BytesToHexString_plain [of "map code s"] hex_pairs_digits [of "map code s"] assms(3)
    by (simp add: HexToString_def StringToHex_def HexStringToBytes_plain ebind_def)
  ultimately show ?thesis using read len by (simp add: HexToData_def ebind_def)
qed

theorem hex_roundtrip_witness:
  "HexToData (DataToHex (0x1234 :: 16 word) True) True = Inr (0x1234 :: 16 word) \<and> HexToString (StringToHex ''Hi'') = Inr ''Hi''"
  using hex_roundtrip [of "''Hi''" "0x1234 :: 16 word" True] by simp

text \<open>\<^bold>\<open>The hexadecimal strings accepted\<close> are exactly an \<open>H\<close> followed by an even number of digits, of
  either case; what is read from one prints as its upper-case form. Every other string - also one with an odd number of
  digits, whose last pair ends with the null character, and one with separators, which \<^verbatim>\<open>BytesToHexString\<close> prints by
  default between the bytes - is refused with an exception.\<close>

theorem hex_strings_accepted:
  assumes "length s < 2 ^ 64"
  shows "((\<exists>bs. HexStringToBytes s = Inr bs)
      \<longleftrightarrow> (\<exists>t. s = CHR ''H'' # t \<and> even (length t) \<and> (\<forall>c \<in> set t. \<exists>v. HexCharToValue c = Inr v)))
    \<and> (\<forall>bs. HexStringToBytes s = Inr bs \<longrightarrow> BytesToHexString bs [] = CHR ''H'' # map upper_digit (tl s))"
proof -
  have shape: "\<exists>t. s = CHR ''H'' # t \<and> hex_pairs t = Inr xs" if "HexStringToBytes s = Inr xs" for xs
    using that by (cases s) (auto simp: HexStringToBytes_def KIT_HEX_PREFIX_def split: if_splits)
  have "BytesToHexString bs [] = CHR ''H'' # map upper_digit (tl s)" if read: "HexStringToBytes s = Inr bs" for bs
  proof -
    obtain t where t: "s = CHR ''H'' # t" "hex_pairs t = Inr bs" using shape [OF read] by blast
    then have d: "concat (map hex_digits bs) = map upper_digit t" using hex_pairs_accepts by blast
    have "length (concat (map hex_digits bs)) = 2 * length bs" by (induction bs) (simp_all add: hex_digits_def)
    then have "2 * length bs = length t" using d by simp
    then show ?thesis using BytesToHexString_plain [of bs] d t assms by simp
  qed
  moreover have "(\<exists>bs. HexStringToBytes s = Inr bs)
      \<longleftrightarrow> (\<exists>t. s = CHR ''H'' # t \<and> even (length t) \<and> (\<forall>c \<in> set t. \<exists>v. HexCharToValue c = Inr v))"
    using shape hex_pairs_accepts hex_pairs_total HexStringToBytes_plain by metis
  ultimately show ?thesis by blast
qed

theorem hex_strings_accepted_witness:
  "(\<exists>bs. HexStringToBytes ''H1fA0'' = Inr bs) \<and> (\<nexists>bs. HexStringToBytes ''H1F A0'' = Inr bs)"
proof -
  have d: "\<exists>v. HexCharToValue c = Inr v" if "c \<in> set ''1fA0''" for c
    using that by (auto simp: HexCharToValue_def code_def)
  have "\<nexists>v. HexCharToValue (CHR '' '') = Inr v" by (simp add: HexCharToValue_def code_def)
  then have "\<nexists>bs. HexStringToBytes ''H1F A0'' = Inr bs" using hex_strings_accepted [of "''H1F A0''"] by simp
  moreover have "\<exists>bs. HexStringToBytes ''H1fA0'' = Inr bs" using hex_strings_accepted [of "''H1fA0''"] d by simp
  ultimately show ?thesis by blast
qed

text \<open>The default separator makes a text that is not read back, and the empty vector loses even the prefix.\<close>

lemma separated_hex_refused:
  "HexStringToBytes (BytesToHexString [0x12, 0x34] '' '') = Inl (InvalidArgument ''Invalid hex character'')
   \<and> BytesToHexString [] '' '' = []"
  by code_simp

end
