(* ===== verification/Sockets.thy ===== *)
theory Sockets
  imports CppStrings
begin

text \<open>
  \<^verbatim>\<open>Socket\<close> (include/net/socket.h, src/net/socket.cpp), the owner of a descriptor, and \<^verbatim>\<open>InetAddress\<close>
  (include/net/inet_address.h, src/net/inet_address.cpp). A system call is a record of the trace; its outcome is an argument of
  the operation. \<^verbatim>\<open>abort()\<close> is None. The texts of addresses (\<^verbatim>\<open>inet_addr\<close>, \<^verbatim>\<open>inet_ntop\<close>) are parameters.
\<close>

section \<open>Sockets\<close>

datatype socket_type = TCP | UDP

datatype sock_opt = TCP_NODELAY | SO_KEEPALIVE | SO_REUSEADDR | SO_REUSEPORT

datatype sys_call = SysBind int bool | SysListen int | SysAccept int | SysShutdown int | SysSetOpt int sock_opt bool | SysClose int

record socket =
  sk_fd :: int
  sk_type :: socket_type
  sk_is_bind :: bool
  sk_calls :: "sys_call list"

definition new_socket :: "int \<Rightarrow> socket_type \<Rightarrow> socket" where
  "new_socket fd type = \<lparr>sk_fd = fd, sk_type = type, sk_is_bind = False, sk_calls = []\<rparr>"

definition sys :: "sys_call \<Rightarrow> socket \<Rightarrow> socket" where
  "sys c s = s\<lparr>sk_calls := sk_calls s @ [c]\<rparr>"

definition socket_destroy :: "socket \<Rightarrow> socket" where
  "socket_destroy s = (if sk_fd s > 0 then sys (SysClose (sk_fd s)) s else s)"

definition socket_get :: "socket \<Rightarrow> int \<times> socket" where
  "socket_get s = (let fd = sk_fd s in (fd, s\<lparr>sk_fd := - 1\<rparr>))"

definition bindAddress :: "bool \<Rightarrow> socket \<Rightarrow> bool \<times> socket" where
  "bindAddress ok s =
     (let s = sys (SysBind (sk_fd s) ok) s in if \<not> ok then (False, s) else (True, s\<lparr>sk_is_bind := True\<rparr>))"

definition socket_listen :: "bool \<Rightarrow> socket \<Rightarrow> socket option" where
  "socket_listen ok s = (let s = sys (SysListen (sk_fd s)) s in if \<not> ok then None else Some s)"

text \<open>\<open>accepted\<close> is the answer of \<^verbatim>\<open>accept4\<close> with the peer's address, which is passed on only with a descriptor.\<close>

definition socket_accept :: "int \<Rightarrow> 'a \<Rightarrow> 'a \<Rightarrow> socket \<Rightarrow> int \<times> 'a \<times> socket" where
  "socket_accept accepted sockaddr peerAddr s =
     (let s = sys (SysAccept (sk_fd s)) s in if accepted < 0 then (- 1, peerAddr, s) else (accepted, sockaddr, s))"

definition shutdownWrite :: "socket \<Rightarrow> socket" where
  "shutdownWrite s = sys (SysShutdown (sk_fd s)) s"

definition set_option :: "sock_opt \<Rightarrow> bool \<Rightarrow> socket \<Rightarrow> socket" where
  "set_option opt on s = sys (SysSetOpt (sk_fd s) opt on) s"


unbundle bit_operations_syntax

definition O_NONBLOCK :: "32 word" where "O_NONBLOCK = 2048"

text \<open>The flags \<^verbatim>\<open>fcntl\<close> is asked to set, none when they could not be read.\<close>

definition SetSocketNoNBlock :: "32 word \<Rightarrow> bool \<Rightarrow> 32 word option" where
  "SetSocketNoNBlock flags on =
     (if flags = - 1 then None
      else let flags = (if on then flags OR O_NONBLOCK else flags AND NOT O_NONBLOCK) in Some flags)"

text \<open>Both factories: the descriptor and the flags set on it.\<close>

definition CreateTcpIpv4 :: "int \<Rightarrow> 32 word \<Rightarrow> bool \<Rightarrow> (int \<times> 32 word option) option" where
  "CreateTcpIpv4 fd flags nonblock = (if fd < 0 then None else Some (fd, SetSocketNoNBlock flags nonblock))"

definition CreateUdpIpv4 :: "int \<Rightarrow> 32 word \<Rightarrow> bool \<Rightarrow> (int \<times> 32 word option) option" where
  "CreateUdpIpv4 fd flags nonblock = (if fd < 0 then None else Some (fd, SetSocketNoNBlock flags nonblock))"

lemma nonblock_only:
  assumes "SetSocketNoNBlock flags on = Some f"
  shows "bit f n = (if n = 11 then on else bit flags n)"
proof -
  have o: "bit O_NONBLOCK n \<longleftrightarrow> n = 11" for n
  proof -
    have e: "O_NONBLOCK = push_bit 11 1" by (simp add: O_NONBLOCK_def push_bit_eq_mult)
    show ?thesis unfolding e bit_push_bit_iff bit_1_iff by auto
  qed
  show ?thesis
  proof (cases "n < 32")
    case True
    have f: "f = (if on then flags OR O_NONBLOCK else flags AND NOT O_NONBLOCK)"
      using assms by (simp add: SetSocketNoNBlock_def Let_def split: if_splits)
    show ?thesis using True unfolding f
      by (cases on) (simp_all only: if_True if_False bit_or_iff bit_and_iff bit_not_iff o, auto simp: possible_bit_def)
  next
    case False
    then have "\<not> bit f n" "\<not> bit flags n" "n \<noteq> 11" using bit_imp_le_length [of f n] bit_imp_le_length [of flags n] by auto
    then show ?thesis by simp
  qed
qed

section \<open>The life of a descriptor\<close>

datatype sk_op = OpBind bool | OpListen bool | OpAccept int | OpShutdown | OpSet sock_opt bool | OpGet

fun socket_op :: "sk_op \<Rightarrow> socket \<Rightarrow> socket option" where
  "socket_op (OpBind ok) s = Some (snd (bindAddress ok s))"
| "socket_op (OpListen ok) s = socket_listen ok s"
| "socket_op (OpAccept fd) s = Some (snd (snd (socket_accept fd () () s)))"
| "socket_op OpShutdown s = Some (shutdownWrite s)"
| "socket_op (OpSet opt on) s = Some (set_option opt on s)"
| "socket_op OpGet s = Some (snd (socket_get s))"

fun socket_life :: "sk_op list \<Rightarrow> socket \<Rightarrow> socket option" where
  "socket_life [] s = Some (socket_destroy s)"
| "socket_life (op # ops) s = (case socket_op op s of None \<Rightarrow> None | Some s' \<Rightarrow> socket_life ops s')"

definition closes :: "sys_call list \<Rightarrow> int list" where
  "closes cs = concat (map (\<lambda>c. case c of SysClose fd \<Rightarrow> [fd] | _ \<Rightarrow> []) cs)"

lemma closes_simps [simp]:
  "closes [] = []" "closes (xs @ ys) = closes xs @ closes ys" "closes [SysClose fd] = [fd]"
  "closes [SysBind a b] = []" "closes [SysListen a] = []" "closes [SysAccept a] = []" "closes [SysShutdown a] = []"
  "closes [SysSetOpt a opt b] = []"
  by (simp_all add: closes_def)

lemmas socket_defs = bindAddress_def socket_listen_def socket_accept_def shutdownWrite_def set_option_def socket_get_def
  sys_def Let_def

lemma socket_op_frame:
  assumes "socket_op op s = Some s'"
  shows "sk_fd s' = (if op = OpGet then - 1 else sk_fd s)" "closes (sk_calls s') = closes (sk_calls s)"
    "sk_is_bind s' = (sk_is_bind s \<or> op = OpBind True)"
  using assms by (cases op; auto simp: socket_defs split: if_splits)+

text \<open>A socket closes its descriptor once, at its end, unless the descriptor was taken out of it; and it counts as bound
  when a bind has succeeded.\<close>

theorem socket_closes_once:
  assumes "socket_life ops (new_socket fd type) = Some s" "fd > 0"
  shows "closes (sk_calls s) = (if OpGet \<in> set ops then [] else [fd]) \<and> sk_is_bind s = (OpBind True \<in> set ops)"
proof -
  have "closes (sk_calls s) = closes (sk_calls t) @ (if OpGet \<in> set ops \<or> \<not> sk_fd t > 0 then [] else [sk_fd t])
      \<and> sk_is_bind s = (sk_is_bind t \<or> OpBind True \<in> set ops)" if "socket_life ops t = Some s" for t
    using that
  proof (induction ops arbitrary: t)
    case Nil
    then show ?case by (auto simp: socket_destroy_def sys_def)
  next
    case (Cons op ops)
    then obtain u where u: "socket_op op t = Some u" "socket_life ops u = Some s" by (auto split: option.splits)
    from Cons.IH [OF u(2)] socket_op_frame [OF u(1)] show ?case by (auto split: if_splits)
  qed
  from this [OF assms(1)] assms(2) show ?thesis by (simp add: new_socket_def)
qed

theorem socket_closes_once_witness:
  "\<exists>s. socket_life [OpBind True, OpListen True] (new_socket 3 TCP) = Some s \<and> closes (sk_calls s) = [3]"
proof -
  let ?ops = "[OpBind True, OpListen True]"
  have "socket_life ?ops (new_socket 3 TCP) \<noteq> None" by (simp add: socket_defs new_socket_def)
  then obtain s where s: "socket_life ?ops (new_socket 3 TCP) = Some s" by blast
  from socket_closes_once [OF this] s show ?thesis by simp
qed

section \<open>Addresses\<close>

record inet_address =
  sin_family :: int
  sin_port :: "16 word"
  s_addr :: "32 word"

definition AF_INET :: int where "AF_INET = 2"

text \<open>\<^verbatim>\<open>htons\<close> and \<^verbatim>\<open>ntohs\<close> on a little-endian host.\<close>

definition swap16 :: "16 word \<Rightarrow> 16 word" where
  "swap16 w = push_bit 8 w OR drop_bit 8 w"

definition new_inet_address :: "(bytes \<Rightarrow> 32 word) \<Rightarrow> 16 word \<Rightarrow> bytes \<Rightarrow> inet_address" where
  "new_inet_address inet_addr port ip = \<lparr>sin_family = AF_INET, sin_port = swap16 port, s_addr = inet_addr ip\<rparr>"

text \<open>\<^verbatim>\<open>InetAddress()\<close>, value-initialised.\<close>

definition no_inet_address :: inet_address where
  "no_inet_address = \<lparr>sin_family = 0, sin_port = 0, s_addr = 0\<rparr>"

definition toPort :: "inet_address \<Rightarrow> 16 word" where
  "toPort a = swap16 (sin_port a)"

definition toIp :: "(32 word \<Rightarrow> bytes) \<Rightarrow> inet_address \<Rightarrow> bytes" where
  "toIp inet_ntop a = inet_ntop (s_addr a)"

definition toIpPort :: "(32 word \<Rightarrow> bytes) \<Rightarrow> inet_address \<Rightarrow> bytes" where
  "toIpPort inet_ntop a = toIp inet_ntop a @ '':'' @ to_dec (unat (toPort a))"

text \<open>\<^verbatim>\<open>GetLocalAddr\<close> and \<^verbatim>\<open>GetPeerAddr\<close> with the answer of the system, none for a failure.\<close>

definition GetLocalAddr :: "inet_address option \<Rightarrow> inet_address" where
  "GetLocalAddr answer = (case answer of None \<Rightarrow> no_inet_address | Some addr \<Rightarrow> addr)"

definition GetPeerAddr :: "inet_address option \<Rightarrow> inet_address" where
  "GetPeerAddr answer = (case answer of None \<Rightarrow> no_inet_address | Some addr \<Rightarrow> addr)"

text \<open>The list of \<^verbatim>\<open>getifaddrs\<close>: names with addresses, which may be missing.\<close>

fun find_interface :: "bytes \<Rightarrow> (bytes \<times> inet_address option) list \<Rightarrow> inet_address" where
  "find_interface iname [] = no_inet_address"
| "find_interface iname ((name, addr) # rest) =
     (case addr of
        None \<Rightarrow> find_interface iname rest
      | Some a \<Rightarrow> if name \<noteq> iname then find_interface iname rest
                  else if sin_family a = AF_INET then a else find_interface iname rest)"

definition GetInterfaceIpv4 :: "(bytes \<times> inet_address option) list option \<Rightarrow> bytes \<Rightarrow> inet_address" where
  "GetInterfaceIpv4 ifaddrs iname =
     (if iname = [] then no_inet_address
      else case ifaddrs of None \<Rightarrow> no_inet_address | Some l \<Rightarrow> find_interface iname l)"

lemma swap16_swap16: "swap16 (swap16 w) = w"
proof (rule bit_word_eqI)
  fix n assume "n < LENGTH(16)"
  then show "bit (swap16 (swap16 w)) n = bit w n"
    using bit_imp_le_length [of w "n + 16"] by (auto simp: swap16_def bit_simps)
qed

text \<open>Ports survive the network order, and the text of an address tells the address: the IP when the system prints the
  number it read, and the port.\<close>

theorem address_text:
  assumes "\<And>ip. ip \<in> A \<Longrightarrow> inet_ntop (inet_addr ip) = ip" "\<And>ip. ip \<in> A \<Longrightarrow> CHR '':'' \<notin> set ip" "ip \<in> A" "ip' \<in> A"
  shows "toPort (new_inet_address inet_addr port ip) = port \<and> toIp inet_ntop (new_inet_address inet_addr port ip) = ip
    \<and> (toIpPort inet_ntop (new_inet_address inet_addr port ip) = toIpPort inet_ntop (new_inet_address inet_addr port' ip')
        \<longleftrightarrow> port = port' \<and> ip = ip')"
proof -
  have t: "toIpPort inet_ntop (new_inet_address inet_addr p i) = i @ CHR '':'' # to_dec (unat p)" if "i \<in> A" for p i
    using assms(1) [OF that] by (simp add: toIpPort_def toIp_def toPort_def new_inet_address_def swap16_swap16)
  have tw: "takeWhile (\<lambda>c. c \<noteq> CHR '':'') (i @ CHR '':'' # r) = i" if "i \<in> A" for i r
    using assms(2) [OF that] by (subst takeWhile_append2) auto
  have "port = port' \<and> ip = ip'"
    if e: "ip @ CHR '':'' # to_dec (unat port) = ip' @ CHR '':'' # to_dec (unat port')"
  proof -
    have i: "ip = ip'" using tw [OF assms(3)] tw [OF assms(4)] e by metis
    then have "to_dec (unat port) = to_dec (unat port')" using e by simp
    then have "unat port = unat port'" by (metis digits_value_to_dec)
    then show ?thesis using i by (simp add: word_unat_eq_iff)
  qed
  then show ?thesis using t assms(1,3,4)
    by (auto simp: toPort_def toIp_def new_inet_address_def swap16_swap16)
qed

text \<open>The interface found is the first IPv4 address under the name.\<close>

lemma find_interface_first:
  "find_interface iname l =
     (case find (\<lambda>(name, addr). name = iname \<and> (\<exists>a. addr = Some a \<and> sin_family a = AF_INET)) l of
        Some (name, Some a) \<Rightarrow> a | _ \<Rightarrow> no_inet_address)"
  by (induction iname l rule: find_interface.induct) (auto split: option.splits)

end
