(* ===== verification/Log.thy ===== *)
theory Log
  imports CppStrings
begin

text \<open>
  The logging library: \<^verbatim>\<open>LogLevel\<close> (include/base/log_level.h, src/base/log_level.cpp), \<^verbatim>\<open>LogAttr\<close> (log_attr.h,
  log_attr.cpp), \<^verbatim>\<open>LogFormatter\<close> and its items (log_formatter.h, log_formatter.cpp), the appenders (log_appender.h,
  log_appender.cpp), \<^verbatim>\<open>Logger\<close> and \<^verbatim>\<open>LogManager\<close> (log.h, log.cpp). Of \<^verbatim>\<open>std::regex\<close> the one expression of
  \<^verbatim>\<open>LogFormatter::init\<close> is modelled, as what \<^verbatim>\<open>sregex_iterator\<close> finds with it. \<^verbatim>\<open>strftime\<close> and the opening of a file are
  parameters. An appender is a value with an address; the mutexes make each operation one step.
\<close>

section \<open>Levels\<close>

datatype log_level = UNKNOW | DEBUG | INFO | WARN | ERROR | FATAL

fun level_code :: "log_level \<Rightarrow> nat" where
  "level_code UNKNOW = 0" | "level_code DEBUG = 1" | "level_code INFO = 2" | "level_code WARN = 3"
| "level_code ERROR = 4" | "level_code FATAL = 5"

text \<open>Levels compare as their enumerators.\<close>

lemma level_code_inject: "level_code a = level_code b \<longleftrightarrow> a = b"
  by (cases a; cases b) simp_all

instantiation log_level :: linorder
begin

definition less_eq_log_level :: "log_level \<Rightarrow> log_level \<Rightarrow> bool" where "a \<le> b \<longleftrightarrow> level_code a \<le> level_code b"
definition less_log_level :: "log_level \<Rightarrow> log_level \<Rightarrow> bool" where "a < b \<longleftrightarrow> level_code a < level_code b"

instance
  by intro_classes (auto simp: less_eq_log_level_def less_log_level_def level_code_inject)

end

fun LogLevel_ToString :: "log_level \<Rightarrow> bytes" where
  "LogLevel_ToString DEBUG = ''DEBUG''"
| "LogLevel_ToString INFO = ''INFO''"
| "LogLevel_ToString WARN = ''WARN''"
| "LogLevel_ToString ERROR = ''ERROR''"
| "LogLevel_ToString FATAL = ''FATAL''"
| "LogLevel_ToString UNKNOW = ''UNKNOW''"

section \<open>Attributes of a log line\<close>

record log_attr =
  la_timeStamp :: nat
  la_elapse :: nat
  la_level :: log_level
  la_line :: int
  la_threadName :: bytes
  la_pid :: int
  la_fileName :: bytes
  la_content :: bytes
  la_loggerName :: bytes
  la_module :: bytes

definition getFileBaseName :: "log_attr \<Rightarrow> bytes" where
  "getFileBaseName a =
     (let f = la_fileName a in
      rev (takeWhile (\<lambda>c. c \<noteq> CHR ''/'' \<and> c \<noteq> CHR 0x5C) (rev f)))"

section \<open>The formatter\<close>

datatype format_item = NewLineItem | ContentItem | LevelItem | ElapseItem | ThreadIdItem | ThreadNameItem | TabItem
  | DateTimeItem bytes | FileItem | LineItem | LogNameItem | ModuleNameItem | StringItem bytes

definition DATETIME_DEFAULT_FORMAT_PATTERN :: bytes where
  "DATETIME_DEFAULT_FORMAT_PATTERN = ''%Y-%m-%d %H:%M:%S''"

definition LOG_FORMAT_DEFAULT_PATTERN :: bytes where
  "LOG_FORMAT_DEFAULT_PATTERN = ''[%d][%p][%f #%l][%g.%mo]<%t:%tn> %m''"

definition new_datetime_item :: "bytes \<Rightarrow> format_item" where
  "new_datetime_item str = DateTimeItem (if str = [] then DATETIME_DEFAULT_FORMAT_PATTERN else str)"

text \<open>The table of items, by the name behind the percent sign.\<close>

definition GetMap :: "bytes \<Rightarrow> (bytes \<Rightarrow> format_item) option" where
  "GetMap =
     [''n'' \<mapsto> (\<lambda>_. NewLineItem), ''m'' \<mapsto> (\<lambda>_. ContentItem), ''p'' \<mapsto> (\<lambda>_. LevelItem), ''r'' \<mapsto> (\<lambda>_. ElapseItem),
      ''t'' \<mapsto> (\<lambda>_. ThreadIdItem), ''T'' \<mapsto> (\<lambda>_. TabItem), ''tn'' \<mapsto> (\<lambda>_. ThreadNameItem), ''d'' \<mapsto> new_datetime_item,
      ''f'' \<mapsto> (\<lambda>_. FileItem), ''l'' \<mapsto> (\<lambda>_. LineItem), ''g'' \<mapsto> (\<lambda>_. LogNameItem), ''mo'' \<mapsto> (\<lambda>_. ModuleNameItem)]"

definition isPatternChar :: "char \<Rightarrow> bool" where
  "isPatternChar c \<longleftrightarrow> (97 \<le> (of_char c :: nat) \<and> (of_char c :: nat) \<le> 122) \<or> (65 \<le> (of_char c :: nat) \<and> (of_char c :: nat) \<le> 90)"

text \<open>The braces behind one letter: the text up to the first closing brace, which a dot can match.\<close>

definition braced :: "bytes \<Rightarrow> (char \<times> bytes) option" where
  "braced s =
     (case s of
        c # b # rest \<Rightarrow>
          let sub = takeWhile (\<lambda>x. x \<noteq> CHR ''}'') rest in
          if isPatternChar c \<and> b = CHR ''{'' \<and> length sub < length rest \<and> CHR 0x0A \<notin> set sub \<and> CHR 0x0D \<notin> set sub
          then Some (c, sub) else None
      | _ \<Rightarrow> None)"

text \<open>One match of the expression, as the groups that matched: an escaped percent sign; group 3, a letter with its
  braces, and group 4, what is between them; group 6, a name; group 7, other text.\<close>

datatype fmt_match = MEscape | MBraced bytes bytes | MName bytes | MText bytes

text \<open>What \<^verbatim>\<open>sregex_iterator\<close> finds: the alternatives in their order at each position, and no match at a percent sign
  that none of them fits.\<close>

function fmt_matches :: "bytes \<Rightarrow> fmt_match list" where
  "fmt_matches [] = []"
| "fmt_matches (c # s) =
     (if c = CHR ''%'' then
        (if s \<noteq> [] \<and> hd s = CHR ''%'' then MEscape # fmt_matches (tl s)
         else case braced s of
           Some (k, sub) \<Rightarrow> MBraced (k # CHR ''{'' # sub @ ''}'') sub # fmt_matches (drop (length sub + 3) s)
         | None \<Rightarrow>
             (let name = takeWhile isPatternChar s in
              if name \<noteq> [] then MName name # fmt_matches (drop (length name) s) else fmt_matches s))
      else
        (let text = takeWhile (\<lambda>x. x \<noteq> CHR ''%'') (c # s)
         in MText text # fmt_matches (drop (length text) (c # s))))"
  by pat_completeness auto
termination
  by (relation "measure length") (auto simp: Let_def)

definition item_of_match :: "fmt_match \<Rightarrow> format_item list" where
  "item_of_match m =
     (case m of
        MEscape \<Rightarrow> [StringItem ''%'']
      | MBraced g3 g4 \<Rightarrow> (case GetMap g3 of None \<Rightarrow> [] | Some f \<Rightarrow> [f g4])
      | MName g6 \<Rightarrow> (case GetMap g6 of None \<Rightarrow> [] | Some f \<Rightarrow> [f ''''])
      | MText text \<Rightarrow> (if text \<noteq> [] then [StringItem text] else []))"

definition formatter_init :: "bytes \<Rightarrow> format_item list" where
  "formatter_init pat = (if pat = [] then [] else concat (map item_of_match (fmt_matches pat)))"

text \<open>\<^verbatim>\<open>snprintf\<close> with \<^verbatim>\<open>%03d\<close>, and with the size of its buffer.\<close>

definition pad3 :: "nat \<Rightarrow> bytes" where
  "pad3 n = (let d = to_dec n in replicate (3 - length d) (CHR ''0'') @ d)"

definition item_format :: "(bytes \<Rightarrow> nat \<Rightarrow> bytes) \<Rightarrow> log_attr \<Rightarrow> format_item \<Rightarrow> bytes" where
  "item_format strftime a i =
     (case i of
        NewLineItem \<Rightarrow> [CHR 0x0A]
      | ContentItem \<Rightarrow> la_content a
      | LevelItem \<Rightarrow> LogLevel_ToString (la_level a)
      | ElapseItem \<Rightarrow> to_dec (la_elapse a)
      | ThreadIdItem \<Rightarrow> to_dec_int (la_pid a)
      | ThreadNameItem \<Rightarrow> la_threadName a
      | TabItem \<Rightarrow> [CHR 0x09]
      | DateTimeItem f \<Rightarrow> take 95 (strftime f (la_timeStamp a div 1000) @ ''.'' @ pad3 (la_timeStamp a mod 1000))
      | FileItem \<Rightarrow> getFileBaseName a
      | LineItem \<Rightarrow> to_dec_int (la_line a)
      | LogNameItem \<Rightarrow> la_loggerName a
      | ModuleNameItem \<Rightarrow> (if la_module a \<noteq> [] then la_module a else ''null'')
      | StringItem s \<Rightarrow> s)"

definition formatter_format :: "(bytes \<Rightarrow> nat \<Rightarrow> bytes) \<Rightarrow> format_item list \<Rightarrow> log_attr \<Rightarrow> bytes" where
  "formatter_format strftime items a = concat (map (item_format strftime a) items)"

section \<open>Appenders\<close>

text \<open>A console appender writes to the standard output, a file appender to its own stream, of which a prefix has been
  flushed.\<close>

record appender =
  ap_is_file :: bool
  ap_level :: log_level
  ap_formatter :: "format_item list option"
  ap_is_open :: bool
  ap_curSize :: nat
  ap_writeMaxSize :: nat
  ap_stream :: bytes
  ap_flushed :: nat

definition kWriteMaxSize :: nat where "kWriteMaxSize = 1 * 1024 * 1024"

definition new_console_appender :: appender where
  "new_console_appender = \<lparr>ap_is_file = False, ap_level = DEBUG, ap_formatter = Some (formatter_init LOG_FORMAT_DEFAULT_PATTERN),
     ap_is_open = False, ap_curSize = 0, ap_writeMaxSize = 0, ap_stream = [], ap_flushed = 0\<rparr>"

definition new_file_appender :: appender where
  "new_file_appender = new_console_appender\<lparr>ap_is_file := True, ap_writeMaxSize := kWriteMaxSize\<rparr>"

definition setFomatter :: "bytes \<Rightarrow> appender \<Rightarrow> appender" where
  "setFomatter pat p = p\<lparr>ap_formatter := Some (formatter_init pat)\<rparr>"

definition setWriteMaxSize :: "nat \<Rightarrow> appender \<Rightarrow> appender" where
  "setWriteMaxSize n p = p\<lparr>ap_writeMaxSize := n\<rparr>"

text \<open>What the logging calls find in the system: \<^verbatim>\<open>strftime\<close>, and whether the file can be opened.\<close>

record log_env =
  le_strftime :: "bytes \<Rightarrow> nat \<Rightarrow> bytes"
  le_can_open :: bool

definition ap_reopen :: "log_env \<Rightarrow> appender \<Rightarrow> bool \<times> appender" where
  "ap_reopen env p = (le_can_open env, p\<lparr>ap_is_open := le_can_open env\<rparr>)"

definition file_log :: "log_env \<Rightarrow> log_attr \<Rightarrow> appender \<Rightarrow> appender" where
  "file_log env a p =
     (if la_level a < ap_level p then p
      else
        (case (if ap_is_open p then (True, p) else ap_reopen env p) of (ok, p) \<Rightarrow>
           if \<not> ok then p
           else
             (case ap_formatter p of
                None \<Rightarrow> p
              | Some items \<Rightarrow>
                  (let log_data = formatter_format (le_strftime env) items a;
                       p = p\<lparr>ap_curSize := ap_curSize p + length log_data, ap_stream := ap_stream p @ log_data\<rparr>
                   in if ap_curSize p \<ge> ap_writeMaxSize p
                      then p\<lparr>ap_flushed := length (ap_stream p), ap_curSize := 0\<rparr> else p))))"

definition console_log :: "log_env \<Rightarrow> log_attr \<Rightarrow> appender \<Rightarrow> bytes" where
  "console_log env a p =
     (if la_level a < ap_level p then []
      else case ap_formatter p of None \<Rightarrow> [] | Some items \<Rightarrow> formatter_format (le_strftime env) items a)"

section \<open>Loggers and their manager\<close>

text \<open>The objects, by address, and the standard output.\<close>

record logger =
  lg_name :: bytes
  lg_level :: log_level
  lg_appenders :: "nat option list"

record log_world =
  lw_appenders :: "nat \<Rightarrow> appender"
  lw_next :: nat
  lw_loggers :: "nat \<Rightarrow> logger"
  lw_next_logger :: nat
  lw_stdout :: bytes

definition ap_append :: "log_env \<Rightarrow> log_attr \<Rightarrow> nat option \<Rightarrow> log_world \<Rightarrow> log_world" where
  "ap_append env a r w =
     (case r of
        None \<Rightarrow> w
      | Some i \<Rightarrow>
          (if ap_is_file (lw_appenders w i)
           then w\<lparr>lw_appenders := (lw_appenders w)(i := file_log env a (lw_appenders w i))\<rparr>
           else w\<lparr>lw_stdout := lw_stdout w @ console_log env a (lw_appenders w i)\<rparr>))"

definition logger_log :: "log_env \<Rightarrow> log_attr \<Rightarrow> nat \<Rightarrow> log_world \<Rightarrow> log_world" where
  "logger_log env a g w =
     (if la_level a < lg_level (lw_loggers w g) then w
      else fold (ap_append env a) (lg_appenders (lw_loggers w g)) w)"

definition addAppender :: "nat option \<Rightarrow> nat \<Rightarrow> log_world \<Rightarrow> log_world" where
  "addAppender r g w =
     (let lg = lw_loggers w g
      in w\<lparr>lw_loggers := (lw_loggers w)(g := lg\<lparr>lg_appenders := lg_appenders lg @ [r]\<rparr>)\<rparr>)"

definition delAppender :: "nat option \<Rightarrow> nat \<Rightarrow> log_world \<Rightarrow> log_world" where
  "delAppender r g w =
     (let lg = lw_loggers w g
      in w\<lparr>lw_loggers := (lw_loggers w)(g := lg\<lparr>lg_appenders := remove1 r (lg_appenders lg)\<rparr>)\<rparr>)"

definition setLevel :: "log_level \<Rightarrow> nat \<Rightarrow> log_world \<Rightarrow> log_world" where
  "setLevel l g w = w\<lparr>lw_loggers := (lw_loggers w)(g := (lw_loggers w g)\<lparr>lg_level := l\<rparr>)\<rparr>"

text \<open>\<^verbatim>\<open>std::make_shared\<close> of an appender and of a logger.\<close>

definition make_appender :: "appender \<Rightarrow> log_world \<Rightarrow> nat \<times> log_world" where
  "make_appender p w = (lw_next w, w\<lparr>lw_appenders := (lw_appenders w)(lw_next w := p), lw_next := lw_next w + 1\<rparr>)"

definition new_logger :: "bytes \<Rightarrow> log_world \<Rightarrow> nat \<times> log_world" where
  "new_logger name w =
     (let g = lw_next_logger w;
          w = w\<lparr>lw_loggers := (lw_loggers w)(g := \<lparr>lg_name = name, lg_level = DEBUG, lg_appenders = []\<rparr>),
                lw_next_logger := g + 1\<rparr>;
          (p, w) = make_appender new_console_appender w
      in (g, addAppender (Some p) g w))"

text \<open>The wrapper of a log line logs it when it is destroyed.\<close>

definition LogAttrWrap_end :: "log_env \<Rightarrow> log_attr \<Rightarrow> nat \<Rightarrow> log_world \<Rightarrow> log_world" where
  "LogAttrWrap_end env a g w = (if lg_level (lw_loggers w g) \<le> la_level a then logger_log env a g w else w)"

record log_manager =
  lm_loggers :: "bytes \<rightharpoonup> nat"
  lm_default :: nat

definition new_log_manager :: "log_world \<Rightarrow> log_manager \<times> log_world" where
  "new_log_manager w =
     (let (g, w) = new_logger ''root'' w; (p, w) = make_appender new_console_appender w
      in (\<lparr>lm_loggers = Map.empty, lm_default = g\<rparr>, addAppender (Some p) g w))"

definition getDefLogger :: "log_manager \<Rightarrow> nat" where "getDefLogger m = lm_default m"

definition lm_put :: "bytes \<Rightarrow> nat \<Rightarrow> log_manager \<Rightarrow> log_manager" where
  "lm_put name g m = m\<lparr>lm_loggers := (lm_loggers m)(name \<mapsto> g)\<rparr>"

definition addLogger :: "bytes \<Rightarrow> log_manager \<Rightarrow> log_world \<Rightarrow> nat \<times> log_manager \<times> log_world" where
  "addLogger name m w = (let (g, w) = new_logger name w in (g, lm_put name g m, w))"

definition getLogger :: "bytes \<Rightarrow> log_manager \<Rightarrow> log_world \<Rightarrow> nat \<times> log_manager \<times> log_world" where
  "getLogger name m w =
     (case lm_loggers m name of
        Some g \<Rightarrow> (g, m, w)
      | None \<Rightarrow> (let (g, w) = new_logger name w in (g, lm_put name g m, w)))"

definition delLogger :: "bytes \<Rightarrow> log_manager \<Rightarrow> log_manager" where
  "delLogger name m = m\<lparr>lm_loggers := (lm_loggers m)(name := None)\<rparr>"

section \<open>Templates\<close>

text \<open>The pieces a template is written from.\<close>

datatype piece = PText bytes | PEscape | PName bytes

fun piece_text :: "piece \<Rightarrow> bytes" where
  "piece_text (PText s) = s"
| "piece_text PEscape = ''%%''"
| "piece_text (PName n) = CHR ''%'' # n"

fun piece_match :: "piece \<Rightarrow> fmt_match" where
  "piece_match (PText s) = MText s"
| "piece_match PEscape = MEscape"
| "piece_match (PName n) = MName n"

text \<open>Text holds no percent sign and is not followed by text; a name is not followed by a letter or an opening brace.\<close>

fun template_ok :: "piece list \<Rightarrow> bool" where
  "template_ok [] \<longleftrightarrow> True"
| "template_ok (PText s # ps) \<longleftrightarrow> s \<noteq> [] \<and> CHR ''%'' \<notin> set s \<and> (\<forall>t qs. ps \<noteq> PText t # qs) \<and> template_ok ps"
| "template_ok (PEscape # ps) \<longleftrightarrow> template_ok ps"
| "template_ok (PName n # ps) \<longleftrightarrow> n \<noteq> [] \<and> (\<forall>c \<in> set n. isPatternChar c)
     \<and> (\<forall>t qs. ps = PText t # qs \<longrightarrow> t \<noteq> [] \<and> \<not> isPatternChar (hd t) \<and> hd t \<noteq> CHR ''{'') \<and> template_ok ps"

definition render_template :: "piece list \<Rightarrow> bytes" where
  "render_template ps = concat (map piece_text ps)"

lemma percent_no_pattern: "\<not> isPatternChar CHR ''%''" "\<not> isPatternChar CHR ''{''" "CHR ''{'' \<noteq> CHR ''%''"
  by (simp_all add: isPatternChar_def)

text \<open>What follows a text or a name begins with a percent sign or a harmless character.\<close>

lemma after_text: "\<forall>t qs. ps \<noteq> PText t # qs \<Longrightarrow> takeWhile (\<lambda>x. x \<noteq> CHR ''%'') (render_template ps) = []"
proof (cases ps)
  case (Cons p qs)
  then show "\<forall>t qs. ps \<noteq> PText t # qs \<Longrightarrow> ?thesis" by (cases p) (simp_all add: render_template_def)
qed (simp add: render_template_def)

lemma after_name:
  assumes "\<forall>t qs. ps = PText t # qs \<longrightarrow> t \<noteq> [] \<and> \<not> isPatternChar (hd t) \<and> hd t \<noteq> CHR ''{''"
  shows "render_template ps = [] \<or> (\<not> isPatternChar (hd (render_template ps)) \<and> hd (render_template ps) \<noteq> CHR ''{'')"
proof (cases ps)
  case (Cons p qs)
  then show ?thesis using assms percent_no_pattern
    by (cases p) (auto simp: render_template_def neq_Nil_conv)
qed (simp add: render_template_def)

lemma name_match:
  assumes "n \<noteq> []" "\<forall>c \<in> set n. isPatternChar c" "rest = [] \<or> \<not> isPatternChar (hd rest) \<and> hd rest \<noteq> CHR ''{''"
  shows "fmt_matches (CHR ''%'' # n @ rest) = MName n # fmt_matches rest"
proof -
  obtain c n' where n: "n = c # n'" using assms(1) by (cases n) auto
  have tw: "takeWhile isPatternChar (n @ rest) = n"
    using assms(2,3) by (cases rest) (auto simp: takeWhile_append2 takeWhile_eq_all_conv)
  have "c \<noteq> CHR ''%''" using assms(2) n percent_no_pattern by auto
  moreover have "braced (n @ rest) = None"
  proof (cases "n' @ rest")
    case (Cons b r)
    then have "b \<noteq> CHR ''{''" using assms(2,3) n percent_no_pattern by (cases n') auto
    then show ?thesis using Cons n by (simp add: braced_def Let_def)
  qed (simp add: braced_def n)
  ultimately show ?thesis using tw assms(1) n by (simp add: Let_def)
qed

lemma template_matches:
  "template_ok ps \<Longrightarrow> fmt_matches (render_template ps) = map piece_match ps"
proof (induction ps rule: template_ok.induct)
  case (2 s ps)
  obtain c s' where s: "s = c # s'" "c \<noteq> CHR ''%''" using 2(2) by (cases s) auto
  have "takeWhile (\<lambda>x. x \<noteq> CHR ''%'') (s @ render_template ps) = s"
    using 2(2) after_text [of ps] by (subst takeWhile_append2) auto
  then show ?case using 2 s by (simp add: render_template_def Let_def)
next
  case (4 n ps)
  then show ?case using name_match [of n "render_template ps"] after_name [of ps] by (simp add: render_template_def)
qed (simp_all add: render_template_def)

section \<open>Properties\<close>

text \<open>What a piece of a template prints: itself, a percent sign, or the attribute it names; unknown names print
  nothing.\<close>

definition piece_output :: "(bytes \<Rightarrow> nat \<Rightarrow> bytes) \<Rightarrow> log_attr \<Rightarrow> piece \<Rightarrow> bytes" where
  "piece_output strftime a p =
     (case p of
        PText s \<Rightarrow> s
      | PEscape \<Rightarrow> ''%''
      | PName n \<Rightarrow> (case GetMap n of None \<Rightarrow> [] | Some f \<Rightarrow> item_format strftime a (f [])))"


definition default_template :: "piece list" where
  "default_template = [PText ''['', PName ''d'', PText '']['', PName ''p'', PText '']['', PName ''f'', PText '' #'', PName ''l'',
     PText '']['', PName ''g'', PText ''.'', PName ''mo'', PText '']<'', PName ''t'', PText '':'', PName ''tn'', PText ''> '', PName ''m'']"

definition sample_attr :: log_attr where
  "sample_attr = \<lparr>la_timeStamp = 1007, la_elapse = 0, la_level = WARN, la_line = 42, la_threadName = ''io'', la_pid = 7,
     la_fileName = ''src/net/buffer.cpp'', la_content = ''full'', la_loggerName = ''net'', la_module = []\<rparr>"

lemma to_dec_small: "to_dec 7 = ''7''" "to_dec 42 = ''42''"
  by code_simp+

lemma default_template_ok: "template_ok default_template" "render_template default_template = LOG_FORMAT_DEFAULT_PATTERN"
  by (simp_all add: default_template_def isPatternChar_def render_template_def LOG_FORMAT_DEFAULT_PATTERN_def)


text \<open>A date with a format of its own, and a name run together with text, print nothing: the key looked up includes the
  braces, and the name takes in the letters of the text.\<close>

lemma braced_dropped:
  assumes "isPatternChar c" "CHR ''}'' \<notin> set sub" "CHR 0x0A \<notin> set sub" "CHR 0x0D \<notin> set sub"
  shows "fmt_matches (CHR ''%'' # c # CHR ''{'' # sub @ CHR ''}'' # rest)
      = MBraced (c # CHR ''{'' # sub @ ''}'') sub # fmt_matches rest"
    and "item_of_match (MBraced (c # CHR ''{'' # sub @ ''}'') sub) = []"
proof -
  have c: "c \<noteq> CHR ''%''" using assms(1) percent_no_pattern by auto
  have "takeWhile (\<lambda>x. x \<noteq> CHR ''}'') (sub @ CHR ''}'' # rest) = sub"
    using assms(2) by (subst takeWhile_append2) auto
  then have "braced (c # CHR ''{'' # sub @ CHR ''}'' # rest) = Some (c, sub)" using assms by (simp add: braced_def)
  then show "fmt_matches (CHR ''%'' # c # CHR ''{'' # sub @ CHR ''}'' # rest)
      = MBraced (c # CHR ''{'' # sub @ ''}'') sub # fmt_matches rest" using c by (simp add: numeral_3_eq_3)
  show "item_of_match (MBraced (c # CHR ''{'' # sub @ ''}'') sub) = []"
    by (simp add: item_of_match_def GetMap_def)
qed

lemma name_run_together: "formatter_init ''%tnabc%n'' = [NewLineItem]"
  by (simp add: formatter_init_def Let_def braced_def isPatternChar_def item_of_match_def GetMap_def)



text \<open>The manager gives its default logger a second console appender: every line of the root logger is printed twice,
  a line of a named logger once.\<close>

lemma root_logs_twice:
  assumes "new_log_manager w = (m, w1)" "DEBUG \<le> la_level a"
  shows "lw_stdout (LogAttrWrap_end env a (getDefLogger m) w1)
    = lw_stdout w @ console_log env a new_console_appender @ console_log env a new_console_appender"
  using assms by (auto simp: new_log_manager_def new_logger_def make_appender_def addAppender_def Let_def
      LogAttrWrap_end_def getDefLogger_def logger_log_def ap_append_def new_console_appender_def)

lemma named_logs_once:
  assumes "lm_loggers m name = None" "getLogger name m w = (g, m1, w1)" "DEBUG \<le> la_level a"
  shows "getLogger name m1 w1 = (g, m1, w1)"
    and "lw_stdout (LogAttrWrap_end env a g w1) = lw_stdout w @ console_log env a new_console_appender"
  using assms by (auto simp: getLogger_def new_logger_def make_appender_def addAppender_def Let_def lm_put_def
      LogAttrWrap_end_def logger_log_def ap_append_def new_console_appender_def)

end
