(* ===== verification/Variant.thy ===== *)
theory Variant
  imports Prelude
begin

text \<open>
  \<^verbatim>\<open>KitVariant\<close> of include/base/variant.h, in the hand-written form the header has for compilers older than C++17 (with
  C++17 it derives from \<^verbatim>\<open>std::variant\<close>). The type parameters are a list of types of an arbitrary Isabelle type; the
  constructors of the alternatives are user code, a parameter of the model, and may throw.

  A variant is its storage and its index. The storage is raw or holds an object of some type, so that using a raw
  storage, or one that holds another type, is undefined behaviour. Two counters record the objects constructed in and
  destroyed in the storage. A world holds the variants of a program by name, and the steps are the program's operations
  on them, with the references that may point into a variant.
\<close>

section \<open>Type lists\<close>

fun type_at :: "nat \<Rightarrow> 't list \<Rightarrow> 't option" where
  "type_at 0 (t # ts) = Some t"
| "type_at (Suc n) (t # ts) = type_at n ts"
| "type_at n [] = None"

fun index_of :: "'t \<Rightarrow> 't list \<Rightarrow> nat option" where
  "index_of t [] = None"
| "index_of t (u # ts) = (if t = u then Some 0 else map_option Suc (index_of t ts))"

fun contains :: "'t \<Rightarrow> 't list \<Rightarrow> bool" where
  "contains t [] = False"
| "contains t (u # ts) = (t = u \<or> contains t ts)"

fun max_sizeof :: "nat list \<Rightarrow> nat" where
  "max_sizeof (a # b # rest) = (if a > max_sizeof (b # rest) then a else max_sizeof (b # rest))"
| "max_sizeof [a] = a"
| "max_sizeof [] = 0"

fun max_alignof :: "nat list \<Rightarrow> nat" where
  "max_alignof (a # b # rest) = (if a > max_alignof (b # rest) then a else max_alignof (b # rest))"
| "max_alignof [a] = a"
| "max_alignof [] = 0"

definition data_size :: "('t \<Rightarrow> nat) \<Rightarrow> 't list \<Rightarrow> nat" where
  "data_size sizeof Ts = (if length Ts > 0 then max_sizeof (map sizeof Ts) else 1)"

definition data_align :: "('t \<Rightarrow> nat) \<Rightarrow> 't list \<Rightarrow> nat" where
  "data_align alignof Ts = max_alignof (map alignof Ts)"

lemma contains_iff: "contains t ts \<longleftrightarrow> t \<in> set ts"
  by (induction ts) auto

lemma type_at_nth: "type_at n ts = (if n < length ts then Some (ts ! n) else None)"
  by (induction n ts rule: type_at.induct) auto

lemma index_of_Some: "index_of t ts = Some n \<Longrightarrow> n < length ts \<and> ts ! n = t"
  by (induction ts arbitrary: n) (auto split: if_splits)

lemma index_of_contained: "contains t ts \<Longrightarrow> \<exists>n. index_of t ts = Some n"
  by (induction ts) auto

lemma index_of_first: "index_of t ts = Some n \<Longrightarrow> j < n \<Longrightarrow> ts ! j \<noteq> t"
  by (induction ts arbitrary: n j) (auto simp: nth_Cons split: if_splits nat.splits)

lemma index_of_nth_0: "ts \<noteq> [] \<Longrightarrow> index_of (ts ! 0) ts = Some 0"
  by (cases ts) auto

lemma max_sizeof_ge: "x \<in> set xs \<Longrightarrow> x \<le> max_sizeof xs"
  by (induction xs rule: max_sizeof.induct) auto

lemma max_alignof_ge: "x \<in> set xs \<Longrightarrow> x \<le> max_alignof xs"
  by (induction xs rule: max_alignof.induct) auto

lemma max_alignof_in: "xs \<noteq> [] \<Longrightarrow> max_alignof xs \<in> set xs"
  by (induction xs rule: max_alignof.induct) auto

text \<open>Every alternative fits into the storage, and is aligned in it, alignments being powers of two.\<close>

lemma alternatives_fit:
  assumes "contains t Ts" and "\<forall>u\<in>set Ts. \<exists>k. alignof u = 2 ^ k"
  shows "sizeof t \<le> data_size sizeof Ts" and "alignof t dvd data_align alignof Ts"
proof -
  from assms(1) have t: "t \<in> set Ts" by (simp add: contains_iff)
  then show "sizeof t \<le> data_size sizeof Ts" by (auto simp: data_size_def intro: max_sizeof_ge)
  have "data_align alignof Ts \<in> alignof ` set Ts"
    using max_alignof_in [of "map alignof Ts"] t by (cases Ts) (auto simp: data_align_def)
  with assms(2) t obtain k l where kl: "alignof t = 2 ^ k" "data_align alignof Ts = 2 ^ l" by (metis imageE)
  moreover have "alignof t \<le> data_align alignof Ts" using t by (auto simp: data_align_def intro: max_alignof_ge)
  ultimately show "alignof t dvd data_align alignof Ts" by (simp add: le_imp_power_dvd)
qed

section \<open>The variant\<close>

datatype ('t, 'v) storage = Raw | Obj 't 'v

record ('t, 'v) kvariant =
  kv_data :: "('t, 'v) storage"
  kv_index :: nat
  kv_ctors :: nat
  kv_dtors :: nat

datatype variant_error =
    BadVariantAccess \<comment> \<open>\<^verbatim>\<open>runtime_error("bad variant access")\<close>\<close>
  | InvalidIndex     \<comment> \<open>\<^verbatim>\<open>runtime_error("invalid variant index")\<close>\<close>
  | UserException    \<comment> \<open>thrown by a constructor of an alternative\<close>

datatype 'a outcome = Done 'a | Throws variant_error 'a | Undefined | Terminated

text \<open>The constructors of the alternatives: a default, a copy and a move constructor, \<^const>\<open>None\<close> when it throws. A move
  also says what it leaves in its source.\<close>

record ('t, 'v) ctor_set =
  default_ctor :: "'t \<Rightarrow> 'v option"
  copy_ctor :: "'t \<Rightarrow> 'v \<Rightarrow> 'v option"
  move_ctor :: "'t \<Rightarrow> 'v \<Rightarrow> 'v option \<times> 'v"

definition unconstructed :: "nat \<Rightarrow> ('t, 'v) kvariant" where
  "unconstructed i = \<lparr>kv_data = Raw, kv_index = i, kv_ctors = 0, kv_dtors = 0\<rparr>"

definition placement_new :: "'t \<Rightarrow> 'v \<Rightarrow> ('t, 'v) kvariant \<Rightarrow> ('t, 'v) kvariant" where
  "placement_new t x w = w\<lparr>kv_data := Obj t x, kv_ctors := Suc (kv_ctors w)\<rparr>"

text \<open>The object in the storage, read as one of a type.\<close>

definition object_as :: "'t \<Rightarrow> ('t, 'v) kvariant \<Rightarrow> 'v option" where
  "object_as t w = (case kv_data w of Obj u x \<Rightarrow> if u = t then Some x else None | Raw \<Rightarrow> None)"

definition holds_alternative :: "'t list \<Rightarrow> 't \<Rightarrow> ('t, 'v) kvariant \<Rightarrow> bool" where
  "holds_alternative Ts t w \<longleftrightarrow> index_of t Ts = Some (kv_index w)"

definition get_type :: "'t list \<Rightarrow> 't \<Rightarrow> ('t, 'v) kvariant \<Rightarrow> 'v option outcome" where
  "get_type Ts t w =
     (if \<not> holds_alternative Ts t w then Throws BadVariantAccess None
      else case object_as t w of None \<Rightarrow> Undefined | Some x \<Rightarrow> Done (Some x))"

definition get_index :: "'t list \<Rightarrow> nat \<Rightarrow> ('t, 'v) kvariant \<Rightarrow> 'v option outcome" where
  "get_index Ts i w =
     (if kv_index w \<noteq> i then Throws BadVariantAccess None
      else case object_as (Ts ! i) w of None \<Rightarrow> Undefined | Some x \<Rightarrow> Done (Some x))"

definition construct_impl :: "('t, 'v) ctor_set \<Rightarrow> 't list \<Rightarrow> nat \<Rightarrow> ('t, 'v) kvariant \<Rightarrow> ('t, 'v) kvariant outcome" where
  "construct_impl C Ts i w =
     (if i < length Ts then
        case default_ctor C (Ts ! i) of None \<Rightarrow> Throws UserException w | Some x \<Rightarrow> Done (placement_new (Ts ! i) x w)
      else Throws InvalidIndex w)"

function destroy_impl :: "'t list \<Rightarrow> nat \<Rightarrow> ('t, 'v) kvariant \<Rightarrow> ('t, 'v) kvariant outcome" where
  "destroy_impl Ts i w =
     (if i < length Ts then
        if i = kv_index w then
          case object_as (Ts ! i) w of
            None \<Rightarrow> Undefined
          | Some x \<Rightarrow> Done (w\<lparr>kv_data := Raw, kv_dtors := Suc (kv_dtors w)\<rparr>)
        else destroy_impl Ts (i + 1) w
      else Throws InvalidIndex w)"
  by pat_completeness auto
termination by (relation "measure (\<lambda>(Ts, i, w). length Ts - i)") auto

definition destroy :: "'t list \<Rightarrow> ('t, 'v) kvariant \<Rightarrow> ('t, 'v) kvariant outcome" where
  "destroy Ts w = destroy_impl Ts 0 w"

function copy_construct_impl ::
  "('t, 'v) ctor_set \<Rightarrow> 't list \<Rightarrow> ('t, 'v) kvariant \<Rightarrow> nat \<Rightarrow> ('t, 'v) kvariant \<Rightarrow> ('t, 'v) kvariant outcome" where
  "copy_construct_impl C Ts other i w =
     (if i < length Ts then
        if i = kv_index w then
          case get_index Ts i other of
            Done (Some x) \<Rightarrow>
              (case copy_ctor C (Ts ! i) x of None \<Rightarrow> Throws UserException w | Some y \<Rightarrow> Done (placement_new (Ts ! i) y w))
          | Throws e _ \<Rightarrow> Throws e w
          | _ \<Rightarrow> Undefined
        else copy_construct_impl C Ts other (i + 1) w
      else Throws InvalidIndex w)"
  by pat_completeness auto
termination by (relation "measure (\<lambda>(C, Ts, other, i, w). length Ts - i)") auto

definition copy_construct ::
  "('t, 'v) ctor_set \<Rightarrow> 't list \<Rightarrow> ('t, 'v) kvariant \<Rightarrow> ('t, 'v) kvariant \<Rightarrow> ('t, 'v) kvariant outcome" where
  "copy_construct C Ts other w = copy_construct_impl C Ts other 0 w"

text \<open>Moving changes the other variant, too: the pair is the other one and the one constructed.\<close>

function move_construct_impl ::
  "('t, 'v) ctor_set \<Rightarrow> 't list \<Rightarrow> ('t, 'v) kvariant \<Rightarrow> nat \<Rightarrow> ('t, 'v) kvariant
     \<Rightarrow> (('t, 'v) kvariant \<times> ('t, 'v) kvariant) outcome" where
  "move_construct_impl C Ts other i w =
     (if i < length Ts then
        if i = kv_index w then
          case get_index Ts i other of
            Done (Some x) \<Rightarrow>
              (case move_ctor C (Ts ! i) x of
                 (None, r) \<Rightarrow> Throws UserException (other\<lparr>kv_data := Obj (Ts ! i) r\<rparr>, w)
               | (Some y, r) \<Rightarrow> Done (other\<lparr>kv_data := Obj (Ts ! i) r\<rparr>, placement_new (Ts ! i) y w))
          | Throws e _ \<Rightarrow> Throws e (other, w)
          | _ \<Rightarrow> Undefined
        else move_construct_impl C Ts other (i + 1) w
      else Throws InvalidIndex (other, w))"
  by pat_completeness auto
termination by (relation "measure (\<lambda>(C, Ts, other, i, w). length Ts - i)") auto

definition move_construct ::
  "('t, 'v) ctor_set \<Rightarrow> 't list \<Rightarrow> ('t, 'v) kvariant \<Rightarrow> ('t, 'v) kvariant
     \<Rightarrow> (('t, 'v) kvariant \<times> ('t, 'v) kvariant) outcome" where
  "move_construct C Ts other w = move_construct_impl C Ts other 0 w"

declare destroy_impl.simps [simp del] copy_construct_impl.simps [simp del] move_construct_impl.simps [simp del]


section \<open>Programs with variants\<close>

text \<open>The variants of a program by name, and those that have been destroyed.\<close>

record ('t, 'v) world =
  vars :: "nat \<rightharpoonup> ('t, 'v) kvariant"
  dead :: "('t, 'v) kvariant list"

definition no_variants :: "('t, 'v) world" where
  "no_variants = \<lparr>vars = Map.empty, dead = []\<rparr>"

text \<open>What a value is taken from: an object outside of all variants, or a reference that \<^verbatim>\<open>get\<close> has returned for the
  object inside a variant; it binds to \<^verbatim>\<open>const T&\<close> or to \<^verbatim>\<open>T&&\<close>.\<close>

datatype pass = ByCopy | ByMove
datatype 'v source = Value 'v | Inside nat

datatype ('t, 'v) operation =
    NewDefault nat
  | NewValue nat pass 't "'v source"
  | NewCopy nat nat
  | NewMove nat nat
  | AssignCopy nat nat
  | AssignMove nat nat
  | AssignValue nat pass 't "'v source"
  | Destroy nat

definition set_var :: "nat \<Rightarrow> ('t, 'v) kvariant \<Rightarrow> ('t, 'v) world \<Rightarrow> ('t, 'v) world" where
  "set_var i w s = s\<lparr>vars := (vars s)(i \<mapsto> w)\<rparr>"

definition read_source :: "'t \<Rightarrow> 'v source \<Rightarrow> ('t, 'v) world \<Rightarrow> 'v option" where
  "read_source t src s =
     (case src of
        Value x \<Rightarrow> Some x
      | Inside j \<Rightarrow> (case vars s j of None \<Rightarrow> None | Some w \<Rightarrow> object_as t w))"

definition leave_in_source :: "'t \<Rightarrow> 'v source \<Rightarrow> 'v \<Rightarrow> ('t, 'v) world \<Rightarrow> ('t, 'v) world" where
  "leave_in_source t src r s =
     (case src of
        Value x \<Rightarrow> s
      | Inside j \<Rightarrow> (case vars s j of None \<Rightarrow> s | Some w \<Rightarrow> set_var j (w\<lparr>kv_data := Obj t r\<rparr>) s))"

text \<open>\<^verbatim>\<open>new (&data_) T(value)\<close> and \<^verbatim>\<open>new (&data_) T(std::forward<T>(value))\<close>: the world has changed where the value has
  been moved from, the result is the storage.\<close>

definition new_from ::
  "('t, 'v) ctor_set \<Rightarrow> pass \<Rightarrow> 't \<Rightarrow> 'v source \<Rightarrow> ('t, 'v) kvariant \<Rightarrow> ('t, 'v) world
     \<Rightarrow> (('t, 'v) kvariant \<times> ('t, 'v) world) outcome" where
  "new_from C p t src w s =
     (case read_source t src s of
        None \<Rightarrow> Undefined
      | Some x \<Rightarrow>
          (case p of
             ByCopy \<Rightarrow>
               (case copy_ctor C t x of None \<Rightarrow> Throws UserException (w, s) | Some y \<Rightarrow> Done (placement_new t y w, s))
           | ByMove \<Rightarrow>
               (case move_ctor C t x of
                  (None, r) \<Rightarrow> Throws UserException (w, leave_in_source t src r s)
                | (Some y, r) \<Rightarrow> Done (placement_new t y w, leave_in_source t src r s))))"

text \<open>What becomes of a variant after a constructor or an assignment: an object whose constructor throws does not come
  into existence, the target of an assignment stays as it is then.\<close>

definition constructed :: "nat \<Rightarrow> (('t, 'v) kvariant \<times> ('t, 'v) world) outcome \<Rightarrow> ('t, 'v) world outcome" where
  "constructed i r =
     (case r of
        Done (w, s) \<Rightarrow> Done (set_var i w s) | Throws e (w, s) \<Rightarrow> Throws e s
      | Undefined \<Rightarrow> Undefined | Terminated \<Rightarrow> Terminated)"

definition assigned :: "nat \<Rightarrow> (('t, 'v) kvariant \<times> ('t, 'v) world) outcome \<Rightarrow> ('t, 'v) world outcome" where
  "assigned i r =
     (case r of
        Done (w, s) \<Rightarrow> Done (set_var i w s) | Throws e (w, s) \<Rightarrow> Throws e (set_var i w s)
      | Undefined \<Rightarrow> Undefined | Terminated \<Rightarrow> Terminated)"

definition in_world :: "('t, 'v) world \<Rightarrow> ('t, 'v) kvariant outcome \<Rightarrow> (('t, 'v) kvariant \<times> ('t, 'v) world) outcome" where
  "in_world s r =
     (case r of Done w \<Rightarrow> Done (w, s) | Throws e w \<Rightarrow> Throws e (w, s) | Undefined \<Rightarrow> Undefined | Terminated \<Rightarrow> Terminated)"

definition moved_out ::
  "nat \<Rightarrow> ('t, 'v) world \<Rightarrow> (('t, 'v) kvariant \<times> ('t, 'v) kvariant) outcome
     \<Rightarrow> (('t, 'v) kvariant \<times> ('t, 'v) world) outcome" where
  "moved_out j s r =
     (case r of
        Done (other, w) \<Rightarrow> Done (w, set_var j other s) | Throws e (other, w) \<Rightarrow> Throws e (w, set_var j other s)
      | Undefined \<Rightarrow> Undefined | Terminated \<Rightarrow> Terminated)"

text \<open>\<^verbatim>\<open>destroy()\<close> at the head of an assignment, then the rest with the variant of the new index. The world without the
  old object is the one the rest reads.\<close>

definition reassign ::
  "'t list \<Rightarrow> nat \<Rightarrow> nat \<Rightarrow> (('t, 'v) kvariant \<Rightarrow> ('t, 'v) world \<Rightarrow> (('t, 'v) kvariant \<times> ('t, 'v) world) outcome)
     \<Rightarrow> ('t, 'v) kvariant \<Rightarrow> ('t, 'v) world \<Rightarrow> ('t, 'v) world outcome" where
  "reassign Ts i k rest w s =
     (case destroy Ts w of
        Done w' \<Rightarrow> (let w'' = w'\<lparr>kv_index := k\<rparr> in assigned i (rest w'' (set_var i w'' s)))
      | Throws e w' \<Rightarrow> Throws e (set_var i w' s)
      | Undefined \<Rightarrow> Undefined | Terminated \<Rightarrow> Terminated)"

fun variant_step :: "('t, 'v) ctor_set \<Rightarrow> 't list \<Rightarrow> ('t, 'v) operation \<Rightarrow> ('t, 'v) world \<Rightarrow> ('t, 'v) world outcome" where
  "variant_step C Ts (NewDefault i) s = constructed i (in_world s (construct_impl C Ts 0 (unconstructed 0)))"
| "variant_step C Ts (NewValue i p t src) s =
     (case index_of t Ts of None \<Rightarrow> Undefined
      | Some k \<Rightarrow> constructed i (new_from C p t src (unconstructed k) s))"
| "variant_step C Ts (NewCopy i j) s =
     (case vars s j of None \<Rightarrow> Undefined
      | Some other \<Rightarrow> constructed i (in_world s (copy_construct C Ts other (unconstructed (kv_index other)))))"
| "variant_step C Ts (NewMove i j) s =
     (case vars s j of None \<Rightarrow> Undefined
      | Some other \<Rightarrow> constructed i (moved_out j s (move_construct C Ts other (unconstructed (kv_index other)))))"
| "variant_step C Ts (AssignCopy i j) s =
     (case (vars s i, vars s j) of
        (Some w, Some other) \<Rightarrow>
          if i = j then Done s
          else reassign Ts i (kv_index other) (\<lambda>w s. in_world s (copy_construct C Ts other w)) w s
      | _ \<Rightarrow> Undefined)"
| "variant_step C Ts (AssignMove i j) s =
     (case (vars s i, vars s j) of
        (Some w, Some other) \<Rightarrow>
          if i = j then Done s
          else reassign Ts i (kv_index other) (\<lambda>w s. moved_out j s (move_construct C Ts other w)) w s
      | _ \<Rightarrow> Undefined)"
| "variant_step C Ts (AssignValue i p t src) s =
     (case (vars s i, index_of t Ts) of
        (Some w, Some k) \<Rightarrow> reassign Ts i k (\<lambda>w s. new_from C p t src w s) w s
      | _ \<Rightarrow> Undefined)"
| "variant_step C Ts (Destroy i) s =
     (case vars s i of None \<Rightarrow> Undefined
      | Some w \<Rightarrow>
          (case destroy Ts w of
             Done w' \<Rightarrow> Done (s\<lparr>vars := (vars s)(i := None), dead := dead s @ [w']\<rparr>)
           | Throws e w' \<Rightarrow> Terminated
           | Undefined \<Rightarrow> Undefined | Terminated \<Rightarrow> Terminated))"

text \<open>What the compiler and the scopes of a program guarantee: a new variant has a new name, the variants named exist, a
  value has one of the types, and a reference into a variant is one that \<^verbatim>\<open>get\<close> gives. Assigning to a variant from a
  reference into itself is not excluded.\<close>

definition source_ok :: "'t list \<Rightarrow> 't \<Rightarrow> 'v source \<Rightarrow> ('t, 'v) world \<Rightarrow> bool" where
  "source_ok Ts t src s =
     (case src of Value x \<Rightarrow> True | Inside j \<Rightarrow> (case vars s j of None \<Rightarrow> False | Some w \<Rightarrow> holds_alternative Ts t w))"

fun well_scoped :: "'t list \<Rightarrow> ('t, 'v) operation \<Rightarrow> ('t, 'v) world \<Rightarrow> bool" where
  "well_scoped Ts (NewDefault i) s \<longleftrightarrow> vars s i = None"
| "well_scoped Ts (NewValue i p t src) s \<longleftrightarrow> vars s i = None \<and> contains t Ts \<and> source_ok Ts t src s"
| "well_scoped Ts (NewCopy i j) s \<longleftrightarrow> vars s i = None \<and> vars s j \<noteq> None"
| "well_scoped Ts (NewMove i j) s \<longleftrightarrow> vars s i = None \<and> vars s j \<noteq> None"
| "well_scoped Ts (AssignCopy i j) s \<longleftrightarrow> vars s i \<noteq> None \<and> vars s j \<noteq> None"
| "well_scoped Ts (AssignMove i j) s \<longleftrightarrow> vars s i \<noteq> None \<and> vars s j \<noteq> None"
| "well_scoped Ts (AssignValue i p t src) s \<longleftrightarrow> vars s i \<noteq> None \<and> contains t Ts \<and> source_ok Ts t src s"
| "well_scoped Ts (Destroy i) s \<longleftrightarrow> vars s i \<noteq> None"

fun target :: "('t, 'v) operation \<Rightarrow> nat" where
  "target (NewDefault i) = i"
| "target (NewValue i p t src) = i"
| "target (NewCopy i j) = i"
| "target (NewMove i j) = i"
| "target (AssignCopy i j) = i"
| "target (AssignMove i j) = i"
| "target (AssignValue i p t src) = i"
| "target (Destroy i) = i"

fun assigns :: "('t, 'v) operation \<Rightarrow> bool" where
  "assigns (AssignCopy i j) = True"
| "assigns (AssignMove i j) = True"
| "assigns (AssignValue i p t src) = True"
| "assigns c = False"

fun from_itself :: "('t, 'v) operation \<Rightarrow> bool" where
  "from_itself (AssignValue i p t src) = (src = Inside i)"
| "from_itself c = False"

text \<open>The worlds a program can be in that never assigns to a variant from a reference into itself and gives up when an
  assignment throws; a constructor's exception may be caught.\<close>

inductive_set variant_worlds :: "('t, 'v) ctor_set \<Rightarrow> 't list \<Rightarrow> ('t, 'v) world set"
  for C :: "('t, 'v) ctor_set" and Ts :: "'t list" where
  worlds_empty: "no_variants \<in> variant_worlds C Ts"
| worlds_done: "s \<in> variant_worlds C Ts \<Longrightarrow> well_scoped Ts c s \<Longrightarrow> \<not> from_itself c \<Longrightarrow> variant_step C Ts c s = Done s'
    \<Longrightarrow> s' \<in> variant_worlds C Ts"
| worlds_caught: "s \<in> variant_worlds C Ts \<Longrightarrow> well_scoped Ts c s \<Longrightarrow> \<not> assigns c \<Longrightarrow> variant_step C Ts c s = Throws e s'
    \<Longrightarrow> s' \<in> variant_worlds C Ts"


section \<open>One variant\<close>

text \<open>A live variant: its index is one that \<^const>\<open>index_of\<close> gives, its storage holds an object of that type, and one more
  object has been constructed there than destroyed. A spent one holds nothing, and the counts are equal.\<close>

definition live :: "'t list \<Rightarrow> ('t, 'v) kvariant \<Rightarrow> bool" where
  "live Ts w \<longleftrightarrow> index_of (Ts ! kv_index w) Ts = Some (kv_index w) \<and> (\<exists>x. kv_data w = Obj (Ts ! kv_index w) x) \<and>
     kv_ctors w = Suc (kv_dtors w)"

definition spent :: "('t, 'v) kvariant \<Rightarrow> bool" where
  "spent w \<longleftrightarrow> kv_data w = Raw \<and> kv_ctors w = kv_dtors w"

lemma live_index: "live Ts w \<Longrightarrow> kv_index w < length Ts"
  by (auto simp: live_def dest: index_of_Some)

lemma live_obj: "live Ts w \<Longrightarrow> \<exists>x. kv_data w = Obj (Ts ! kv_index w) x"
  by (simp add: live_def)

lemma live_placement_new:
  "index_of t Ts = Some (kv_index w) \<Longrightarrow> kv_ctors w = kv_dtors w \<Longrightarrow> live Ts (placement_new t x w)"
  by (frule index_of_Some) (auto simp: live_def placement_new_def)

lemma live_refill: "live Ts w \<Longrightarrow> live Ts (w\<lparr>kv_data := Obj (Ts ! kv_index w) r\<rparr>)"
  by (simp add: live_def)

lemma holds_alternative_live:
  "live Ts w \<Longrightarrow> holds_alternative Ts t w \<longleftrightarrow> t = Ts ! kv_index w"
  by (auto simp: live_def holds_alternative_def dest: index_of_Some)

lemma object_as_Raw [simp]: "kv_data w = Raw \<Longrightarrow> object_as t w = None"
  by (simp add: object_as_def)

lemma object_as_live: "live Ts w \<Longrightarrow> holds_alternative Ts t w \<Longrightarrow> \<exists>x. object_as t w = Some x \<and> kv_data w = Obj t x"
  by (frule live_obj) (auto simp: holds_alternative_live object_as_def)

text \<open>The recursion over the indices finds the current one.\<close>

lemma destroy_impl_at:
  "i \<le> kv_index w \<Longrightarrow> kv_index w < length Ts \<Longrightarrow>
     destroy_impl Ts i w =
       (case object_as (Ts ! kv_index w) w of
          None \<Rightarrow> Undefined | Some x \<Rightarrow> Done (w\<lparr>kv_data := Raw, kv_dtors := Suc (kv_dtors w)\<rparr>))"
  by (induction Ts i w rule: destroy_impl.induct) (subst destroy_impl.simps, auto)

lemma copy_construct_impl_at:
  "i \<le> kv_index w \<Longrightarrow> kv_index w < length Ts \<Longrightarrow>
     copy_construct_impl C Ts other i w = copy_construct_impl C Ts other (kv_index w) w"
proof (induction C Ts other i w rule: copy_construct_impl.induct)
  case (1 C Ts other i w)
  then show ?case by (cases "i = kv_index w") (simp_all add: copy_construct_impl.simps [of C Ts other i w])
qed

lemma move_construct_impl_at:
  "i \<le> kv_index w \<Longrightarrow> kv_index w < length Ts \<Longrightarrow>
     move_construct_impl C Ts other i w = move_construct_impl C Ts other (kv_index w) w"
proof (induction C Ts other i w rule: move_construct_impl.induct)
  case (1 C Ts other i w)
  then show ?case by (cases "i = kv_index w") (simp_all add: move_construct_impl.simps [of C Ts other i w])
qed

lemma destroy_live:
  "live Ts w \<Longrightarrow> destroy Ts w = Done (w\<lparr>kv_data := Raw, kv_dtors := Suc (kv_dtors w)\<rparr>)"
  by (frule live_index, frule live_obj) (auto simp: destroy_def destroy_impl_at object_as_def)

lemma destroy_raw: "kv_index w < length Ts \<Longrightarrow> kv_data w = Raw \<Longrightarrow> destroy Ts w = Undefined"
  by (simp add: destroy_def destroy_impl_at)

lemma copy_construct_live:
  assumes "live Ts other" "kv_data other = Obj t x" "kv_index w = kv_index other"
  shows "copy_construct C Ts other w =
           (case copy_ctor C t x of None \<Rightarrow> Throws UserException w | Some y \<Rightarrow> Done (placement_new t y w))"
proof -
  from live_obj [OF assms(1)] assms(2) have "Ts ! kv_index other = t" by simp
  moreover have "get_index Ts (kv_index other) other = Done (Some x)"
    using assms(2) calculation by (simp add: get_index_def object_as_def)
  ultimately show ?thesis
    using live_index [OF assms(1)] assms(3)
    by (simp add: copy_construct_def copy_construct_impl_at copy_construct_impl.simps [of C Ts other "kv_index other" w]
       split: option.split prod.split)
qed

lemma move_construct_live:
  assumes "live Ts other" "kv_data other = Obj t x" "kv_index w = kv_index other"
  shows "move_construct C Ts other w =
           (case move_ctor C t x of
              (None, r) \<Rightarrow> Throws UserException (other\<lparr>kv_data := Obj t r\<rparr>, w)
            | (Some y, r) \<Rightarrow> Done (other\<lparr>kv_data := Obj t r\<rparr>, placement_new t y w))"
proof -
  from live_obj [OF assms(1)] assms(2) have "Ts ! kv_index other = t" by simp
  moreover have "get_index Ts (kv_index other) other = Done (Some x)"
    using assms(2) calculation by (simp add: get_index_def object_as_def)
  ultimately show ?thesis
    using live_index [OF assms(1)] assms(3)
    by (simp add: move_construct_def move_construct_impl_at move_construct_impl.simps [of C Ts other "kv_index other" w]
       split: option.split prod.split)
qed

text \<open>The type of a live variant decides \<^verbatim>\<open>get\<close>.\<close>

lemma get_type_live:
  assumes "live Ts w"
  shows "get_type Ts t w =
           (case kv_data w of Obj u x \<Rightarrow> if t = u then Done (Some x) else Throws BadVariantAccess None | Raw \<Rightarrow> Undefined)"
  using assms live_obj [OF assms] by (auto simp: get_type_def holds_alternative_live object_as_def)


section \<open>All variants of a program\<close>

definition good_but :: "'t list \<Rightarrow> nat \<Rightarrow> ('t, 'v) world \<Rightarrow> bool" where
  "good_but Ts i s \<longleftrightarrow> (\<forall>j w. j \<noteq> i \<longrightarrow> vars s j = Some w \<longrightarrow> live Ts w) \<and> (\<forall>w\<in>set (dead s). spent w)"

definition good_world :: "'t list \<Rightarrow> ('t, 'v) world \<Rightarrow> bool" where
  "good_world Ts s \<longleftrightarrow> (\<forall>j w. vars s j = Some w \<longrightarrow> live Ts w) \<and> (\<forall>w\<in>set (dead s). spent w)"

lemma good_world_but: "good_world Ts s \<Longrightarrow> good_but Ts i s"
  by (simp add: good_world_def good_but_def)

lemma good_but_new: "good_but Ts i s \<Longrightarrow> vars s i = None \<Longrightarrow> good_world Ts s"
  by (auto simp: good_world_def good_but_def) (metis option.distinct(1))

lemma good_world_live: "good_world Ts s \<Longrightarrow> vars s j = Some w \<Longrightarrow> live Ts w"
  by (simp add: good_world_def)

lemma good_but_live: "good_but Ts i s \<Longrightarrow> vars s j = Some w \<Longrightarrow> j \<noteq> i \<Longrightarrow> live Ts w"
  by (simp add: good_but_def)

lemma good_set_var: "good_but Ts i s \<Longrightarrow> live Ts w \<Longrightarrow> good_world Ts (set_var i w s)"
  by (simp add: good_world_def good_but_def set_var_def)

lemma good_but_set_var: "good_but Ts i s \<Longrightarrow> i = j \<or> live Ts w \<Longrightarrow> good_but Ts i (set_var j w s)"
  by (auto simp: good_but_def set_var_def)

lemma vars_set_var: "vars (set_var j w s) = (vars s)(j \<mapsto> w)"
  by (simp add: set_var_def)

text \<open>What constructing an object for the variant \<open>i\<close> does, other variants being live: it ends in a live variant, or in the
  exception of the user's constructor with the storage as it was; the other variants stay live.\<close>

definition fills ::
  "'t list \<Rightarrow> nat \<Rightarrow> ('t, 'v) kvariant \<Rightarrow> ('t, 'v) world \<Rightarrow> (('t, 'v) kvariant \<times> ('t, 'v) world) outcome \<Rightarrow> bool" where
  "fills Ts i w s r \<longleftrightarrow>
     (case r of
        Done (w', s') \<Rightarrow> live Ts w' \<and> good_but Ts i s' \<and> dom (vars s') = dom (vars s)
      | Throws e (w', s') \<Rightarrow> e = UserException \<and> w' = w \<and> good_but Ts i s' \<and> dom (vars s') = dom (vars s)
      | _ \<Rightarrow> False)"

definition empty_for :: "'t list \<Rightarrow> nat \<Rightarrow> ('t, 'v) kvariant \<Rightarrow> bool" where
  "empty_for Ts k w \<longleftrightarrow> spent w \<and> kv_index w = k \<and> index_of (Ts ! k) Ts = Some k"

lemma empty_for_unconstructed: "index_of (Ts ! k) Ts = Some k \<Longrightarrow> empty_for Ts k (unconstructed k)"
  by (simp add: empty_for_def unconstructed_def spent_def)

lemma empty_for_new: "empty_for Ts k w \<Longrightarrow> t = Ts ! k \<Longrightarrow> live Ts (placement_new t x w)"
  by (rule live_placement_new) (auto simp: empty_for_def spent_def)

lemma live_other:
  "live Ts other \<Longrightarrow> index_of (Ts ! kv_index other) Ts = Some (kv_index other)"
  by (simp add: live_def)

lemma fills_default:
  "Ts \<noteq> [] \<Longrightarrow> good_but Ts i s \<Longrightarrow> empty_for Ts 0 w \<Longrightarrow> fills Ts i w s (in_world s (construct_impl C Ts 0 w))"
  by (auto simp: fills_def in_world_def construct_impl_def intro: empty_for_new split: option.split)

lemma fills_copy:
  assumes "good_but Ts i s" "live Ts other" "empty_for Ts (kv_index other) w"
  shows "fills Ts i w s (in_world s (copy_construct C Ts other w))"
proof -
  from live_obj [OF assms(2)] obtain x where x: "kv_data other = Obj (Ts ! kv_index other) x" ..
  have w: "kv_index w = kv_index other" using assms(3) by (simp add: empty_for_def)
  show ?thesis
    using assms
    by (auto simp: copy_construct_live [OF assms(2) x w] fills_def in_world_def empty_for_new split: option.split)
qed

lemma fills_move:
  assumes "good_but Ts i s" "live Ts other" "vars s j = Some other" "empty_for Ts (kv_index other) w"
  shows "fills Ts i w s (moved_out j s (move_construct C Ts other w))"
proof -
  from live_obj [OF assms(2)] obtain x where x: "kv_data other = Obj (Ts ! kv_index other) x" ..
  have w: "kv_index w = kv_index other" using assms(4) by (simp add: empty_for_def)
  show ?thesis
    using assms
    by (auto simp: move_construct_live [OF assms(2) x w] fills_def moved_out_def empty_for_new good_but_set_var
      live_refill vars_set_var split: option.split prod.split)
qed

lemma source_read:
  assumes "good_but Ts i s" "source_ok Ts t src s" "src \<noteq> Inside i"
  shows "\<exists>x. read_source t src s = Some x"
  using assms by (auto simp: source_ok_def read_source_def split: source.splits option.splits
    dest!: good_but_live object_as_live)

lemma source_left:
  assumes "good_but Ts i s" "source_ok Ts t src s" "src \<noteq> Inside i"
  shows "good_but Ts i (leave_in_source t src r s)" "dom (vars (leave_in_source t src r s)) = dom (vars s)"
proof -
  show "good_but Ts i (leave_in_source t src r s)"
  proof (cases src)
    case (Inside j)
    with assms obtain w where "vars s j = Some w" "live Ts w" "t = Ts ! kv_index w"
      by (auto simp: source_ok_def holds_alternative_live good_but_live split: option.splits)
    with Inside assms show ?thesis by (simp add: leave_in_source_def good_but_set_var live_refill)
  qed (use assms in \<open>simp add: leave_in_source_def\<close>)
  show "dom (vars (leave_in_source t src r s)) = dom (vars s)"
    by (auto simp: leave_in_source_def vars_set_var split: source.splits option.splits)
qed

lemma fills_value:
  assumes "good_but Ts i s" "source_ok Ts t src s" "src \<noteq> Inside i" "index_of t Ts = Some k" "empty_for Ts k w"
  shows "fills Ts i w s (new_from C p t src w s)"
proof -
  from source_read [OF assms(1-3)] obtain x where x: "read_source t src s = Some x" ..
  from index_of_Some [OF assms(4)] have t: "t = Ts ! k" by simp
  show ?thesis
    using assms(1) source_left [OF assms(1-3)]
    by (simp add: x fills_def new_from_def empty_for_new [OF assms(5) t] split: pass.split option.split prod.split)
qed


text \<open>The two ways in which an outcome is used.\<close>

definition safe_outcome :: "'t list \<Rightarrow> ('t, 'v) operation \<Rightarrow> ('t, 'v) world \<Rightarrow> ('t, 'v) world outcome \<Rightarrow> bool" where
  "safe_outcome Ts c s r \<longleftrightarrow>
     (case r of
        Done s' \<Rightarrow> good_world Ts s'
      | Throws e s' \<Rightarrow> e = UserException \<and> dom (vars s') = dom (vars s) \<and>
          (if assigns c then good_but Ts (target c) s' \<and> (\<exists>w. vars s' (target c) = Some w \<and> spent w \<and> kv_index w < length Ts)
           else good_world Ts s')
      | _ \<Rightarrow> False)"

lemma constructed_safe:
  assumes "fills Ts (target c) w s r" "vars s (target c) = None" "\<not> assigns c"
  shows "safe_outcome Ts c s (constructed (target c) r)"
proof -
  have "vars s' (target c) = None" if "dom (vars s') = dom (vars s)" for s' :: "('a, 'b) world"
    using assms(2) that by (metis domIff)
  with assms show ?thesis
    by (auto simp: fills_def constructed_def safe_outcome_def good_set_var intro: good_but_new split: outcome.splits prod.splits)
qed

lemma assigned_safe:
  assumes "fills Ts (target c) w (set_var (target c) w s) r" "empty_for Ts k w" "assigns c" "vars s (target c) \<noteq> None"
  shows "safe_outcome Ts c s (assigned (target c) r)"
proof -
  have "kv_index w < length Ts" using assms(2) by (auto simp: empty_for_def dest: index_of_Some)
  moreover have "dom (vars (set_var (target c) w s)) = dom (vars s)" using assms(4) by (auto simp: vars_set_var)
  ultimately show ?thesis using assms
    by (auto simp: fills_def assigned_def safe_outcome_def good_set_var good_but_set_var vars_set_var empty_for_def
      split: outcome.splits prod.splits)
qed

lemma reassign_safe:
  assumes "good_world Ts s" "vars s (target c) = Some w" "assigns c" "index_of (Ts ! k) Ts = Some k"
    and rest: "\<And>w' s'. empty_for Ts k w' \<Longrightarrow> s' = set_var (target c) w' s \<Longrightarrow> good_but Ts (target c) s'
                 \<Longrightarrow> fills Ts (target c) w' s' (rest w' s')"
  shows "safe_outcome Ts c s (reassign Ts (target c) k rest w s)"
proof -
  from assms have "live Ts w" by (simp add: good_world_live)
  then have "empty_for Ts k (w\<lparr>kv_data := Raw, kv_dtors := Suc (kv_dtors w), kv_index := k\<rparr>)" (is "empty_for Ts k ?w")
    using assms(4) by (simp add: empty_for_def spent_def live_def)
  moreover from this have "fills Ts (target c) ?w (set_var (target c) ?w s) (rest ?w (set_var (target c) ?w s))"
    by (rule rest) (simp_all add: good_but_set_var good_world_but assms(1))
  ultimately show ?thesis
    using assigned_safe assms(2,3) by (fastforce simp: reassign_def destroy_live [OF \<open>live Ts w\<close>] Let_def)
qed


lemma new_safe:
  assumes "good_world Ts s" "well_scoped Ts c s" "\<not> assigns c" "Ts \<noteq> []" "\<And>i. c \<noteq> Destroy i"
  shows "safe_outcome Ts c s (variant_step C Ts c s)"
proof (cases c)
  case (NewDefault i)
  then show ?thesis using assms constructed_safe [of Ts c "unconstructed 0" s]
    by (simp add: fills_default good_world_but empty_for_unconstructed index_of_nth_0)
next
  case (NewValue i p t src)
  with assms obtain k where k: "index_of t Ts = Some k" by (auto dest: index_of_contained)
  from index_of_Some [OF k] k have "index_of (Ts ! k) Ts = Some k" by simp
  then have e: "empty_for Ts k (unconstructed k :: ('a, 'b) kvariant)" by (rule empty_for_unconstructed)
  from assms NewValue have "source_ok Ts t src s" "src \<noteq> Inside i" by (auto simp: source_ok_def)
  from fills_value [OF good_world_but [OF assms(1)] this k e] show ?thesis
    using assms NewValue k constructed_safe [of Ts c "unconstructed k" s] by simp
next
  case (NewCopy i j)
  with assms obtain other where o: "vars s j = Some other" "live Ts other" by (auto dest: good_world_live)
  then show ?thesis using assms NewCopy constructed_safe [of Ts c "unconstructed (kv_index other)" s]
    by (simp add: fills_copy good_world_but empty_for_unconstructed live_other)
next
  case (NewMove i j)
  with assms obtain other where o: "vars s j = Some other" "live Ts other" by (auto dest: good_world_live)
  then show ?thesis using assms NewMove constructed_safe [of Ts c "unconstructed (kv_index other)" s]
    by (simp add: fills_move good_world_but empty_for_unconstructed live_other)
qed (use assms in simp_all)

lemma assign_safe:
  assumes "good_world Ts s" "well_scoped Ts c s" "\<not> from_itself c" "assigns c"
  shows "safe_outcome Ts c s (variant_step C Ts c s)"
proof (cases c)
  case (AssignCopy i j)
  with assms obtain w other where o: "vars s i = Some w" "vars s j = Some other" "live Ts other"
    by (auto dest: good_world_live)
  show ?thesis
  proof (cases "i = j")
    case True
    then show ?thesis using assms(1) o AssignCopy by (simp add: safe_outcome_def)
  next
    case False
    have "safe_outcome Ts c s (reassign Ts (target c) (kv_index other) (\<lambda>w s. in_world s (copy_construct C Ts other w)) w s)"
      by (rule reassign_safe) (use assms(1,4) o AssignCopy in \<open>auto simp: live_other intro: fills_copy\<close>)
    then show ?thesis using False o AssignCopy by simp
  qed
next
  case (AssignMove i j)
  with assms obtain w other where o: "vars s i = Some w" "vars s j = Some other" "live Ts other"
    by (auto dest: good_world_live)
  show ?thesis
  proof (cases "i = j")
    case True
    then show ?thesis using assms(1) o AssignMove by (simp add: safe_outcome_def)
  next
    case False
    have "safe_outcome Ts c s (reassign Ts (target c) (kv_index other) (\<lambda>w s. moved_out j s (move_construct C Ts other w)) w s)"
      by (rule reassign_safe) (use False assms(1,4) o AssignMove in \<open>auto simp: live_other vars_set_var intro: fills_move\<close>)
    then show ?thesis using False o AssignMove by simp
  qed
next
  case (AssignValue i p t src)
  with assms obtain w k where o: "vars s i = Some w" "index_of t Ts = Some k" "src \<noteq> Inside i" "source_ok Ts t src s"
    by (auto dest: index_of_contained)
  from index_of_Some [OF o(2)] o(2) have k: "index_of (Ts ! k) Ts = Some k" by simp
  have src: "source_ok Ts t src (set_var i w' s)" for w'
    using o(3,4) by (auto simp: source_ok_def vars_set_var split: source.splits)
  have "safe_outcome Ts c s (reassign Ts (target c) k (\<lambda>w s. new_from C p t src w s) w s)"
    by (rule reassign_safe) (use assms(1,4) o k src AssignValue in \<open>auto intro: fills_value\<close>)
  then show ?thesis using o AssignValue by simp
qed (use assms in simp_all)

lemma variant_step_safe:
  assumes "good_world Ts s" "well_scoped Ts c s" "\<not> from_itself c" "Ts \<noteq> []"
  shows "safe_outcome Ts c s (variant_step C Ts c s)"
proof (cases "assigns c \<or> (\<forall>i. c \<noteq> Destroy i)")
  case True
  then show ?thesis using assms new_safe assign_safe by blast
next
  case False
  then obtain i where c: "c = Destroy i" by blast
  with assms obtain w where w: "vars s i = Some w" "live Ts w" by (auto dest: good_world_live)
  then have "spent (w\<lparr>kv_data := Raw, kv_dtors := Suc (kv_dtors w)\<rparr>)" by (simp add: spent_def live_def)
  with assms(1) w c show ?thesis by (simp add: safe_outcome_def destroy_live good_world_def)
qed

lemma no_variants_good: "good_world Ts no_variants"
  by (simp add: good_world_def no_variants_def)

lemma variant_worlds_good:
  "s \<in> variant_worlds C Ts \<Longrightarrow> Ts \<noteq> [] \<Longrightarrow> good_world Ts s"
proof (induction rule: variant_worlds.induct)
  case (worlds_done s c s')
  then show ?case using variant_step_safe [of Ts s c C] by (simp add: safe_outcome_def)
next
  case (worlds_caught s c e s')
  then have "\<not> from_itself c" by (cases c) simp_all
  with worlds_caught show ?case using variant_step_safe [of Ts s c C] by (simp add: safe_outcome_def)
qed (rule no_variants_good)


section \<open>Properties\<close>

lemma live_get_type:
  assumes "live Ts w"
  shows "\<exists>t x. kv_data w = Obj t x \<and> contains t Ts \<and> kv_ctors w = Suc (kv_dtors w) \<and>
           (\<forall>u. get_type Ts u w = (if u = t then Done (Some x) else Throws BadVariantAccess None))"
proof -
  from live_obj [OF assms] obtain x where x: "kv_data w = Obj (Ts ! kv_index w) x" ..
  have "contains (Ts ! kv_index w) Ts" using live_index [OF assms] by (simp add: contains_iff)
  moreover have "kv_ctors w = Suc (kv_dtors w)" using assms by (simp add: live_def)
  ultimately show ?thesis using x get_type_live [OF assms] by simp
qed


text \<open>A set of constructors for the examples: type 1 refuses to copy 13.\<close>

definition demo_ctors :: "(nat, int) ctor_set" where
  "demo_ctors = \<lparr>default_ctor = (\<lambda>t. Some 0), copy_ctor = (\<lambda>t x. if t = 1 \<and> x = 13 then None else Some x),
     move_ctor = (\<lambda>t x. (Some x, 0))\<rparr>"

definition demo_world :: "(nat, int) world" where
  "demo_world = \<lparr>vars = [0 \<mapsto> \<lparr>kv_data = Obj 1 13, kv_index = 1, kv_ctors = 1, kv_dtors = 0\<rparr>,
     1 \<mapsto> \<lparr>kv_data = Obj 0 0, kv_index = 0, kv_ctors = 1, kv_dtors = 0\<rparr>], dead = []\<rparr>"

lemma demo_world_reached: "demo_world \<in> variant_worlds demo_ctors [0, 1]"
proof -
  let ?s = "\<lparr>vars = [0 \<mapsto> \<lparr>kv_data = Obj 1 13, kv_index = 1, kv_ctors = 1, kv_dtors = 0\<rparr>], dead = []\<rparr>"
  have "?s \<in> variant_worlds demo_ctors [0, 1]"
    by (rule worlds_done [OF worlds_empty, of _ "NewValue 0 ByMove 1 (Value 13)"])
       (simp_all add: no_variants_def source_ok_def constructed_def new_from_def read_source_def leave_in_source_def
         demo_ctors_def placement_new_def unconstructed_def set_var_def)
  then show ?thesis
    by (rule worlds_done [where c = "NewDefault 1"])
       (simp_all add: demo_world_def constructed_def in_world_def construct_impl_def
         demo_ctors_def placement_new_def unconstructed_def set_var_def fun_upd_twist)
qed




end
