(* ===== verification/Threads.thy ===== *)
theory Threads
  imports EventLoop
begin

text \<open>
  \<^verbatim>\<open>Thread\<close> (src/base/thread.cpp) and \<^verbatim>\<open>EventLoopThread\<close> (src/base/event_loop_thread.cpp), over the event loop of EventLoop:
  the thread that owns the \<^verbatim>\<open>EventLoopThread\<close> object starts a thread, waits for the loop it brings up, and destroys the
  object in the end; the new thread makes the loop, runs the initialisation callback, hands the loop over and runs it.
  The steps are the critical sections, the semaphore operations and the steps of the loop; the callback may throw.
  At the end the slots \<^verbatim>\<open>t_loopInThread\<close> by which an \<^verbatim>\<open>EventLoop\<close> is kept the only one of its thread.
\<close>

section \<open>\<open>Thread\<close>\<close>

text \<open>The static counter, and a thread object.\<close>

record thread_obj =
  th_started :: bool
  th_joined :: bool
  th_joinable :: bool
  th_name :: bytes

definition setDefaultName :: "(nat \<Rightarrow> bytes) \<Rightarrow> nat \<times> thread_obj \<Rightarrow> nat \<times> thread_obj" where
  "setDefaultName to_string = (\<lambda>(createdNum, t).
     let num = createdNum + 1 in
     (num, if th_name t = [] then t\<lparr>th_name := ''mu_thread_'' @ to_string num\<rparr> else t))"

definition new_thread :: "(nat \<Rightarrow> bytes) \<Rightarrow> bytes \<Rightarrow> nat \<Rightarrow> nat \<times> thread_obj" where
  "new_thread to_string name createdNum =
     setDefaultName to_string (createdNum, \<lparr>th_started = False, th_joined = False, th_joinable = False, th_name = name\<rparr>)"

definition thread_join :: "thread_obj \<Rightarrow> thread_obj" where
  "thread_join t = (if \<not> th_joinable t then t else t\<lparr>th_joinable := False, th_joined := True\<rparr>)"

text \<open>The destructor; a \<^verbatim>\<open>std::thread\<close> that is destroyed while joinable ends the process.\<close>

definition thread_destroy :: "thread_obj \<Rightarrow> thread_obj" where
  "thread_destroy t = (if th_started t \<and> \<not> th_joined t then t\<lparr>th_joinable := False\<rparr> else t)"

text \<open>Threads that are given no name get different ones, since every constructor counts.\<close>

lemma default_names_differ:
  assumes "inj to_string" "new_thread to_string [] n = (n', t)" "new_thread to_string name n' = (n'', u)" "name = []"
  shows "th_name t \<noteq> th_name u \<and> n' = n + 1 \<and> n'' = n + 2"
  using assms by (auto simp: new_thread_def setDefaultName_def Let_def inj_eq [OF assms(1)])

section \<open>\<open>EventLoopThread\<close>\<close>

datatype owner_pc =
    ONew        \<comment> \<open>constructed\<close>
  | OSemWait    \<comment> \<open>in \<^verbatim>\<open>Thread::start\<close>, waiting for the semaphore\<close>
  | OTest       \<comment> \<open>in \<^verbatim>\<open>startLoop\<close>, about to test \<^verbatim>\<open>_loop != nullptr\<close> under the lock\<close>
  | OAsleep     \<comment> \<open>in \<^verbatim>\<open>_cond.wait\<close>\<close>
  | OHasLoop    \<comment> \<open>\<^verbatim>\<open>startLoop\<close> has returned\<close>
  | OQuitSet    \<comment> \<open>in the destructor, inside \<^verbatim>\<open>_loop->quit()\<close> before its wake-up\<close>
  | OJoin       \<comment> \<open>in \<^verbatim>\<open>_thread.join()\<close>\<close>
  | OGone       \<comment> \<open>destroyed\<close>

datatype child_pc =
    CNone       \<comment> \<open>not started\<close>
  | CBegin      \<comment> \<open>before \<^verbatim>\<open>sem_post\<close>\<close>
  | CMake       \<comment> \<open>at the head of \<^verbatim>\<open>threadFunc\<close>\<close>
  | CCallback   \<comment> \<open>in the initialisation callback\<close>
  | CNotify     \<comment> \<open>has published the loop\<close>
  | CLoop       \<comment> \<open>in \<^verbatim>\<open>loop->loop()\<close>\<close>
  | CDone       \<comment> \<open>ended\<close>

record loop_thread =
  lt_owner :: owner_pc
  lt_child :: child_pc
  lt_thread :: thread_obj
  lt_pid_known :: bool
  lt_sem :: nat
  lt_loop :: "event_loop option"   \<comment> \<open>the \<^verbatim>\<open>EventLoop\<close> of the new thread\<close>
  lt_published :: bool             \<comment> \<open>\<^verbatim>\<open>_loop\<close> is not null\<close>
  lt_exiting :: bool
  lt_thrown :: bool                \<comment> \<open>the callback has thrown\<close>

definition new_loop_thread :: "thread_obj \<Rightarrow> loop_thread" where
  "new_loop_thread t = \<lparr>lt_owner = ONew, lt_child = CNone, lt_thread = t, lt_pid_known = False, lt_sem = 0,
     lt_loop = None, lt_published = False, lt_exiting = False, lt_thrown = False\<rparr>"

datatype lt_label =
    StartThread | SemPost | SemTaken | MakeLoop "act list" | Throw | Publish | Notify | LockTest | Spurious
  | InLoop loop_label       \<comment> \<open>a step of the loop thread in the callback or in \<^verbatim>\<open>loop()\<close>\<close>
  | OtherThread loop_label  \<comment> \<open>a thread that got hold of the loop queues into it, wakes it or quits it\<close>
  | Return                  \<comment> \<open>\<^verbatim>\<open>loop()\<close> and \<^verbatim>\<open>threadFunc\<close> return\<close>
  | Destroy | DestroyWake | Joined

fun of_other :: "loop_label \<Rightarrow> bool" where
  "of_other (OtherPush t) = True"
| "of_other OtherWake = True"
| "of_other OtherQuit = True"
| "of_other l = False"

text \<open>A step of the loop inside the system.\<close>

definition step_loop :: "loop_label \<Rightarrow> loop_thread \<Rightarrow> loop_thread option" where
  "step_loop l s =
     (case lt_loop s of None \<Rightarrow> None
      | Some e \<Rightarrow> (case loop_step l e of None \<Rightarrow> None | Some e' \<Rightarrow> Some (s\<lparr>lt_loop := Some e'\<rparr>)))"

definition callback_done :: "loop_thread \<Rightarrow> bool" where
  "callback_done s \<longleftrightarrow> (case lt_loop s of None \<Rightarrow> False | Some e \<Rightarrow> lp_work e = [])"

definition loop_gone :: "loop_thread \<Rightarrow> bool" where
  "loop_gone s \<longleftrightarrow> (case lt_loop s of None \<Rightarrow> False | Some e \<Rightarrow> lp_pc e = Gone)"

definition wake_left :: "loop_thread \<Rightarrow> bool" where
  "wake_left s \<longleftrightarrow> (case lt_loop s of None \<Rightarrow> False | Some e \<Rightarrow> lp_owed e > (if lt_owner s = OQuitSet then 1 else 0))"

text \<open>\<^verbatim>\<open>Thread::start\<close>: making the thread, what the new thread does before it runs its function, and the wait for the
  semaphore.\<close>

definition thread_create :: "loop_thread \<Rightarrow> loop_thread option" where
  [simp]: "thread_create s =
     (if lt_owner s = ONew
      then Some (s\<lparr>lt_owner := OSemWait, lt_child := CBegin,
                   lt_thread := (lt_thread s)\<lparr>th_started := True, th_joinable := True\<rparr>\<rparr>)
      else None)"

definition thread_begin :: "loop_thread \<Rightarrow> loop_thread option" where
  [simp]: "thread_begin s =
     (if lt_child s = CBegin then Some (s\<lparr>lt_child := CMake, lt_pid_known := True, lt_sem := lt_sem s + 1\<rparr>) else None)"

definition thread_start_returns :: "loop_thread \<Rightarrow> loop_thread option" where
  [simp]: "thread_start_returns s =
     (if lt_owner s = OSemWait \<and> lt_sem s > 0 then Some (s\<lparr>lt_owner := OTest, lt_sem := lt_sem s - 1\<rparr>) else None)"

fun lt_step :: "lt_label \<Rightarrow> loop_thread \<Rightarrow> loop_thread option" where
  "lt_step StartThread s = thread_create s"
| "lt_step SemPost s = thread_begin s"
| "lt_step SemTaken s = thread_start_returns s"
| "lt_step (MakeLoop init) s =
     (if lt_child s = CMake then Some (s\<lparr>lt_child := CCallback, lt_loop := Some (new_loop init)\<rparr>) else None)"
| "lt_step Throw s =
     (if lt_child s = CCallback then Some (s\<lparr>lt_child := CDone, lt_loop := None, lt_thrown := True\<rparr>) else None)"
| "lt_step Publish s =
     (if lt_child s = CCallback \<and> callback_done s then Some (s\<lparr>lt_child := CNotify, lt_published := True\<rparr>) else None)"
| "lt_step Notify s =
     (if lt_child s = CNotify
      then Some (s\<lparr>lt_child := CLoop, lt_owner := (if lt_owner s = OAsleep then OTest else lt_owner s)\<rparr>) else None)"
| "lt_step LockTest s =
     (if lt_owner s = OTest then Some (s\<lparr>lt_owner := (if lt_published s then OHasLoop else OAsleep)\<rparr>) else None)"
| "lt_step Spurious s = (if lt_owner s = OAsleep then Some (s\<lparr>lt_owner := OTest\<rparr>) else None)"
| "lt_step (InLoop l) s =
     (if lt_child s = CCallback \<and> l = DoAct \<or> lt_child s = CLoop \<and> \<not> of_other l then step_loop l s else None)"
| "lt_step (OtherThread l) s =
     (if of_other l \<and> lt_owner s \<noteq> OGone \<and> (l = OtherWake \<longrightarrow> wake_left s) then step_loop l s else None)"
| "lt_step Return s = (if lt_child s = CLoop \<and> loop_gone s then Some (s\<lparr>lt_child := CDone\<rparr>) else None)"
| "lt_step Destroy s =
     (if lt_owner s = ONew then Some (s\<lparr>lt_owner := OGone, lt_exiting := True, lt_thread := thread_destroy (lt_thread s)\<rparr>)
      else if lt_owner s = OHasLoop
      then map_option (\<lambda>s. s\<lparr>lt_owner := OQuitSet, lt_exiting := True\<rparr>) (step_loop OtherQuit s)
      else None)"
| "lt_step DestroyWake s =
     (if lt_owner s = OQuitSet then map_option (\<lambda>s. s\<lparr>lt_owner := OJoin\<rparr>) (step_loop OtherWake s) else None)"
| "lt_step Joined s =
     (if lt_owner s = OJoin \<and> lt_child s = CDone
      then Some (s\<lparr>lt_owner := OGone, lt_loop := None, lt_published := False,
                   lt_thread := thread_destroy (thread_join (lt_thread s))\<rparr>)
      else None)"

fun lt_run :: "lt_label list \<Rightarrow> loop_thread \<Rightarrow> loop_thread option" where
  "lt_run [] s = Some s"
| "lt_run (l # ls) s = (case lt_step l s of None \<Rightarrow> None | Some s' \<Rightarrow> lt_run ls s')"

inductive lt_reach :: "loop_thread \<Rightarrow> bool" where
  lt_start: "\<not> th_started t \<Longrightarrow> \<not> th_joined t \<Longrightarrow> \<not> th_joinable t \<Longrightarrow> lt_reach (new_loop_thread t)"
| lt_next: "lt_reach s \<Longrightarrow> lt_step l s = Some s' \<Longrightarrow> lt_reach s'"

lemma lt_run_reach: "lt_reach s \<Longrightarrow> lt_run ls s = Some s' \<Longrightarrow> lt_reach s'"
  by (induction ls arbitrary: s) (auto split: option.splits intro: lt_next)


section \<open>The invariant\<close>

definition starting :: "owner_pc \<Rightarrow> bool" where
  "starting p \<longleftrightarrow> p = OSemWait \<or> p = OTest \<or> p = OAsleep"

definition owning :: "owner_pc \<Rightarrow> bool" where
  "owning p \<longleftrightarrow> p = OHasLoop \<or> p = OQuitSet \<or> p = OJoin"

text \<open>The state of the new thread fits the loop; the loop is published exactly from the end of the callback on.\<close>

definition child_inv :: "loop_thread \<Rightarrow> bool" where
  "child_inv s \<longleftrightarrow>
     (case lt_child s of
        CNone \<Rightarrow> lt_loop s = None \<and> \<not> lt_published s
      | CBegin \<Rightarrow> lt_loop s = None \<and> \<not> lt_published s
      | CMake \<Rightarrow> lt_loop s = None \<and> \<not> lt_published s
      | CCallback \<Rightarrow> \<not> lt_published s \<and> (\<exists>e. lt_loop s = Some e \<and> lp_pc e = Before)
      | CNotify \<Rightarrow> lt_published s \<and> (\<exists>e. lt_loop s = Some e \<and> lp_pc e = Before \<and> lp_work e = [])
      | CLoop \<Rightarrow> lt_published s \<and> (\<exists>e. lt_loop s = Some e \<and> (lp_pc e = Before \<longrightarrow> lp_work e = []))
      | CDone \<Rightarrow> lt_owner s = OGone \<or>
          (if lt_thrown s then lt_loop s = None \<and> \<not> lt_published s
           else lt_published s \<and> (\<exists>e. lt_loop s = Some e \<and> lp_pc e = Gone)))
     \<and> (lt_thrown s \<longrightarrow> lt_child s = CDone) \<and> (\<forall>e. lt_loop s = Some e \<longrightarrow> loop_reach e)"

text \<open>The owner is where it can be: it sleeps only while the notification is still to come.\<close>

definition owner_inv :: "loop_thread \<Rightarrow> bool" where
  "owner_inv s \<longleftrightarrow>
     (lt_owner s = ONew \<longrightarrow> lt_child s = CNone) \<and> (lt_child s = CNone \<longrightarrow> lt_owner s = ONew \<or> lt_owner s = OGone)
     \<and> (lt_owner s = OSemWait \<longrightarrow> lt_sem s = (if lt_child s = CBegin then 0 else 1))
     \<and> (lt_child s = CBegin \<longrightarrow> lt_owner s = OSemWait) \<and> (lt_owner s \<noteq> OSemWait \<longrightarrow> lt_sem s = 0)
     \<and> (lt_child s \<noteq> CNone \<and> lt_child s \<noteq> CBegin \<longrightarrow> lt_pid_known s)
     \<and> (lt_owner s = OAsleep \<longrightarrow> \<not> lt_published s \<or> lt_child s = CNotify)
     \<and> (owning (lt_owner s) \<longrightarrow> lt_published s)
     \<and> (lt_owner s = OQuitSet \<longrightarrow> (\<exists>e. lt_loop s = Some e \<and> lp_owed e > 0))
     \<and> (lt_owner s = OGone \<longrightarrow> lt_child s = CNone \<or> lt_child s = CDone)
     \<and> (if lt_owner s = ONew \<or> lt_owner s = OGone then \<not> th_joinable (lt_thread s)
        else th_started (lt_thread s) \<and> th_joinable (lt_thread s)) \<and> (th_joined (lt_thread s) \<longrightarrow> lt_owner s = OGone)"

lemma step_loop_Some:
  "step_loop l s = Some s' \<longleftrightarrow> (\<exists>e e'. lt_loop s = Some e \<and> loop_step l e = Some e' \<and> s' = s\<lparr>lt_loop := Some e'\<rparr>)"
  by (auto simp: step_loop_def split: option.splits)

lemma other_step:
  "of_other l \<Longrightarrow> loop_step l e = Some e' \<Longrightarrow> lp_pc e' = lp_pc e \<and> lp_work e' = lp_work e"
  by (cases l) (auto simp: loop_defs split: if_splits)

lemma do_act_pc [simp]: "lp_pc (do_act a e) = lp_pc e" "lp_owed (do_act a e) = lp_owed e"
  by (cases a; simp add: loop_defs Let_def)+

lemma act_step_pc: "loop_step DoAct e = Some e' \<Longrightarrow> lp_pc e' = lp_pc e \<and> lp_owed e' = lp_owed e"
  by (auto split: if_splits list.splits)

lemma own_owed: "\<not> of_other l \<Longrightarrow> loop_step l e = Some e' \<Longrightarrow> lp_owed e' = lp_owed e \<and> lp_pc e' \<noteq> Before \<or> l = DoAct"
  by (cases l) (auto simp: loop_defs split: if_splits list.splits)

lemma loop_step_work_before:
  "\<not> of_other l \<Longrightarrow> loop_step l e = Some e' \<Longrightarrow> (lp_pc e = Before \<longrightarrow> lp_work e = []) \<Longrightarrow> lp_pc e' = Before \<Longrightarrow> lp_work e' = []"
  by (cases l) (auto simp: loop_defs split: if_splits list.splits)

lemma child_inv_other:
  assumes "child_inv s" "of_other m" "step_loop m s = Some s'"
  shows "child_inv s'"
proof -
  from assms(3) obtain e e' where e: "lt_loop s = Some e" "loop_step m e = Some e'" "s' = s\<lparr>lt_loop := Some e'\<rparr>"
    by (auto simp: step_loop_Some)
  then have "loop_reach e'" using assms(1) by (auto simp: child_inv_def intro: loop_reach.step)
  then show ?thesis using assms(1) e other_step [OF assms(2) e(2)] by (auto simp: child_inv_def split: child_pc.splits)
qed

lemma child_inv_owner:
  "child_inv s \<Longrightarrow> lt_owner s \<noteq> OGone \<Longrightarrow> child_inv (s\<lparr>lt_owner := p\<rparr>) \<and> child_inv (s\<lparr>lt_owner := p, lt_exiting := b\<rparr>)
    \<and> child_inv (s\<lparr>lt_owner := p, lt_sem := n\<rparr>)"
  by (auto simp: child_inv_def split: child_pc.splits)

lemma step_loop_owner: "step_loop m s = Some s' \<Longrightarrow> lt_owner s' = lt_owner s"
  by (auto simp: step_loop_Some)

lemma child_inv_step:
  assumes "child_inv s" "owner_inv s" "lt_step l s = Some s'"
  shows "child_inv s'"
proof (cases l)
  case (MakeLoop init)
  with assms have "s' = s\<lparr>lt_child := CCallback, lt_loop := Some (new_loop init)\<rparr>" "lt_child s = CMake"
    by (auto split: if_splits)
  with assms(1) show ?thesis
    by (auto simp: child_inv_def intro: loop_reach.start) (simp add: new_loop_def)
next
  case (InLoop m)
  with assms(3) obtain e e' where e: "lt_loop s = Some e" "loop_step m e = Some e'" "s' = s\<lparr>lt_loop := Some e'\<rparr>"
    "lt_child s = CCallback \<and> m = DoAct \<or> lt_child s = CLoop \<and> \<not> of_other m"
    by (auto simp: step_loop_Some split: if_splits)
  then have "loop_reach e'" using assms(1) by (auto simp: child_inv_def intro: loop_reach.step)
  note r = this
  show ?thesis
  proof (cases "lt_child s = CCallback")
    case True
    with e(4) have "m = DoAct" by simp
    with e(2) have "lp_pc e' = lp_pc e" using act_step_pc by blast
    then show ?thesis using assms(1) True e(1,3) r by (simp add: child_inv_def)
  next
    case False
    with e(4) have c: "lt_child s = CLoop" "\<not> of_other m" by auto
    then have "lp_pc e = Before \<longrightarrow> lp_work e = []" using assms(1) e(1) by (simp add: child_inv_def)
    from loop_step_work_before [OF c(2) e(2) this] show ?thesis using assms(1) c e(1,3) r by (simp add: child_inv_def)
  qed
next
  case (OtherThread m)
  with assms(3) have "of_other m" "step_loop m s = Some s'" by (simp_all split: if_splits)
  with assms(1) show ?thesis by (rule child_inv_other)
next
  case Destroy
  show ?thesis
  proof (cases "lt_owner s = ONew")
    case False
    with Destroy assms(3) obtain t where "step_loop OtherQuit s = Some t" "lt_owner s = OHasLoop"
      "s' = t\<lparr>lt_owner := OQuitSet, lt_exiting := True\<rparr>"
      by (auto split: if_splits)
    then show ?thesis using child_inv_other [OF assms(1), of OtherQuit t] child_inv_owner [of t] step_loop_owner by fastforce
  next
    case True
    with assms(2) have "lt_child s = CNone" by (simp add: owner_inv_def)
    with assms(1,3) Destroy True show ?thesis by (auto simp: child_inv_def)
  qed
next
  case DestroyWake
  with assms(3) obtain t where "step_loop OtherWake s = Some t" "lt_owner s = OQuitSet" "s' = t\<lparr>lt_owner := OJoin\<rparr>"
    by (auto split: if_splits)
  then show ?thesis using child_inv_other [OF assms(1), of OtherWake t] child_inv_owner [of t] step_loop_owner by fastforce
next
  case Return
  with assms show ?thesis by (auto simp: child_inv_def loop_gone_def split: if_splits)
next
  case Notify
  with assms show ?thesis by (auto simp: child_inv_def split: if_splits)
next
  case Joined
  with assms show ?thesis by (auto simp: child_inv_def split: if_splits)
next
  case Publish
  with assms show ?thesis by (auto simp: child_inv_def callback_done_def split: if_splits)
next
  case StartThread
  with assms(3) have o: "lt_owner s = ONew" by (simp split: if_splits)
  with assms(2) have "lt_child s = CNone" by (simp add: owner_inv_def)
  with assms(1,3) StartThread o show ?thesis by (auto simp: child_inv_def)
next
  case SemPost
  with assms show ?thesis by (auto simp: child_inv_def split: if_splits)
next
  case Throw
  with assms show ?thesis by (auto simp: child_inv_def split: if_splits)
next
  case SemTaken
  with assms(3) have "lt_owner s = OSemWait" "s' = s\<lparr>lt_owner := OTest, lt_sem := lt_sem s - 1\<rparr>" by (simp_all split: if_splits)
  with assms(1) child_inv_owner [of s] show ?thesis by simp
next
  case LockTest
  with assms child_inv_owner [of s] show ?thesis by (auto split: if_splits)
next
  case Spurious
  with assms child_inv_owner [of s] show ?thesis by (auto split: if_splits)
qed


lemma owner_inv_loop:
  "owner_inv s \<Longrightarrow> (lt_owner s = OQuitSet \<Longrightarrow> lp_owed e > 0) \<Longrightarrow> owner_inv (s\<lparr>lt_loop := Some e\<rparr>)"
  by (cases "lt_owner s") (simp_all add: owner_inv_def)

lemma own_step_owed: "\<not> of_other m \<Longrightarrow> loop_step m e = Some e' \<Longrightarrow> lp_owed e' = lp_owed e"
  using own_owed [of m e e'] act_step_pc [of e e'] by blast

lemma other_step_owed:
  assumes "of_other m" "loop_step m e = Some e'" "m = OtherWake \<longrightarrow> lp_owed e > k" "k \<le> 1" "lp_owed e \<ge> k"
  shows "lp_owed e' \<ge> k"
proof (cases m)
  case OtherWake
  with assms(2,3) have "lp_owed e' = lp_owed e - 1" "lp_owed e > k" by (auto simp: loop_defs split: if_splits)
  then show ?thesis by simp
qed (use assms in \<open>auto simp: loop_defs\<close>)

lemma owner_inv_step:
  assumes c: "child_inv s" and o: "owner_inv s" and s: "lt_step l s = Some s'"
  shows "owner_inv s'"
proof (cases l)
  case (InLoop m)
  with s obtain e e' where e: "lt_loop s = Some e" "loop_step m e = Some e'" "s' = s\<lparr>lt_loop := Some e'\<rparr>" "\<not> of_other m"
    by (auto simp: step_loop_Some simp del: loop_step.simps split: if_splits)
  moreover have "lt_owner s = OQuitSet \<Longrightarrow> lp_owed e' > 0"
    using own_step_owed [OF e(4,2)] o e(1) by (simp add: owner_inv_def)
  ultimately show ?thesis using o owner_inv_loop by simp
next
  case (OtherThread m)
  with s obtain e e' where e: "lt_loop s = Some e" "loop_step m e = Some e'" "s' = s\<lparr>lt_loop := Some e'\<rparr>" "of_other m"
    "m = OtherWake \<longrightarrow> wake_left s"
    by (auto simp: step_loop_Some simp del: loop_step.simps split: if_splits)
  have "lp_owed e' > 0" if "lt_owner s = OQuitSet"
    using other_step_owed [OF e(4,2), of 1] e(1,5) o that by (simp add: owner_inv_def wake_left_def)
  with e(3) o owner_inv_loop show ?thesis by simp
next
  case Destroy
  show ?thesis
  proof (cases "lt_owner s = ONew")
    case True
    with Destroy s have "s' = s\<lparr>lt_owner := OGone, lt_exiting := True, lt_thread := thread_destroy (lt_thread s)\<rparr>" by simp
    with True o show ?thesis by (simp add: owner_inv_def owning_def thread_destroy_def)
  next
    case False
    with Destroy s obtain e where "lt_loop s = Some e" "lt_owner s = OHasLoop"
      "s' = s\<lparr>lt_loop := Some (e\<lparr>lp_quit := True, lp_owed := lp_owed e + 1\<rparr>), lt_owner := OQuitSet, lt_exiting := True\<rparr>"
      by (auto simp: step_loop_Some split: if_splits)
    with o show ?thesis by (simp add: owner_inv_def owning_def)
  qed
next
  case DestroyWake
  with s obtain e' where "lt_owner s = OQuitSet" "s' = s\<lparr>lt_loop := Some e', lt_owner := OJoin\<rparr>"
    by (auto simp: step_loop_Some simp del: loop_step.simps split: if_splits)
  with o show ?thesis by (simp add: owner_inv_def owning_def)
next
  case Joined
  with s have "lt_owner s = OJoin" "lt_child s = CDone" "s' = s\<lparr>lt_owner := OGone, lt_loop := None, lt_published := False,
      lt_thread := thread_destroy (thread_join (lt_thread s))\<rparr>"
    by (auto split: if_splits)
  with o show ?thesis by (simp add: owner_inv_def owning_def thread_destroy_def thread_join_def)
next
  case StartThread
  with s have "lt_owner s = ONew" "s' = s\<lparr>lt_owner := OSemWait, lt_child := CBegin,
      lt_thread := (lt_thread s)\<lparr>th_started := True, th_joinable := True\<rparr>\<rparr>"
    by (auto split: if_splits)
  with o show ?thesis by (simp add: owner_inv_def owning_def)
next
  case SemPost
  with s have "lt_child s = CBegin" "s' = s\<lparr>lt_child := CMake, lt_pid_known := True, lt_sem := lt_sem s + 1\<rparr>"
    by (auto split: if_splits)
  with o show ?thesis by (auto simp add: owner_inv_def owning_def)
next
  case (MakeLoop init)
  with s have "lt_child s = CMake" "s' = s\<lparr>lt_child := CCallback, lt_loop := Some (new_loop init)\<rparr>"
    by (auto split: if_splits)
  with o c show ?thesis by (auto simp add: owner_inv_def owning_def child_inv_def)
next
  case Throw
  with s have "lt_child s = CCallback" "s' = s\<lparr>lt_child := CDone, lt_loop := None, lt_thrown := True\<rparr>"
    by (auto split: if_splits)
  with o c show ?thesis by (auto simp add: owner_inv_def owning_def child_inv_def)
next
  case Publish
  with s have "lt_child s = CCallback" "s' = s\<lparr>lt_child := CNotify, lt_published := True\<rparr>"
    by (auto split: if_splits)
  with o show ?thesis by (simp add: owner_inv_def owning_def)
next
  case Notify
  with s have "lt_child s = CNotify" "s' = s\<lparr>lt_child := CLoop, lt_owner := (if lt_owner s = OAsleep then OTest else lt_owner s)\<rparr>"
    by (auto split: if_splits)
  with o c show ?thesis by (auto simp add: owner_inv_def owning_def child_inv_def)
next
  case LockTest
  with s have "lt_owner s = OTest" "s' = s\<lparr>lt_owner := (if lt_published s then OHasLoop else OAsleep)\<rparr>"
    by (auto split: if_splits)
  with o show ?thesis by (auto simp add: owner_inv_def owning_def)
next
  case Return
  with s have "lt_child s = CLoop" "s' = s\<lparr>lt_child := CDone\<rparr>" by (auto split: if_splits)
  with o show ?thesis by (simp add: owner_inv_def owning_def)
next
  case SemTaken
  with s have "lt_owner s = OSemWait" "lt_sem s > 0" "s' = s\<lparr>lt_owner := OTest, lt_sem := lt_sem s - 1\<rparr>"
    by (auto split: if_splits)
  with o show ?thesis by (auto simp add: owner_inv_def owning_def split: if_splits)
next
  case Spurious
  with s have "lt_owner s = OAsleep" "s' = s\<lparr>lt_owner := OTest\<rparr>" by (auto split: if_splits)
  with o show ?thesis by (simp add: owner_inv_def owning_def)
qed

lemma lt_reach_inv: "lt_reach s \<Longrightarrow> child_inv s \<and> owner_inv s"
proof (induction rule: lt_reach.induct)
  case (lt_start t)
  then show ?case by (simp add: new_loop_thread_def child_inv_def owner_inv_def owning_def)
next
  case (lt_next s l s')
  then show ?case using child_inv_step owner_inv_step by blast
qed


section \<open>The two threads on their own\<close>

text \<open>What happens next when no other thread interferes: the new thread goes first while the owner waits for it.\<close>

definition lt_own_label :: "act list \<Rightarrow> loop_thread \<Rightarrow> lt_label" where
  "lt_own_label init s =
     (case lt_child s of
        CBegin \<Rightarrow> SemPost
      | CMake \<Rightarrow> MakeLoop init
      | CCallback \<Rightarrow> if callback_done s then Publish else InLoop DoAct
      | CNotify \<Rightarrow> Notify
      | _ \<Rightarrow>
         (case lt_owner s of
            OSemWait \<Rightarrow> SemTaken
          | OTest \<Rightarrow> LockTest
          | OQuitSet \<Rightarrow> DestroyWake
          | _ \<Rightarrow> if lt_child s = CDone then Joined
                else case lt_loop s of None \<Rightarrow> Joined
                     | Some e \<Rightarrow> if lp_pc e = Gone then Return else InLoop (own_label e)))"

definition lt_own_step :: "act list \<Rightarrow> loop_thread \<Rightarrow> loop_thread" where
  "lt_own_step init s = (case lt_step (lt_own_label init s) s of Some s' \<Rightarrow> s' | None \<Rightarrow> s)"

fun lt_own_run :: "act list \<Rightarrow> nat \<Rightarrow> loop_thread \<Rightarrow> loop_thread" where
  "lt_own_run init 0 s = s"
| "lt_own_run init (Suc n) s = lt_own_run init n (lt_own_step init s)"

lemma lt_own_run_add: "lt_own_run init (m + n) s = lt_own_run init n (lt_own_run init m s)"
  by (induction m arbitrary: s) auto

lemma lt_own_step_reach: "lt_reach s \<Longrightarrow> lt_reach (lt_own_step init s)"
  using lt_next [of s "lt_own_label init s"] by (auto simp: lt_own_step_def split: option.splits)

text \<open>How far the new thread is from running the loop: its stage, then the rest of the callback.\<close>

definition stage :: "loop_thread \<Rightarrow> nat" where
  "stage s = (case lt_child s of CBegin \<Rightarrow> 4 | CMake \<Rightarrow> 3 | CCallback \<Rightarrow> 2 | CNotify \<Rightarrow> 1 | _ \<Rightarrow> 0)"

definition rest_size :: "loop_thread \<Rightarrow> nat" where
  "rest_size s = (case lt_loop s of None \<Rightarrow> 0 | Some e \<Rightarrow> work_size (lp_work e))"

lemma start_advances:
  assumes "lt_reach s" "starting (lt_owner s)" "stage s > 0"
  shows "(lt_own_step init s, s) \<in> measures [stage, rest_size] \<and> starting (lt_owner (lt_own_step init s))
    \<and> lt_thrown (lt_own_step init s) = lt_thrown s"
proof -
  have c: "child_inv s" using lt_reach_inv [OF assms(1)] by simp
  show ?thesis
  proof (cases "lt_child s")
    case CCallback
    then obtain e where e: "lt_loop s = Some e" "lp_pc e = Before" using c by (auto simp: child_inv_def)
    show ?thesis
    proof (cases "lp_work e")
      case Nil
      with CCallback e assms(2) show ?thesis
        by (simp add: lt_own_step_def lt_own_label_def callback_done_def stage_def)
    next
      case (Cons a as)
      then have "lt_own_step init s = s\<lparr>lt_loop := Some (do_act a (e\<lparr>lp_work := as\<rparr>))\<rparr>"
        using CCallback e by (simp add: lt_own_step_def lt_own_label_def callback_done_def step_loop_def)
      then show ?thesis using CCallback e Cons assms(2) do_act_work [where a = a and as = as and s = e]
        by (simp add: stage_def rest_size_def)
    qed
  qed (use assms in \<open>auto simp: lt_own_step_def lt_own_label_def stage_def starting_def\<close>)
qed

lemma start_reaches_stage_0:
  "lt_reach s \<Longrightarrow> starting (lt_owner s) \<Longrightarrow>
     \<exists>n. lt_reach (lt_own_run init n s) \<and> starting (lt_owner (lt_own_run init n s)) \<and> stage (lt_own_run init n s) = 0
       \<and> lt_thrown (lt_own_run init n s) = lt_thrown s"
proof (induction s rule: wf_induct [OF wf_measures, of "[stage, rest_size]"])
  case (1 s)
  show ?case
  proof (cases "stage s = 0")
    case True
    with 1 show ?thesis by (intro exI [of _ 0]) simp
  next
    case False
    with start_advances [OF 1(2,3), of init] 1(1) lt_own_step_reach [OF 1(2), of init]
    obtain n where n: "lt_reach (lt_own_run init n (lt_own_step init s))"
      "starting (lt_owner (lt_own_run init n (lt_own_step init s)))" "stage (lt_own_run init n (lt_own_step init s)) = 0"
      "lt_thrown (lt_own_run init n (lt_own_step init s)) = lt_thrown s"
      by (metis (no_types, lifting) not_gr0)
    then show ?thesis by (intro exI [of _ "Suc n"]) simp
  qed
qed

lemma stage_0_returns:
  assumes "lt_reach s" "starting (lt_owner s)" "stage s = 0" "\<not> lt_thrown s"
  shows "\<exists>n. lt_owner (lt_own_run init n s) = OHasLoop"
proof -
  have i: "child_inv s" "owner_inv s" using lt_reach_inv [OF assms(1)] by auto
  have "lt_child s = CNone \<longrightarrow> lt_owner s = ONew \<or> lt_owner s = OGone" using i(2) unfolding owner_inv_def by blast
  then have cl: "lt_child s = CLoop \<or> lt_child s = CDone"
    using assms(2,3) by (cases "lt_child s") (auto simp: stage_def starting_def)
  then have c: "lt_child s = CLoop \<or> lt_child s = CDone" "lt_published s"
    using i(1) assms(2,4) by (auto simp: child_inv_def starting_def)
  have "lt_owner s = OAsleep \<longrightarrow> \<not> lt_published s \<or> lt_child s = CNotify"
    "lt_owner s = OSemWait \<longrightarrow> lt_sem s = (if lt_child s = CBegin then 0 else 1)"
    using i(2) unfolding owner_inv_def by blast+
  with c assms(2) have o: "lt_owner s = OTest \<or> lt_owner s = OSemWait \<and> lt_sem s = 1"
    by (auto simp: starting_def)
  have test: "lt_owner (lt_own_step init t) = OHasLoop"
    if "lt_child t = CLoop \<or> lt_child t = CDone" "lt_published t" "lt_owner t = OTest" for t
    using that by (auto simp: lt_own_step_def lt_own_label_def)
  show ?thesis
  proof (cases "lt_owner s = OTest")
    case True
    with test c have "lt_owner (lt_own_run init 1 s) = OHasLoop" by simp
    then show ?thesis by blast
  next
    case False
    with o c have "lt_own_step init s = s\<lparr>lt_owner := OTest, lt_sem := 0\<rparr>"
      by (auto simp: lt_own_step_def lt_own_label_def)
    with test c have "lt_owner (lt_own_run init 2 s) = OHasLoop" by (simp add: numeral_2_eq_2)
    then show ?thesis by blast
  qed
qed

text \<open>A callback that has thrown leaves the owner waiting.\<close>

lemma thrown_stuck:
  "lt_reach s \<Longrightarrow> lt_thrown s \<Longrightarrow> starting (lt_owner s) \<Longrightarrow> lt_run ls s = Some s' \<Longrightarrow> starting (lt_owner s')"
proof (induction ls arbitrary: s)
  case (Cons l ls)
  then obtain t where t: "lt_step l s = Some t" "lt_run ls t = Some s'" by (auto split: option.splits)
  have "lt_child s = CDone" "lt_loop s = None" "\<not> lt_published s"
    using lt_reach_inv [OF Cons.prems(1)] Cons.prems(2,3) by (auto simp: child_inv_def starting_def)
  then have "lt_thrown t \<and> starting (lt_owner t)"
    using t(1) Cons.prems(2,3) by (cases l) (auto simp: starting_def step_loop_def split: if_splits)
  then show ?case using Cons.IH [of t] lt_next [OF Cons.prems(1) t(1)] t(2) by blast
qed simp

section \<open>Leaving the loop\<close>

text \<open>A loop that has been told to quit, and does not enter \<^verbatim>\<open>loop()\<close> afterwards, leaves it by its own steps, if only when
  \<^verbatim>\<open>poll\<close> times out.\<close>

lemma own_run_1: "own_run 1 s = own_step s"
  by simp

lemma quit_leaves:
  assumes "loop_reach s" "lp_quit s" "lp_pc s \<noteq> Before"
  shows "\<exists>n. lp_pc (own_run n s) = Gone"
proof -
  have test: "\<exists>n. lp_pc (own_run n s) = Gone" if "lp_pc (own_run n s) = AtTest" "lp_quit (own_run n s)" for n s
  proof -
    have "lp_pc (own_run (n + 1) s) = Gone"
      using that by (simp only: own_run_add own_run_1) (simp add: own_step_def own_label_def)
    then show ?thesis by blast
  qed
  have pend: "\<exists>n. lp_pc (own_run n s) = Gone" if "lp_pc s = InPending" "lp_quit s" for s
    using batch_ends [OF that(1)] that(2) test by blast
  have hand: "\<exists>n. lp_pc (own_run n s) = Gone" if "lp_pc s = InHandlers" "lp_quit s" "loop_reach s" for s
    using round_ends [OF that(1)] loop_reach_inv [OF that(3)] that(2) test unfolding loop_inv_def by blast
  have later: "\<exists>n. lp_pc (own_run n s) = Gone" if "\<exists>n. lp_pc (own_run n (own_step s)) = Gone" for s
    using that by (metis own_run.simps(2))
  show ?thesis
  proof (cases "lp_pc s")
    case AtTest
    then show ?thesis using test [of 0 s] assms(2) by simp
  next
    case InPoll
    then have "lp_pc (own_step s) = InHandlers" "lp_quit (own_step s)"
      using assms(2) by (auto simp: own_step_def own_label_def)
    from hand [OF this own_step_reach [OF assms(1)]] show ?thesis by (rule later)
  next
    case AtSwap
    then have "lp_pc (own_step s) = InPending" "lp_quit (own_step s)"
      using assms(2) by (auto simp: own_step_def own_label_def)
    from pend [OF this] show ?thesis by (rule later)
  next
    case Gone
    then have "lp_pc (own_run 0 s) = Gone" by simp
    then show ?thesis by blast
  qed (use assms hand pend in auto)
qed

text \<open>A loop without work that nobody tells to quit stays.\<close>

definition idle :: "event_loop \<Rightarrow> bool" where
  "idle e \<longleftrightarrow> lp_pc e \<noteq> Gone \<and> lp_work e = [] \<and> lp_batch e = [] \<and> lp_pending e = [] \<and> (lp_pc e = Before \<or> \<not> lp_quit e)"

lemma idle_step: "idle e \<Longrightarrow> idle (own_step e)"
  by (cases "lp_pc e") (auto simp: idle_def own_step_def own_label_def loop_handleRead_def)


section \<open>Joining\<close>

lemma own_label_own: "\<not> of_other (own_label e)"
  by (cases "lp_pc e") (auto simp: own_label_def)

lemma join_mirrors:
  assumes "lt_owner s = OJoin" "lt_child s = CLoop" "lt_loop s = Some e" "lp_pc e \<noteq> Gone"
  shows "lt_own_step init s = s\<lparr>lt_loop := Some (own_step e)\<rparr>"
  using assms own_enabled [OF assms(4)] own_label_own [of e]
  by (simp add: lt_own_step_def lt_own_label_def step_loop_def)

lemma join_reaches_gone:
  assumes "lt_owner s = OJoin" "lt_child s = CLoop" "lt_loop s = Some e" "lp_pc (own_run n e) = Gone"
  shows "\<exists>m. lt_owner (lt_own_run init m s) = OGone \<and> \<not> th_joinable (lt_thread (lt_own_run init m s))"
  using assms
proof (induction n arbitrary: s e)
  case (Suc n)
  show ?case
  proof (cases "lp_pc e = Gone")
    case True
    then have g: "lp_pc e = Gone" .
    from Suc.prems g have "lt_own_step init s = s\<lparr>lt_child := CDone\<rparr>"
      by (simp add: lt_own_step_def lt_own_label_def loop_gone_def)
    then have "lt_owner (lt_own_run init 2 s) = OGone \<and> \<not> th_joinable (lt_thread (lt_own_run init 2 s))"
      using Suc.prems(1) by (simp add: numeral_2_eq_2 lt_own_step_def lt_own_label_def thread_destroy_def thread_join_def)
    then show ?thesis by blast
  next
    case False
    from join_mirrors [OF Suc.prems(1-3) False, of init]
    have s: "lt_own_step init s = s\<lparr>lt_loop := Some (own_step e)\<rparr>" .
    from Suc.IH [of "s\<lparr>lt_loop := Some (own_step e)\<rparr>" "own_step e"] Suc.prems
    obtain m where "lt_owner (lt_own_run init m (lt_own_step init s)) = OGone
        \<and> \<not> th_joinable (lt_thread (lt_own_run init m (lt_own_step init s)))"
      by (auto simp: s)
    then show ?thesis by (intro exI [of _ "Suc m"]) simp
  qed
next
  case 0
  then have "lt_own_step init s = s\<lparr>lt_child := CDone\<rparr>"
    by (simp add: lt_own_step_def lt_own_label_def loop_gone_def)
  then have "lt_owner (lt_own_run init 2 s) = OGone \<and> \<not> th_joinable (lt_thread (lt_own_run init 2 s))"
    using 0(1) by (simp add: numeral_2_eq_2 lt_own_step_def lt_own_label_def thread_destroy_def thread_join_def)
  then show ?case by blast
qed

lemma join_waits:
  assumes "lt_owner s = OJoin" "lt_child s = CNotify \<or> lt_child s = CLoop" "lt_loop s = Some e" "idle e"
  shows "lt_owner (lt_own_run init n s) = OJoin"
  using assms
proof (induction n arbitrary: s e)
  case (Suc n)
  show ?case
  proof (cases "lt_child s = CNotify")
    case True
    with Suc.prems have "lt_own_step init s = s\<lparr>lt_child := CLoop\<rparr>" by (simp add: lt_own_step_def lt_own_label_def)
    with Suc.IH [of "s\<lparr>lt_child := CLoop\<rparr>" e] Suc.prems show ?thesis by simp
  next
    case False
    with Suc.prems have "lt_own_step init s = s\<lparr>lt_loop := Some (own_step e)\<rparr>"
      by (intro join_mirrors) (auto simp: idle_def)
    with Suc.IH [of "s\<lparr>lt_loop := Some (own_step e)\<rparr>" "own_step e"] Suc.prems False idle_step show ?thesis by simp
  qed
qed simp

section \<open>One loop per thread\<close>

text \<open>\<^verbatim>\<open>t_loopInThread\<close> of each thread: the constructor of \<^verbatim>\<open>EventLoop\<close> aborts when the thread has a loop, the destructor
  clears the slot of the thread it runs in.\<close>

definition EventLoop_ctor :: "nat \<Rightarrow> nat \<Rightarrow> (nat \<rightharpoonup> nat) \<Rightarrow> cpp_error + (nat \<rightharpoonup> nat)" where
  "EventLoop_ctor thread loop slots = (if slots thread \<noteq> None then Inl AssertFail else Inr (slots(thread \<mapsto> loop)))"

definition EventLoop_dtor :: "nat \<Rightarrow> (nat \<rightharpoonup> nat) \<Rightarrow> (nat \<rightharpoonup> nat)" where
  "EventLoop_dtor thread slots = slots(thread := None)"

text \<open>A loop that is destroyed in its own thread leaves the others guarded. The loop of an \<^verbatim>\<open>EventLoopThread\<close> is destroyed by
  the owner (\<^verbatim>\<open>_loop.reset()\<close>): when the owner's thread has a loop itself, that loop loses its guard, and a second loop
  can be made beside it.\<close>

lemma loop_guard_kept:
  "slots thread = Some l \<Longrightarrow> thread \<noteq> other \<Longrightarrow> EventLoop_ctor thread l' (EventLoop_dtor other slots) = Inl AssertFail"
  by (simp add: EventLoop_ctor_def EventLoop_dtor_def)

lemma loop_guard_lost:
  assumes "EventLoop_ctor owner 1 Map.empty = Inr slots" "EventLoop_ctor child 2 slots = Inr slots'" "owner \<noteq> child"
  shows "slots' owner = Some 1 \<and> (\<exists>slots''. EventLoop_ctor owner 3 (EventLoop_dtor owner slots') = Inr slots'')
    \<and> EventLoop_dtor owner slots' child = Some 2"
  using assms by (auto simp: EventLoop_ctor_def EventLoop_dtor_def)

section \<open>Properties\<close>

text \<open>C19. \<^verbatim>\<open>startLoop\<close>, whatever the interleaving: it returns only when the new thread has published a loop whose
  initialisation callback has come to its end, a loop of which everything proved of the event loop holds; while the callback
  has not thrown, the two threads need nothing but their own steps to get there - no notification is missed - and once it
  has thrown, \<^verbatim>\<open>startLoop\<close> never returns, whatever happens.\<close>

theorem start_loop_returns:
  assumes "lt_reach s"
  shows "(owning (lt_owner s) \<longrightarrow>
            lt_pid_known s \<and> (\<exists>e. lt_loop s = Some e \<and> loop_reach e \<and> (lp_pc e = Before \<longrightarrow> lp_work e = [])))
       \<and> (starting (lt_owner s) \<and> \<not> lt_thrown s \<longrightarrow> (\<exists>n. lt_owner (lt_own_run init n s) = OHasLoop))
       \<and> (starting (lt_owner s) \<and> lt_thrown s \<longrightarrow> (\<forall>ls s'. lt_run ls s = Some s' \<longrightarrow> starting (lt_owner s')))"
proof (intro conjI impI)
  have i: "child_inv s" "owner_inv s" using lt_reach_inv [OF assms] by auto
  assume o: "owning (lt_owner s)"
  have "owning (lt_owner s) \<longrightarrow> lt_published s" using i(2) unfolding owner_inv_def by blast
  with o have "lt_published s" "lt_owner s \<noteq> OGone" by (auto simp: owning_def)
  with i(1) have c: "lt_child s = CNotify \<or> lt_child s = CLoop \<or> lt_child s = CDone"
    "\<exists>e. lt_loop s = Some e \<and> loop_reach e \<and> (lp_pc e = Before \<longrightarrow> lp_work e = [])"
    by (auto simp: child_inv_def split: child_pc.splits if_splits)
  then show "\<exists>e. lt_loop s = Some e \<and> loop_reach e \<and> (lp_pc e = Before \<longrightarrow> lp_work e = [])" by simp
  have "lt_child s \<noteq> CNone \<and> lt_child s \<noteq> CBegin \<longrightarrow> lt_pid_known s" using i(2) unfolding owner_inv_def by blast
  with c(1) show "lt_pid_known s" by auto
next
  assume s: "starting (lt_owner s) \<and> \<not> lt_thrown s"
  with start_reaches_stage_0 [OF assms, of init] obtain n where
    "lt_reach (lt_own_run init n s)" "starting (lt_owner (lt_own_run init n s))" "stage (lt_own_run init n s) = 0"
    "\<not> lt_thrown (lt_own_run init n s)"
    by auto
  from stage_0_returns [OF this, of init] obtain m where "lt_owner (lt_own_run init m (lt_own_run init n s)) = OHasLoop" ..
  then show "\<exists>n. lt_owner (lt_own_run init n s) = OHasLoop" by (intro exI [of _ "n + m"]) (simp add: lt_own_run_add)
next
  assume "starting (lt_owner s) \<and> lt_thrown s"
  then show "\<forall>ls s'. lt_run ls s = Some s' \<longrightarrow> starting (lt_owner s')" using thrown_stuck [OF assms] by blast
qed

definition fresh_thread :: thread_obj where
  "fresh_thread = \<lparr>th_started = False, th_joined = False, th_joinable = False, th_name = ''loop''\<rparr>"

definition after_throw :: loop_thread where
  "after_throw = the (lt_run [StartThread, SemPost, MakeLoop [], Throw, SemTaken] (new_loop_thread fresh_thread))"

lemma fresh_reach: "lt_run ls (new_loop_thread fresh_thread) = Some s \<Longrightarrow> lt_reach s"
  by (rule lt_run_reach [OF lt_start]) (simp_all add: fresh_thread_def)

lemma after_throw_facts:
  "lt_run [StartThread, SemPost, MakeLoop [], Throw, SemTaken] (new_loop_thread fresh_thread) = Some after_throw"
  "starting (lt_owner after_throw)" "lt_thrown after_throw"
  by (simp_all add: after_throw_def new_loop_thread_def starting_def)

theorem start_loop_returns_witness:
  "(\<exists>n. lt_owner (lt_own_run [] n (the (lt_step StartThread (new_loop_thread fresh_thread)))) = OHasLoop)
   \<and> (\<nexists>ls s'. lt_run ls after_throw = Some s' \<and> lt_owner s' = OHasLoop)"
proof
  let ?s = "the (lt_step StartThread (new_loop_thread fresh_thread))"
  have "lt_run [StartThread] (new_loop_thread fresh_thread) = Some ?s" by (simp add: new_loop_thread_def)
  from start_loop_returns [OF fresh_reach [OF this], of "[]"]
  show "\<exists>n. lt_owner (lt_own_run [] n ?s) = OHasLoop" by (simp add: new_loop_thread_def starting_def)
  from start_loop_returns [OF fresh_reach [OF after_throw_facts(1)]] after_throw_facts(2,3)
  have "\<forall>ls s'. lt_run ls after_throw = Some s' \<longrightarrow> starting (lt_owner s')" by blast
  moreover have "\<not> starting OHasLoop" by (simp add: starting_def)
  ultimately show "\<nexists>ls s'. lt_run ls after_throw = Some s' \<and> lt_owner s' = OHasLoop" by metis
qed

text \<open>C20. The destructor of \<^verbatim>\<open>EventLoopThread\<close>, once it has told the loop to quit: if the loop thread was inside \<^verbatim>\<open>loop()\<close> by
  then, the loop leaves by its own steps, the join returns and the thread object is destroyed joined; if it had not entered
  \<^verbatim>\<open>loop()\<close> yet and nothing is queued, the request is lost and the join waits for ever.\<close>

theorem destructor_joins:
  assumes "lt_reach s" and "lt_owner s = OJoin" and "lt_loop s = Some e"
  shows "(lp_pc e \<noteq> Before \<and> lp_quit e \<longrightarrow>
            (\<exists>n. lt_owner (lt_own_run init n s) = OGone \<and> \<not> th_joinable (lt_thread (lt_own_run init n s))))
       \<and> (lp_pc e = Before \<and> lp_pending e = [] \<longrightarrow> (\<forall>n. lt_owner (lt_own_run init n s) = OJoin))"
proof -
  have i: "child_inv s" "owner_inv s" using lt_reach_inv [OF assms(1)] by auto
  then have "owning (lt_owner s) \<longrightarrow> lt_published s" unfolding owner_inv_def by blast
  then have "lt_published s" using assms(2) by (simp add: owning_def)
  with i(1) assms(2,3) have c: "lt_child s = CNotify \<and> lp_pc e = Before \<and> lp_work e = []
      \<or> lt_child s = CLoop \<and> (lp_pc e = Before \<longrightarrow> lp_work e = []) \<or> lt_child s = CDone \<and> lp_pc e = Gone"
    and r: "loop_reach e"
    by (auto simp: child_inv_def split: child_pc.splits if_splits)
  show ?thesis
  proof (intro conjI impI allI)
    assume q: "lp_pc e \<noteq> Before \<and> lp_quit e"
    show "\<exists>n. lt_owner (lt_own_run init n s) = OGone \<and> \<not> th_joinable (lt_thread (lt_own_run init n s))"
    proof (cases "lt_child s = CLoop")
      case True
      from quit_leaves [OF r] q obtain n where "lp_pc (own_run n e) = Gone" by blast
      from join_reaches_gone [OF assms(2) True assms(3) this] show ?thesis .
    next
      case False
      with c q have "lt_child s = CDone" by simp
      then have "lt_owner (lt_own_run init 1 s) = OGone \<and> \<not> th_joinable (lt_thread (lt_own_run init 1 s))"
        using assms(2) by (simp add: lt_own_step_def lt_own_label_def thread_destroy_def thread_join_def)
      then show ?thesis by blast
    qed
  next
    fix n assume p: "lp_pc e = Before \<and> lp_pending e = []"
    with c have "lt_child s = CNotify \<or> lt_child s = CLoop" "lp_work e = []" by auto
    moreover have "lp_batch e = []" using loop_reach_inv [OF r] p by (auto simp: loop_inv_def ctl_inv_def)
    ultimately show "lt_owner (lt_own_run init n s) = OJoin" using join_waits [OF assms(2) _ assms(3)] p by (simp add: idle_def)
  qed
qed

definition join_too_early :: loop_thread where
  "join_too_early = the (lt_run [StartThread, SemPost, SemTaken, MakeLoop [], Publish, LockTest, Destroy, DestroyWake]
     (new_loop_thread fresh_thread))"

definition join_in_time :: loop_thread where
  "join_in_time = the (lt_run [StartThread, SemPost, SemTaken, MakeLoop [], Publish, LockTest, Notify, InLoop Enter, Destroy,
     DestroyWake] (new_loop_thread fresh_thread))"

theorem destructor_joins_witness:
  "(\<forall>n. lt_owner (lt_own_run [] n join_too_early) = OJoin) \<and> (\<exists>n. lt_owner (lt_own_run [] n join_in_time) = OGone)"
proof
  let ?l = "\<lambda>ls. lt_run ([StartThread, SemPost, SemTaken, MakeLoop [], Publish, LockTest] @ ls) (new_loop_thread fresh_thread)"
  have 1: "?l [Destroy, DestroyWake] = Some join_too_early" "lt_owner join_too_early = OJoin"
    "\<exists>e. lt_loop join_too_early = Some e \<and> lp_pc e = Before \<and> lp_pending e = []"
    by (simp_all add: join_too_early_def new_loop_thread_def callback_done_def step_loop_def new_loop_def loop_defs)
  then obtain e where e: "lt_loop join_too_early = Some e" "lp_pc e = Before" "lp_pending e = []" by blast
  from destructor_joins [OF fresh_reach [OF 1(1)] 1(2) e(1), of "[]"] e(2,3)
  show "\<forall>n. lt_owner (lt_own_run [] n join_too_early) = OJoin" by simp
  have 2: "?l [Notify, InLoop Enter, Destroy, DestroyWake] = Some join_in_time" "lt_owner join_in_time = OJoin"
    "\<exists>e. lt_loop join_in_time = Some e \<and> lp_pc e \<noteq> Before \<and> lp_quit e"
    by (simp_all add: join_in_time_def new_loop_thread_def callback_done_def step_loop_def new_loop_def loop_defs)
  then obtain f where f: "lt_loop join_in_time = Some f" "lp_pc f \<noteq> Before" "lp_quit f" by blast
  from destructor_joins [OF fresh_reach [OF 2(1)] 2(2) f(1), of "[]"] f(2,3)
  show "\<exists>n. lt_owner (lt_own_run [] n join_in_time) = OGone" by auto
qed

end
